(* ===== verification/Prelude.thy ===== *)
theory Prelude
  imports Main "HOL-Library.Word"
begin

text \<open>
  Shared vocabulary of the development: Go's fixed-width integers and clock values, the part of
  \<^verbatim>\<open>container/list\<close> that the caches use, and the list lemmas the components share.
\<close>

section \<open>Collections of facts\<close>

named_theorems wrap_simps \<open>rules that remove a wrap-around under a range hypothesis\<close>
named_theorems golist_simps \<open>rules for the doubly linked list of \<open>container/list\<close>\<close>

declare Let_def [simp]

section \<open>Machine integers\<close>

text \<open>
  A Go \<open>int64\<close> is an \<open>int\<close> whose arithmetic is written with \<open>i64\<close>: the value of
  an \<open>int64\<close> expression after two's complement wrap-around. Counters of type \<open>uint64\<close>
  and hashes of type \<open>uint32\<close> are words.
\<close>

definition i64 :: "int \<Rightarrow> int" where
  "i64 x = (x + 2 ^ 63) mod 2 ^ 64 - 2 ^ 63"

definition in_i64 :: "int \<Rightarrow> bool" where
  "in_i64 x \<longleftrightarrow> - (2 ^ 63) \<le> x \<and> x < 2 ^ 63"

type_synonym uint32 = "32 word"
type_synonym uint64 = "64 word"

lemma i64_id [wrap_simps]: "in_i64 x \<Longrightarrow> i64 x = x"
  by (simp add: i64_def in_i64_def)

lemma in_i64_i64 [simp]: "in_i64 (i64 x)"
proof -
  have "0 \<le> (x + 2 ^ 63) mod (2 ^ 64 :: int)" and "(x + 2 ^ 63) mod (2 ^ 64 :: int) < 2 ^ 64"
    by simp_all
  then show ?thesis unfolding in_i64_def i64_def by (auto simp: algebra_simps)
qed

lemma in_i64_below: "0 \<le> n \<Longrightarrow> n \<le> m \<Longrightarrow> m < 2 ^ 63 \<Longrightarrow> in_i64 n"
  by (simp add: in_i64_def)

lemma i64_i64 [simp]: "i64 (i64 x) = i64 x"
  by (rule i64_id) simp

lemma i64_0 [simp]: "i64 0 = 0"
  by (simp add: i64_def)

lemma i64_cong: "x mod 2 ^ 64 = y mod 2 ^ 64 \<Longrightarrow> i64 x = i64 y"
  unfolding i64_def by (metis mod_add_left_eq)

lemma i64_mod: "i64 x mod 2 ^ 64 = x mod 2 ^ 64"
proof -
  have "((x + 2 ^ 63) mod 2 ^ 64 - 2 ^ 63) mod 2 ^ 64 = (x + 2 ^ 63 - 2 ^ 63) mod (2 ^ 64 :: int)"
    by (rule mod_diff_left_eq)
  then show ?thesis by (simp add: i64_def)
qed

lemma i64_add_i64 [simp]: "i64 (x + i64 y) = i64 (x + y)"
proof (rule i64_cong)
  have "(x + i64 y) mod 2 ^ 64 = (x + i64 y mod 2 ^ 64) mod 2 ^ 64"
    by (simp only: mod_add_right_eq)
  also have "\<dots> = (x + y) mod 2 ^ 64"
    by (simp only: i64_mod mod_add_right_eq)
  finally show "(x + i64 y) mod 2 ^ 64 = (x + y) mod 2 ^ 64" .
qed

lemma i64_add_i64_left [simp]: "i64 (i64 x + y) = i64 (x + y)"
  using i64_add_i64 [of y x] by (simp add: add.commute)

lemma i64_diff_i64 [simp]: "i64 (x - i64 y) = i64 (x - y)"
proof (rule i64_cong)
  have "(x - i64 y) mod 2 ^ 64 = (x - i64 y mod 2 ^ 64) mod 2 ^ 64"
    by (simp only: mod_diff_right_eq)
  also have "\<dots> = (x - y) mod 2 ^ 64"
    by (simp only: i64_mod mod_diff_right_eq)
  finally show "(x - i64 y) mod 2 ^ 64 = (x - y) mod 2 ^ 64" .
qed

section \<open>Clock values\<close>

text \<open>
  A \<open>time.Time\<close> is a number of nanoseconds. The zero \<open>time.Time{}\<close>, which the code uses
  for ``no expiration'', is \<open>None\<close>. Every reading of \<open>time.Now()\<close> is an argument of the
  operation that takes it; a loop that reads the clock in every iteration takes the whole
  sequence of readings.
\<close>

type_synonym time = int
type_synonym duration = int
type_synonym expiry = "time option"
type_synonym clock = "nat \<Rightarrow> time"

definition expired :: "time \<Rightarrow> expiry \<Rightarrow> bool" where
  "expired now x = (case x of None \<Rightarrow> False | Some t \<Rightarrow> now > t)"

definition expiry_of :: "time \<Rightarrow> duration \<Rightarrow> expiry" where
  "expiry_of now ttl = (if ttl > 0 then Some (now + ttl) else None)"

lemma expired_simps [simp]: "\<not> expired now None" "expired now (Some t) \<longleftrightarrow> t < now"
  by (simp_all add: expired_def)

lemma expired_expiry_of [simp]: "expired t (expiry_of now ttl) \<longleftrightarrow> 0 < ttl \<and> now + ttl < t"
  by (simp add: expiry_of_def)

lemma expired_mono: "expired now x \<Longrightarrow> now \<le> later \<Longrightarrow> expired later x"
  by (cases x) auto

section \<open>The doubly linked list\<close>

text \<open>
  An element of \<open>container/list\<close> is its address; a list is the sequence of its elements from
  \<open>Front\<close> to \<open>Back\<close>. What an element's \<open>Value\<close> points to lives in a heap that the
  owner of the list keeps, so that one entry can be reached from an index and from the list.
\<close>

type_synonym elem = nat

definition list_Front :: "elem list \<Rightarrow> elem option" where
  "list_Front l = (case l of [] \<Rightarrow> None | e # _ \<Rightarrow> Some e)"

definition list_Back :: "elem list \<Rightarrow> elem option" where
  "list_Back l = (if l = [] then None else Some (last l))"

definition list_PushFront :: "elem \<Rightarrow> elem list \<Rightarrow> elem list" where
  "list_PushFront e l = e # l"

definition list_Remove :: "elem \<Rightarrow> elem list \<Rightarrow> elem list" where
  "list_Remove e l = removeAll e l"

definition list_MoveToFront :: "elem \<Rightarrow> elem list \<Rightarrow> elem list" where
  "list_MoveToFront e l = (if e \<in> set l then e # removeAll e l else l)"

lemma set_list_Remove [golist_simps]: "set (list_Remove e l) = set l - {e}"
  by (simp add: list_Remove_def)

lemma set_list_MoveToFront [golist_simps]: "set (list_MoveToFront e l) = set l"
  by (auto simp: list_MoveToFront_def)

lemma distinct_list_Remove [golist_simps]: "distinct l \<Longrightarrow> distinct (list_Remove e l)"
  by (simp add: list_Remove_def distinct_removeAll)

lemma distinct_list_MoveToFront [golist_simps]: "distinct l \<Longrightarrow> distinct (list_MoveToFront e l)"
  by (simp add: list_MoveToFront_def distinct_removeAll)

lemma list_MoveToFront_front: "distinct l \<Longrightarrow> list_Front l = Some e \<Longrightarrow> list_MoveToFront e l = l"
  by (cases l) (auto simp: list_MoveToFront_def list_Front_def)

lemma list_Back_None [simp]: "list_Back l = None \<longleftrightarrow> l = []"
  by (simp add: list_Back_def)

lemma list_Back_Nil [simp]: "list_Back [] = None"
  by (simp add: list_Back_def)

lemma list_Back_Some: "list_Back l = Some e \<longleftrightarrow> l \<noteq> [] \<and> e = last l"
  by (auto simp: list_Back_def)

lemma list_Remove_last [golist_simps]: "distinct l \<Longrightarrow> l \<noteq> [] \<Longrightarrow> list_Remove (last l) l = butlast l"
  by (induction l rule: rev_induct) (auto simp: list_Remove_def)

lemma list_Remove_notin: "e \<notin> set l \<Longrightarrow> list_Remove e l = l"
  by (simp add: list_Remove_def)

section \<open>Submaps\<close>

lemma map_le_cases: "m \<subseteq>\<^sub>m m' \<Longrightarrow> m k = None \<or> m k = m' k"
  by (cases "m k") (auto simp: map_le_def dom_def)

lemma map_leI: "(\<And>k x. m k = Some x \<Longrightarrow> m' k = Some x) \<Longrightarrow> m \<subseteq>\<^sub>m m'"
  by (auto simp: map_le_def dom_def)

section \<open>Sums and prefixes\<close>

abbreviation sum_of :: "('a \<Rightarrow> int) \<Rightarrow> 'a list \<Rightarrow> int" where
  "sum_of f xs \<equiv> sum_list (map f xs)"

lemma total_removeAll: "distinct xs \<Longrightarrow> x \<in> set xs \<Longrightarrow> sum_of f (removeAll x xs) = sum_of f xs - f x"
  by (induction xs) auto

lemma total_list_Remove [golist_simps]:
  "distinct xs \<Longrightarrow> x \<in> set xs \<Longrightarrow> sum_of f (list_Remove x xs) = sum_of f xs - f x"
  by (simp add: list_Remove_def total_removeAll)

lemma total_list_MoveToFront [golist_simps]:
  "distinct xs \<Longrightarrow> sum_of f (list_MoveToFront x xs) = sum_of f xs"
  by (auto simp: list_MoveToFront_def total_removeAll)

lemma total_nonneg: "(\<And>x. x \<in> set xs \<Longrightarrow> 0 \<le> f x) \<Longrightarrow> 0 \<le> sum_of f xs"
  by (rule sum_list_nonneg) auto

lemma total_take_le: "(\<And>x. x \<in> set xs \<Longrightarrow> 0 \<le> f x) \<Longrightarrow> sum_of f (take n xs) \<le> sum_of f xs"
proof -
  assume "\<And>x. x \<in> set xs \<Longrightarrow> 0 \<le> f x"
  then have "0 \<le> sum_of f (drop n xs)" by (intro total_nonneg) (auto dest: in_set_dropD)
  then show ?thesis using sum_list_append [of "map f (take n xs)" "map f (drop n xs)"]
    by (simp flip: map_append)
qed

lemma total_butlast: "xs \<noteq> [] \<Longrightarrow> sum_of f (butlast xs) = sum_of f xs - f (last xs)"
  by (induction xs rule: rev_induct) auto

lemma total_member_le: "(\<And>y. y \<in> set xs \<Longrightarrow> 0 \<le> f y) \<Longrightarrow> x \<in> set xs \<Longrightarrow> f x \<le> sum_of f xs"
proof (induction xs)
  case (Cons a xs)
  then have "0 \<le> sum_of f xs" by (intro total_nonneg) auto
  with Cons show ?case by fastforce
qed simp

text \<open>The longest prefix whose total stays within a budget.\<close>

fun take_fit :: "int \<Rightarrow> ('a \<Rightarrow> int) \<Rightarrow> 'a list \<Rightarrow> 'a list" where
  "take_fit budget f [] = []"
| "take_fit budget f (x # xs) =
     (if f x \<le> budget then x # take_fit (budget - f x) f xs else [])"

lemma take_fit_all: "(\<And>x. x \<in> set xs \<Longrightarrow> 0 \<le> f x) \<Longrightarrow> sum_of f xs \<le> b \<Longrightarrow> take_fit b f xs = xs"
proof (induction xs arbitrary: b)
  case (Cons x xs)
  then have "0 \<le> sum_of f xs" by (intro total_nonneg) auto
  with Cons show ?case by auto
qed simp

lemma take_fit_snoc:
  "(\<And>y. y \<in> set (xs @ [x]) \<Longrightarrow> 0 \<le> f y) \<Longrightarrow> b < sum_of f (xs @ [x]) \<Longrightarrow>
   take_fit b f (xs @ [x]) = take_fit b f xs"
  by (induction xs arbitrary: b) auto

lemma take_fit_butlast:
  assumes "\<And>y. y \<in> set xs \<Longrightarrow> 0 \<le> f y" and "b < sum_of f xs" and "xs \<noteq> []"
  shows "take_fit b f (butlast xs) = take_fit b f xs"
  using assms take_fit_snoc [of "butlast xs" "last xs" f b] by simp

lemma take_fit_total: "0 \<le> b \<Longrightarrow> sum_of f (take_fit b f xs) \<le> b"
proof (induction xs arbitrary: b)
  case (Cons x xs)
  then show ?case using Cons.IH [of "b - f x"] by fastforce
qed simp

lemma take_fit_prefix: "\<exists>ys. xs = take_fit b f xs @ ys"
  by (induction xs arbitrary: b) auto

lemma take_fit_take: "\<exists>n. take_fit b f xs = take n xs"
  using take_fit_prefix [of xs b f] by (metis append_eq_conv_conj)

lemma take_fit_keeps:
  "(\<And>y. y \<in> set xs \<Longrightarrow> 0 \<le> f y) \<Longrightarrow> 0 \<le> f x \<Longrightarrow> sum_of f xs + f x \<le> b \<Longrightarrow>
   take_fit b f (xs @ x # ys) = xs @ x # take_fit (b - (sum_of f xs + f x)) f ys"
proof (induction xs arbitrary: b)
  case (Cons z zs)
  have "0 \<le> sum_of f zs" using Cons.prems(1) by (intro total_nonneg) auto
  then show ?case using Cons.IH [of "b - f z"] Cons.prems by (simp add: algebra_simps)
qed simp

lemma set_take_fit: "set (take_fit b f xs) \<subseteq> set xs"
  by (induction xs arbitrary: b) auto

end
