(* ===== verification/Byte_View.thy ===== *)
theory Byte_View
  imports Prelude
begin

text \<open>
  \<^verbatim>\<open>byteview.go\<close>: the immutable value type of the caches. Go strings and byte
  slices are sequences of bytes and both are \<open>char list\<close>, so that the conversions
  \<open>string(b)\<close> and \<open>[]byte(s)\<close> are the identity.
\<close>

type_synonym bytes = "char list"

record ByteView =
  bv_b :: bytes
  bv_notFound :: bool

definition ByteView_Len :: "ByteView \<Rightarrow> int" where
  "ByteView_Len v = int (length (bv_b v))"

definition ByteView_String :: "ByteView \<Rightarrow> string" where
  "ByteView_String v = bv_b v"

definition cloneBytes :: "bytes \<Rightarrow> bytes" where
  "cloneBytes bs = (let c = replicate (length bs) (CHR 0x00) in take (length c) bs @ drop (length bs) c)"

definition ByteView_ByteSlice :: "ByteView \<Rightarrow> bytes" where
  "ByteView_ByteSlice v = cloneBytes (bv_b v)"

definition withNotFound :: "ByteView \<Rightarrow> ByteView" where
  "withNotFound v = v\<lparr>bv_notFound := True\<rparr>"

definition isNotFound :: "ByteView \<Rightarrow> bool" where
  "isNotFound v = bv_notFound v"

text \<open>The composite literal \<open>ByteView{b: b}\<close> and the zero \<open>ByteView{}\<close>.\<close>

definition bytes_view :: "bytes \<Rightarrow> ByteView" where
  "bytes_view bs = \<lparr>bv_b = bs, bv_notFound = False\<rparr>"

definition zero_view :: ByteView where
  "zero_view = \<lparr>bv_b = [], bv_notFound = False\<rparr>"

text \<open>What a cached pair is charged: the bytes of its key and of its value.\<close>

definition item_cost :: "string \<Rightarrow> ByteView \<Rightarrow> int" where
  "item_cost k v = int (length k) + ByteView_Len v"

lemma ByteView_Len_nonneg [simp]: "0 \<le> ByteView_Len v"
  by (simp add: ByteView_Len_def)

lemma item_cost_nonneg [simp]: "0 \<le> item_cost k v"
  by (simp add: item_cost_def)

lemma cloneBytes_id [simp]: "cloneBytes bs = bs"
  by (simp add: cloneBytes_def)

lemma ByteView_ByteSlice_id [simp]: "ByteView_ByteSlice v = bv_b v"
  by (simp add: ByteView_ByteSlice_def)

lemma isNotFound_simps [simp]:
  "isNotFound (withNotFound v)" "\<not> isNotFound (bytes_view bs)" "\<not> isNotFound zero_view"
  by (simp_all add: isNotFound_def withNotFound_def bytes_view_def zero_view_def)

lemma bv_b_simps [simp]:
  "bv_b (withNotFound v) = bv_b v" "bv_b (bytes_view bs) = bs" "bv_b zero_view = []"
  by (simp_all add: withNotFound_def bytes_view_def zero_view_def)

end
