(* ===== verification/Go_Strings.thy ===== *)
theory Go_Strings
  imports Byte_View
begin

text \<open>
  What the program uses of \<^verbatim>\<open>strconv\<close> and \<^verbatim>\<open>strings\<close>: decimal parsing and printing of
  \<open>int64\<close>, trimming of white space, prefixes, substrings and splitting. Strings are byte
  sequences, as in Go. The round trip of printing and parsing is proved here once; the counters
  of the caches and of the peer protocol rest on it.
\<close>

section \<open>Decimal numbers\<close>

definition digit_char :: "nat \<Rightarrow> char" where
  "digit_char d = char_of (48 + d)"

definition digit_val :: "char \<Rightarrow> nat option" where
  "digit_val c = (let n = of_char c :: nat in if 48 \<le> n \<and> n \<le> 57 then Some (n - 48) else None)"

fun format_nat :: "nat \<Rightarrow> string" where
  "format_nat n = (if n < 10 then [digit_char n] else format_nat (n div 10) @ [digit_char (n mod 10)])"

declare format_nat.simps [simp del]

text \<open>\<open>strconv.FormatInt(n, 10)\<close>, \<open>strconv.Itoa(n)\<close> and \<open>fmt.Sprintf("%d", n)\<close>.\<close>

definition FormatInt :: "int \<Rightarrow> string" where
  "FormatInt n = (if n < 0 then CHR ''-'' # format_nat (nat (- n)) else format_nat (nat n))"

fun parse_digits :: "nat \<Rightarrow> string \<Rightarrow> nat option" where
  "parse_digits acc [] = Some acc"
| "parse_digits acc (c # cs) = (case digit_val c of None \<Rightarrow> None | Some d \<Rightarrow> parse_digits (10 * acc + d) cs)"

definition parse_uint :: "string \<Rightarrow> nat option" where
  "parse_uint s = (if s = [] then None else parse_digits 0 s)"

text \<open>
  \<open>strconv.ParseInt(s, 10, 64)\<close> and \<open>strconv.Atoi(s)\<close>: \<open>None\<close> is a non-nil error (syntax or
  range), which is all the program asks for.
\<close>

definition ParseInt :: "string \<Rightarrow> int option" where
  "ParseInt s = (case s of
     [] \<Rightarrow> None
   | c # cs \<Rightarrow>
       let neg = (c = CHR ''-'');
           digits = (if c = CHR ''+'' \<or> c = CHR ''-'' then cs else s)
       in case parse_uint digits of
            None \<Rightarrow> None
          | Some un \<Rightarrow>
              if \<not> neg \<and> 2 ^ 63 \<le> int un then None
              else if neg \<and> 2 ^ 63 < int un then None
              else Some (if neg then - int un else int un))"

section \<open>White space\<close>

text \<open>
  The UTF-8 encodings of the characters \<open>unicode.IsSpace\<close> accepts. An encoding at either end
  of a string is recognised by its bytes alone.
\<close>

definition space_encodings :: "string list" where
  "space_encodings =
     [[CHR 0x09], [CHR 0x0A], [CHR 0x0B], [CHR 0x0C], [CHR 0x0D], [CHR 0x20],
      [CHR 0xC2, CHR 0x85], [CHR 0xC2, CHR 0xA0], [CHR 0xE1, CHR 0x9A, CHR 0x80]]
     @ map (\<lambda>b. [CHR 0xE2, CHR 0x80, char_of (b :: nat)])
         [0x80, 0x81, 0x82, 0x83, 0x84, 0x85, 0x86, 0x87, 0x88, 0x89, 0x8A, 0xA8, 0xA9, 0xAF]
     @ [[CHR 0xE2, CHR 0x81, CHR 0x9F], [CHR 0xE3, CHR 0x80, CHR 0x80]]"

definition HasPrefix :: "string \<Rightarrow> string \<Rightarrow> bool" where
  "HasPrefix s p \<longleftrightarrow> length p \<le> length s \<and> take (length p) s = p"

definition TrimPrefix :: "string \<Rightarrow> string \<Rightarrow> string" where
  "TrimPrefix s p = (if HasPrefix s p then drop (length p) s else s)"

lemma prefix_shorter:
  "List.find (\<lambda>p. p \<noteq> [] \<and> HasPrefix s p) ps = Some q \<Longrightarrow> length (drop (length q) s) < length s"
  by (auto simp: find_Some_iff HasPrefix_def) (metis diff_less length_greater_0_conv order_less_le_trans)

function trim_front :: "string list \<Rightarrow> string \<Rightarrow> string" where
  "trim_front ps s = (case List.find (\<lambda>p. p \<noteq> [] \<and> HasPrefix s p) ps of
     None \<Rightarrow> s
   | Some p \<Rightarrow> trim_front ps (drop (length p) s))"
  by pat_completeness auto
termination
  using prefix_shorter by (relation "measure (\<lambda>(_, s). length s)") auto

declare trim_front.simps [simp del]

definition TrimSpace :: "string \<Rightarrow> string" where
  "TrimSpace s =
     (let s = trim_front space_encodings s
      in rev (trim_front (map rev space_encodings) (rev s)))"

section \<open>Substrings and splitting\<close>

fun Contains :: "string \<Rightarrow> string \<Rightarrow> bool" where
  "Contains [] p \<longleftrightarrow> p = []"
| "Contains (c # cs) p \<longleftrightarrow> HasPrefix (c # cs) p \<or> Contains cs p"

text \<open>\<open>strings.Split(s, sep)\<close> for a separator of one byte.\<close>

fun Split :: "string \<Rightarrow> char \<Rightarrow> string list" where
  "Split [] sep = [[]]"
| "Split (c # cs) sep =
     (if c = sep then [] # Split cs sep
      else case Split cs sep of [] \<Rightarrow> [[c]] | p # ps \<Rightarrow> (c # p) # ps)"

section \<open>Printing and parsing\<close>

lemma of_char_digit: "d < 10 \<Longrightarrow> of_char (digit_char d) = (48 + d :: nat)"
  by (simp add: digit_char_def of_char_of)

lemma digit_val_char [simp]: "d < 10 \<Longrightarrow> digit_val (digit_char d) = Some d"
  by (simp add: digit_val_def of_char_digit)

lemma digit_val_Some: "digit_val c = Some d \<longleftrightarrow> d < 10 \<and> c = digit_char d"
proof -
  have "c = digit_char (of_char c - 48)" if "48 \<le> (of_char c :: nat)"
    using that by (simp add: digit_char_def)
  then show ?thesis
    by (auto simp: digit_val_def of_char_digit split: if_splits)
qed

lemma parse_digits_append:
  "parse_digits acc (xs @ ys) = Option.bind (parse_digits acc xs) (\<lambda>a. parse_digits a ys)"
  by (induction acc xs rule: parse_digits.induct) (auto split: option.splits)

lemma parse_digits_format [simp]: "parse_digits 0 (format_nat n) = Some n"
proof (induction n rule: format_nat.induct)
  case (1 n)
  show ?case
  proof (cases "n < 10")
    case False
    then show ?thesis using 1 by (subst format_nat.simps) (simp add: parse_digits_append)
  qed (subst format_nat.simps, simp)
qed

lemma format_nat_digits: "set (format_nat n) \<subseteq> digit_char ` {..<10}"
proof (induction n rule: format_nat.induct)
  case (1 n)
  then show ?case by (subst format_nat.simps) auto
qed

lemma format_nat_nonempty [simp]: "format_nat n \<noteq> []"
  by (subst format_nat.simps) simp

lemma digit_char_inj: "d < 10 \<Longrightarrow> digit_char d = c \<Longrightarrow> 48 \<le> (of_char c :: nat) \<and> (of_char c :: nat) \<le> 57"
  by (auto simp: of_char_digit)

lemma format_nat_head: "hd (format_nat n) \<in> digit_char ` {..<10}"
  using format_nat_digits [of n] by (metis format_nat_nonempty hd_in_set subsetD)

lemma format_nat_not_sign: "format_nat n = c # cs \<Longrightarrow> c \<noteq> CHR ''-'' \<and> c \<noteq> CHR ''+''"
  using format_nat_head [of n] digit_char_inj [of _ c] by force

theorem ParseInt_FormatInt: "in_i64 n \<Longrightarrow> ParseInt (FormatInt n) = Some n"
proof -
  assume n: "in_i64 n"
  show ?thesis
  proof (cases "n < 0")
    case True
    then show ?thesis using n by (auto simp: FormatInt_def ParseInt_def parse_uint_def in_i64_def)
  next
    case False
    then obtain c cs where cs: "format_nat (nat n) = c # cs" by (metis format_nat_nonempty list.exhaust)
    have "parse_digits 0 (c # cs) = Some (nat n)" using parse_digits_format [of "nat n"] by (simp only: cs)
    then show ?thesis
      using False n format_nat_not_sign [OF cs]
      by (auto simp: FormatInt_def ParseInt_def parse_uint_def cs in_i64_def simp del: parse_digits.simps)
  qed
qed

lemma trim_front_id:
  assumes "s = c # cs" and "\<And>p. p \<in> set ps \<Longrightarrow> p = [] \<or> hd p \<noteq> c"
  shows "trim_front ps s = s"
proof -
  have "List.find (\<lambda>p. p \<noteq> [] \<and> HasPrefix s p) ps = None"
    using assms by (fastforce simp: find_None_iff HasPrefix_def take_Cons' neq_Nil_conv)
  then show ?thesis by (simp add: trim_front.simps)
qed

definition printable :: "char \<Rightarrow> bool" where
  "printable c \<longleftrightarrow> 33 \<le> (of_char c :: nat) \<and> (of_char c :: nat) \<le> 126"

lemma space_encodings_ends:
  "p \<in> set space_encodings \<Longrightarrow> p \<noteq> [] \<and> \<not> printable (hd p) \<and> \<not> printable (last p)"
  by (auto simp: space_encodings_def printable_def of_char_of)

lemma TrimSpace_id:
  assumes "s \<noteq> []" and "printable (hd s)" and "printable (last s)"
  shows "TrimSpace s = s"
proof -
  have "trim_front space_encodings s = s"
    using assms by (intro trim_front_id [of s "hd s" "tl s"]) (auto dest: space_encodings_ends)
  moreover have "trim_front (map rev space_encodings) (rev s) = rev s"
    using assms
    by (intro trim_front_id [of "rev s" "last s" "rev (butlast s)"])
      (auto simp: hd_rev rev_eq_Cons_iff dest: space_encodings_ends)
  ultimately show ?thesis by (simp add: TrimSpace_def)
qed

lemma TrimSpace_Nil [simp]: "TrimSpace [] = []"
proof -
  have "trim_front ps [] = []" for ps
    by (subst trim_front.simps) (auto simp: HasPrefix_def find_Some_iff split: option.splits)
  then show ?thesis by (simp add: TrimSpace_def)
qed

lemma printable_digit: "c \<in> digit_char ` {..<10} \<Longrightarrow> printable c"
  by (auto simp: printable_def of_char_digit)

lemma TrimSpace_FormatInt [simp]: "TrimSpace (FormatInt n) = FormatInt n"
proof -
  have last: "printable (last (format_nat m))" for m
    using format_nat_digits [of m] by (meson format_nat_nonempty last_in_set printable_digit subsetD)
  show ?thesis
    by (rule TrimSpace_id)
      (auto simp: FormatInt_def last printable_digit [OF format_nat_head], simp add: printable_def)
qed

lemma FormatInt_nonempty [simp]: "FormatInt n \<noteq> []"
  by (simp add: FormatInt_def)

lemma format_nat_length: "n < 10 ^ Suc d \<Longrightarrow> length (format_nat n) \<le> Suc d"
proof (induction d arbitrary: n)
  case (Suc d)
  show ?case
  proof (cases "n < 10")
    case False
    have "n div 10 < 10 ^ Suc d" using Suc.prems by (simp add: less_mult_imp_div_less mult.commute)
    then show ?thesis using Suc.IH False by (subst format_nat.simps) simp
  qed (subst format_nat.simps, simp)
qed (subst format_nat.simps, simp)

lemma FormatInt_length: "in_i64 n \<Longrightarrow> length (FormatInt n) \<le> 20"
proof -
  assume n: "in_i64 n"
  have "nat \<bar>n\<bar> < 10 ^ Suc 18" using n by (auto simp: in_i64_def abs_if)
  then have "length (format_nat (nat \<bar>n\<bar>)) \<le> 19" using format_nat_length [of "nat \<bar>n\<bar>" 18] by simp
  then show ?thesis by (auto simp: FormatInt_def abs_if)
qed

lemma parse_int_in_i64: "ParseInt s = Some n \<Longrightarrow> in_i64 n"
  by (auto simp: ParseInt_def in_i64_def split: list.splits option.splits if_splits)

end
