(* ===== verification/Go_Error.thy ===== *)
theory Go_Error
  imports Go_Strings
begin

text \<open>
  Errors as values. The sentinel errors of \<^verbatim>\<open>groupcache_config.go\<close> and of
  \<^verbatim>\<open>context\<close> are constructors, so that identity is equality; \<open>Errorf\<close> is an error that
  carries only a message (\<open>fmt.Errorf\<close> without \<open>%w\<close>, \<open>errors.New\<close> of other packages) and
  \<open>Wrapped\<close> one made with \<open>%w\<close>, with its message and the error inside.
\<close>

datatype go_error =
  ErrFilterNotFound
| ErrNotFound
| ErrNonNumericValue
| ErrIncrementUnsupported
| ErrSingleflightWaitTimeout
| ContextCanceled
| ContextDeadlineExceeded
| Errorf string
| Wrapped string go_error

type_synonym 'a result = "go_error + 'a"

primrec Error :: "go_error \<Rightarrow> string" where
  "Error ErrFilterNotFound = ''key not found in filter''"
| "Error ErrNotFound = ''key not found''"
| "Error ErrNonNumericValue = ''cache value is not numeric''"
| "Error ErrIncrementUnsupported = ''peer does not support increment''"
| "Error ErrSingleflightWaitTimeout = ''singleflight wait timeout''"
| "Error ContextCanceled = ''context canceled''"
| "Error ContextDeadlineExceeded = ''context deadline exceeded''"
| "Error (Errorf msg) = msg"
| "Error (Wrapped msg e) = msg"

text \<open>\<open>errors.Is(err, target)\<close> for a sentinel \<open>target\<close>.\<close>

primrec errors_Is :: "go_error \<Rightarrow> go_error \<Rightarrow> bool" where
  "errors_Is ErrFilterNotFound target \<longleftrightarrow> target = ErrFilterNotFound"
| "errors_Is ErrNotFound target \<longleftrightarrow> target = ErrNotFound"
| "errors_Is ErrNonNumericValue target \<longleftrightarrow> target = ErrNonNumericValue"
| "errors_Is ErrIncrementUnsupported target \<longleftrightarrow> target = ErrIncrementUnsupported"
| "errors_Is ErrSingleflightWaitTimeout target \<longleftrightarrow> target = ErrSingleflightWaitTimeout"
| "errors_Is ContextCanceled target \<longleftrightarrow> target = ContextCanceled"
| "errors_Is ContextDeadlineExceeded target \<longleftrightarrow> target = ContextDeadlineExceeded"
| "errors_Is (Errorf msg) target \<longleftrightarrow> target = Errorf msg"
| "errors_Is (Wrapped msg e) target \<longleftrightarrow> target = Wrapped msg e \<or> errors_Is e target"

end
