(* ===== verification/Single_Flight.thy ===== *)
theory Single_Flight
  imports Go_Error
begin

text \<open>
  \<^verbatim>\<open>internal/singleflight/singleflight.go\<close> as a transition system. A state holds the map of
  calls in flight, every call that was ever made, every channel that \<open>DoChan\<close> returned and every
  caller of \<open>Do\<close>. A call is led by one goroutine, the one that created it (in \<open>Do\<close> the caller
  itself, in \<open>DoChan\<close> a new one); where that goroutine stands is the call's phase. The events
  are the atomic steps between which goroutines interleave: a critical section under the mutex,
  the return or panic of the function, and each step of \<open>completeCall\<close>.
\<close>

section \<open>Model\<close>

record 'v sfResult =
  res_Val :: "'v option"
  res_Err :: "go_error option"

datatype 'v phase =
  Running
| Publishing "'v sfResult"
| Unlinking "'v sfResult"
| Sending "'v sfResult" "nat list"
| Ended
| Crashed string

text \<open>\<open>k_done\<close>: the wait group has been released. \<open>k_async\<close>: the leader runs \<open>safeCall\<close>.\<close>

record 'v sfCall =
  k_key :: string
  k_async :: bool
  k_phase :: "'v phase"
  k_done :: bool
  k_res :: "'v sfResult"
  k_chs :: "nat list"

text \<open>A channel of capacity one.\<close>

record 'v chan =
  ch_buf :: "'v sfResult option"
  ch_closed :: bool

datatype 'v caller = Waiting nat | Got nat "'v sfResult"

record 'v sfGroup =
  g_m :: "string \<rightharpoonup> nat"
  g_calls :: "'v sfCall list"
  g_chans :: "'v chan list"
  g_callers :: "'v caller list"

definition sf_empty :: "'v sfGroup" where
  "sf_empty = \<lparr>g_m = Map.empty, g_calls = [], g_chans = [], g_callers = []\<rparr>"

definition nil_result :: "'v sfResult" where
  "nil_result = \<lparr>res_Val = None, res_Err = None\<rparr>"

definition new_call :: "string \<Rightarrow> bool \<Rightarrow> nat list \<Rightarrow> 'v sfCall" where
  "new_call key async chs =
     \<lparr>k_key = key, k_async = async, k_phase = Running, k_done = False, k_res = nil_result, k_chs = chs\<rparr>"

definition new_chan :: "'v chan" where
  "new_chan = \<lparr>ch_buf = None, ch_closed = False\<rparr>"

definition set_call :: "nat \<Rightarrow> 'v sfCall \<Rightarrow> 'v sfGroup \<Rightarrow> 'v sfGroup" where
  "set_call c x g = g\<lparr>g_calls := (g_calls g)[c := x]\<rparr>"

definition enter_phase :: "nat \<Rightarrow> 'v phase \<Rightarrow> 'v sfGroup \<Rightarrow> 'v sfGroup" where
  "enter_phase c p g = set_call c ((g_calls g ! c)\<lparr>k_phase := p\<rparr>) g"

text \<open>The critical section at the start of \<open>Do\<close>: join the call in flight or lead a new one.\<close>

definition Do_enter :: "string \<Rightarrow> 'v sfGroup \<Rightarrow> 'v sfGroup" where
  "Do_enter key g = (case g_m g key of
     Some c \<Rightarrow> g\<lparr>g_callers := g_callers g @ [Waiting c]\<rparr>
   | None \<Rightarrow>
       let c = length (g_calls g)
       in g\<lparr>g_calls := g_calls g @ [new_call key False []], g_m := (g_m g)(key \<mapsto> c)\<rparr>)"

definition DoChan_enter :: "string \<Rightarrow> 'v sfGroup \<Rightarrow> 'v sfGroup" where
  "DoChan_enter key g =
     (let ch = length (g_chans g);
          g = g\<lparr>g_chans := g_chans g @ [new_chan]\<rparr>
      in case g_m g key of
           Some c \<Rightarrow> set_call c ((g_calls g ! c)\<lparr>k_chs := k_chs (g_calls g ! c) @ [ch]\<rparr>) g
         | None \<Rightarrow>
             let c = length (g_calls g)
             in g\<lparr>g_calls := g_calls g @ [new_call key True [ch]], g_m := (g_m g)(key \<mapsto> c)\<rparr>)"

text \<open>What \<open>safeCall\<close> makes of a panic.\<close>

definition safeCall_recover :: "string \<Rightarrow> 'v sfResult" where
  "safeCall_recover msg = \<lparr>res_Val = None, res_Err = Some (Errorf (''singleflight panic: '' @ msg))\<rparr>"

text \<open>The function of call \<open>c\<close> panics: \<open>Do\<close> does not recover, the goroutine of \<open>DoChan\<close> does.\<close>

definition fn_panics :: "nat \<Rightarrow> string \<Rightarrow> 'v sfGroup \<Rightarrow> 'v sfGroup" where
  "fn_panics c msg g =
     (if k_async (g_calls g ! c) then enter_phase c (Publishing (safeCall_recover msg)) g
      else enter_phase c (Crashed msg) g)"

text \<open>\<open>completeCall\<close>: publish the result, unlink the call, send to its channels.\<close>

definition complete_publish :: "nat \<Rightarrow> 'v sfResult \<Rightarrow> 'v sfGroup \<Rightarrow> 'v sfGroup" where
  "complete_publish c r g =
     set_call c ((g_calls g ! c)\<lparr>k_res := r, k_done := True, k_phase := Unlinking r\<rparr>) g"

definition complete_unlink :: "nat \<Rightarrow> 'v sfResult \<Rightarrow> 'v sfGroup \<Rightarrow> 'v sfGroup" where
  "complete_unlink c r g =
     (let key = k_key (g_calls g ! c);
          g = g\<lparr>g_m := (g_m g)(key := None)\<rparr>
      in enter_phase c (Sending r (k_chs (g_calls g ! c))) g)"

text \<open>
  A send blocks while the buffer is full and panics on a closed channel; \<open>sf_step\<close> below lets it
  happen only on an open, empty channel, and \<open>leader_enabled\<close> shows that it never meets another.
\<close>

definition complete_send :: "nat \<Rightarrow> 'v sfResult \<Rightarrow> nat \<Rightarrow> nat list \<Rightarrow> 'v sfGroup \<Rightarrow> 'v sfGroup" where
  "complete_send c r ch rest g =
     enter_phase c (Sending r rest) (g\<lparr>g_chans := (g_chans g)[ch := \<lparr>ch_buf = Some r, ch_closed = True\<rparr>]\<rparr>)"

text \<open>The leader is done; in \<open>Do\<close> it returns the stored result to its caller.\<close>

definition complete_end :: "nat \<Rightarrow> 'v sfGroup \<Rightarrow> 'v sfGroup" where
  "complete_end c g =
     (let g' = enter_phase c Ended g
      in if k_async (g_calls g ! c) then g'
         else g'\<lparr>g_callers := g_callers g' @ [Got c (k_res (g_calls g ! c))]\<rparr>)"

datatype 'v sfEvent =
  EvDo string
| EvDoChan string
| EvReturns nat "'v sfResult"
| EvPanics nat string
| EvLeader nat
| EvWake nat

text \<open>One step of the leader of call \<open>c\<close> after the function has returned.\<close>

definition leader_step :: "nat \<Rightarrow> 'v sfGroup \<Rightarrow> 'v sfGroup option" where
  "leader_step c g = (case k_phase (g_calls g ! c) of
     Publishing r \<Rightarrow> Some (complete_publish c r g)
   | Unlinking r \<Rightarrow> Some (complete_unlink c r g)
   | Sending r [] \<Rightarrow> Some (complete_end c g)
   | Sending r (ch # rest) \<Rightarrow>
       if ch_buf (g_chans g ! ch) = None \<and> \<not> ch_closed (g_chans g ! ch)
       then Some (complete_send c r ch rest g) else None
   | _ \<Rightarrow> None)"

primrec sf_step :: "'v sfEvent \<Rightarrow> 'v sfGroup \<Rightarrow> 'v sfGroup option" where
  "sf_step (EvDo key) g = Some (Do_enter key g)"
| "sf_step (EvDoChan key) g = Some (DoChan_enter key g)"
| "sf_step (EvReturns c r) g =
     (if c < length (g_calls g) \<and> k_phase (g_calls g ! c) = Running
      then Some (enter_phase c (Publishing r) g) else None)"
| "sf_step (EvPanics c msg) g =
     (if c < length (g_calls g) \<and> k_phase (g_calls g ! c) = Running then Some (fn_panics c msg g) else None)"
| "sf_step (EvLeader c) g = (if c < length (g_calls g) then leader_step c g else None)"
| "sf_step (EvWake w) g =
     (if w < length (g_callers g) then
        (case g_callers g ! w of
           Waiting c \<Rightarrow>
             if k_done (g_calls g ! c)
             then Some (g\<lparr>g_callers := (g_callers g)[w := Got c (k_res (g_calls g ! c))]\<rparr>) else None
         | Got c r \<Rightarrow> None)
      else None)"

inductive sf_steps :: "'v sfGroup \<Rightarrow> 'v sfGroup \<Rightarrow> bool" for g where
  sf_refl: "sf_steps g g"
| sf_next: "sf_steps g g' \<Longrightarrow> sf_step e g' = Some g'' \<Longrightarrow> sf_steps g g''"

section \<open>Invariant\<close>

primrec linked :: "'v phase \<Rightarrow> bool" where
  "linked Running = True"
| "linked (Publishing r) = True"
| "linked (Unlinking r) = True"
| "linked (Sending r chs) = False"
| "linked Ended = False"
| "linked (Crashed msg) = True"

text \<open>The channels that have received their result.\<close>

definition delivered :: "'v sfCall \<Rightarrow> nat list" where
  "delivered x = (case k_phase x of
     Sending r rest \<Rightarrow> take (length (k_chs x) - length rest) (k_chs x)
   | Ended \<Rightarrow> k_chs x
   | _ \<Rightarrow> [])"

definition call_ok :: "'v sfCall \<Rightarrow> bool" where
  "call_ok x \<longleftrightarrow> (case k_phase x of
     Running \<Rightarrow> \<not> k_done x
   | Publishing r \<Rightarrow> \<not> k_done x
   | Crashed msg \<Rightarrow> \<not> k_done x
   | Unlinking r \<Rightarrow> k_done x \<and> k_res x = r
   | Sending r rest \<Rightarrow> k_done x \<and> k_res x = r \<and> (\<exists>pre. k_chs x = pre @ rest)
   | Ended \<Rightarrow> k_done x)"

definition full_chan :: "'v sfResult \<Rightarrow> 'v chan" where
  "full_chan r = \<lparr>ch_buf = Some r, ch_closed = True\<rparr>"

definition chan_state :: "'v sfCall \<Rightarrow> nat \<Rightarrow> 'v chan" where
  "chan_state x ch = (if ch \<in> set (delivered x) then full_chan (k_res x) else new_chan)"

definition chans_ok :: "'v sfGroup \<Rightarrow> bool" where
  "chans_ok g \<longleftrightarrow>
     (\<forall>ch < length (g_chans g). \<exists>c < length (g_calls g). ch \<in> set (k_chs (g_calls g ! c)))
     \<and> (\<forall>c < length (g_calls g). distinct (k_chs (g_calls g ! c))
        \<and> (\<forall>ch \<in> set (k_chs (g_calls g ! c)). ch < length (g_chans g)
           \<and> (\<forall>c' < length (g_calls g). ch \<in> set (k_chs (g_calls g ! c')) \<longrightarrow> c' = c)
           \<and> g_chans g ! ch = chan_state (g_calls g ! c) ch))"

primrec caller_ok :: "'v sfCall list \<Rightarrow> 'v caller \<Rightarrow> bool" where
  "caller_ok xs (Waiting c) = (c < length xs)"
| "caller_ok xs (Got c r) = (c < length xs \<and> k_done (xs ! c) \<and> k_res (xs ! c) = r)"

definition map_ok :: "'v sfGroup \<Rightarrow> bool" where
  "map_ok g \<longleftrightarrow> (\<forall>k c. g_m g k = Some c \<longleftrightarrow>
     c < length (g_calls g) \<and> k_key (g_calls g ! c) = k \<and> linked (k_phase (g_calls g ! c)))"

definition sf_inv :: "'v sfGroup \<Rightarrow> bool" where
  "sf_inv g \<longleftrightarrow> map_ok g \<and> (\<forall>x \<in> set (g_calls g). call_ok x) \<and> chans_ok g
     \<and> (\<forall>w \<in> set (g_callers g). caller_ok (g_calls g) w)"

section \<open>Every step preserves the invariant\<close>

text \<open>A step of the leader that neither links nor unlinks the call and delivers nothing.\<close>

definition quiet :: "'v sfCall \<Rightarrow> 'v sfCall \<Rightarrow> bool" where
  "quiet x y \<longleftrightarrow> k_key y = k_key x \<and> k_chs y = k_chs x \<and> linked (k_phase y) = linked (k_phase x)
     \<and> set (delivered y) = set (delivered x) \<and> (delivered x \<noteq> [] \<longrightarrow> k_res y = k_res x)
     \<and> (k_done x \<longrightarrow> k_done y \<and> k_res y = k_res x)"

lemma caller_ok_update:
  "caller_ok xs w \<Longrightarrow> (k_done (xs ! c) \<longrightarrow> k_done y \<and> k_res y = k_res (xs ! c)) \<Longrightarrow> caller_ok (xs[c := y]) w"
  by (cases w; cases "c < length xs") (auto simp: nth_list_update)

lemma caller_ok_append: "caller_ok xs w \<Longrightarrow> caller_ok (xs @ [y]) w"
  by (cases w) (auto simp: nth_append)

lemma set_call_quiet:
  assumes "sf_inv g" and "c < length (g_calls g)" and "quiet (g_calls g ! c) y" and "call_ok y"
  shows "sf_inv (set_call c y g)"
proof -
  have "map_ok (set_call c y g)"
    using assms by (simp add: sf_inv_def map_ok_def set_call_def quiet_def nth_list_update)
  moreover have "\<forall>x \<in> set (g_calls (set_call c y g)). call_ok x"
    using assms by (auto simp: sf_inv_def set_call_def dest!: set_update_subset_insert [THEN subsetD])
  moreover have "chans_ok (set_call c y g)"
  proof -
    have ch: "k_chs ((g_calls g)[c := y] ! c') = k_chs (g_calls g ! c')" for c'
      using assms(2,3) by (cases "c' = c") (simp_all add: quiet_def)
    have st: "chan_state ((g_calls g)[c := y] ! c') = chan_state (g_calls g ! c')" for c'
      using assms(2,3) by (cases "c' = c") (auto simp: quiet_def chan_state_def fun_eq_iff)
    show ?thesis using assms(1) by (simp add: sf_inv_def chans_ok_def set_call_def ch st)
  qed
  moreover have "\<forall>w \<in> set (g_callers (set_call c y g)). caller_ok (g_calls (set_call c y g)) w"
    using assms by (auto simp: sf_inv_def set_call_def quiet_def intro!: caller_ok_update)
  ultimately show ?thesis by (simp add: sf_inv_def)
qed

lemma sf_inv_call_ok: "sf_inv g \<Longrightarrow> c < length (g_calls g) \<Longrightarrow> call_ok (g_calls g ! c)"
  by (simp add: sf_inv_def)

lemma step_returns_inv:
  assumes "sf_inv g" and "c < length (g_calls g)" and "k_phase (g_calls g ! c) = Running"
  shows "sf_inv (enter_phase c (Publishing r) g)" and "sf_inv (fn_panics c msg g)"
  using assms sf_inv_call_ok [OF assms(1,2)]
  by (auto simp: enter_phase_def fn_panics_def quiet_def call_ok_def delivered_def intro!: set_call_quiet)

lemma step_publish_inv:
  assumes "sf_inv g" and "c < length (g_calls g)" and "k_phase (g_calls g ! c) = Publishing r"
  shows "sf_inv (complete_publish c r g)"
  using assms sf_inv_call_ok [OF assms(1,2)]
  by (auto simp: complete_publish_def quiet_def call_ok_def delivered_def intro!: set_call_quiet)

lemma step_end_inv:
  assumes "sf_inv g" and "c < length (g_calls g)" and "k_phase (g_calls g ! c) = Sending r []"
  shows "sf_inv (complete_end c g)"
proof -
  let ?g = "enter_phase c Ended g"
  have inv: "sf_inv ?g"
    using assms sf_inv_call_ok [OF assms(1,2)]
    by (auto simp: enter_phase_def quiet_def call_ok_def delivered_def intro!: set_call_quiet)
  have "k_done (g_calls g ! c)" using assms sf_inv_call_ok [OF assms(1,2)] by (simp add: call_ok_def)
  then have "caller_ok (g_calls ?g) (Got c (k_res (g_calls g ! c)))"
    using assms(2) by (simp add: enter_phase_def set_call_def)
  then show ?thesis using inv by (simp add: complete_end_def sf_inv_def map_ok_def chans_ok_def)
qed

lemma step_unlink_inv:
  assumes "sf_inv g" and "c < length (g_calls g)" and "k_phase (g_calls g ! c) = Unlinking r"
  shows "sf_inv (complete_unlink c r g)"
proof -
  let ?x = "g_calls g ! c"
  let ?y = "?x\<lparr>k_phase := Sending r (k_chs ?x)\<rparr>"
  have g': "complete_unlink c r g = (set_call c ?y g)\<lparr>g_m := (g_m g)(k_key ?x := None)\<rparr>"
    by (simp add: complete_unlink_def enter_phase_def set_call_def)
  have m: "g_m g (k_key ?x) = Some c" using assms by (simp add: sf_inv_def map_ok_def)
  have "map_ok (complete_unlink c r g)"
    unfolding map_ok_def
  proof (intro allI)
    fix k d
    have old: "g_m g k = Some d \<longleftrightarrow> d < length (g_calls g) \<and> k_key (g_calls g ! d) = k \<and> linked (k_phase (g_calls g ! d))"
      using assms(1) by (simp add: sf_inv_def map_ok_def)
    show "g_m (complete_unlink c r g) k = Some d \<longleftrightarrow> d < length (g_calls (complete_unlink c r g))
      \<and> k_key (g_calls (complete_unlink c r g) ! d) = k \<and> linked (k_phase (g_calls (complete_unlink c r g) ! d))"
      using m old assms(2) by (auto simp: g' set_call_def nth_list_update)
  qed
  moreover have "\<forall>x \<in> set (g_calls (complete_unlink c r g)). call_ok x"
    using assms sf_inv_call_ok [OF assms(1,2)]
    by (auto simp: g' sf_inv_def set_call_def call_ok_def dest!: set_update_subset_insert [THEN subsetD])
  moreover have "chans_ok (complete_unlink c r g)"
  proof -
    have ch: "k_chs ((g_calls g)[c := ?y] ! c') = k_chs (g_calls g ! c')" for c'
      using assms(2) by (cases "c' = c") simp_all
    have st: "chan_state ((g_calls g)[c := ?y] ! c') = chan_state (g_calls g ! c')" for c'
      using assms(2,3) by (cases "c' = c") (auto simp: chan_state_def delivered_def fun_eq_iff)
    show ?thesis using assms(1) by (simp add: sf_inv_def chans_ok_def g' set_call_def ch st)
  qed
  moreover have "\<forall>w \<in> set (g_callers (complete_unlink c r g)). caller_ok (g_calls (complete_unlink c r g)) w"
    using assms by (auto simp: g' sf_inv_def set_call_def intro!: caller_ok_update)
  ultimately show ?thesis by (simp add: sf_inv_def)
qed

lemma chansD:
  assumes "sf_inv g" and "c < length (g_calls g)"
  shows "distinct (k_chs (g_calls g ! c))"
    and "ch \<in> set (k_chs (g_calls g ! c)) \<Longrightarrow> ch < length (g_chans g)"
    and "ch \<in> set (k_chs (g_calls g ! c)) \<Longrightarrow> g_chans g ! ch = chan_state (g_calls g ! c) ch"
    and "ch \<in> set (k_chs (g_calls g ! c)) \<Longrightarrow> c' < length (g_calls g) \<Longrightarrow> ch \<in> set (k_chs (g_calls g ! c')) \<Longrightarrow> c' = c"
  using assms unfolding sf_inv_def chans_ok_def by blast+

lemma chan_owner: "sf_inv g \<Longrightarrow> ch < length (g_chans g) \<Longrightarrow> \<exists>c < length (g_calls g). ch \<in> set (k_chs (g_calls g ! c))"
  unfolding sf_inv_def chans_ok_def by blast

lemma sending_split:
  assumes "sf_inv g" and "c < length (g_calls g)" and "k_phase (g_calls g ! c) = Sending r (ch # rest)"
  obtains pre where "k_chs (g_calls g ! c) = pre @ ch # rest" and "delivered (g_calls g ! c) = pre"
    and "ch \<notin> set pre" and "k_res (g_calls g ! c) = r" and "g_chans g ! ch = new_chan" and "ch < length (g_chans g)"
proof -
  let ?x = "g_calls g ! c"
  obtain pre where pre: "k_chs ?x = pre @ ch # rest" "k_res ?x = r"
    using assms sf_inv_call_ok [OF assms(1,2)] by (auto simp: call_ok_def)
  have ch: "distinct (k_chs ?x)" "ch < length (g_chans g)" "g_chans g ! ch = chan_state ?x ch"
    using chansD(1) [OF assms(1,2)] chansD(2,3) [OF assms(1,2), of ch] pre(1) by simp_all
  have del: "delivered ?x = pre" using assms(3) pre(1) by (simp add: delivered_def)
  have new: "ch \<notin> set pre" using ch(1) pre(1) by simp
  show ?thesis by (rule that [OF pre(1) del new pre(2) _ ch(2)]) (simp add: ch(3) chan_state_def del new)
qed

lemma step_send_inv:
  assumes "sf_inv g" and "c < length (g_calls g)" and "k_phase (g_calls g ! c) = Sending r (ch # rest)"
  shows "sf_inv (complete_send c r ch rest g)"
proof -
  let ?x = "g_calls g ! c"
  let ?y = "?x\<lparr>k_phase := Sending r rest\<rparr>"
  let ?g = "complete_send c r ch rest g"
  obtain pre where pre: "k_chs ?x = pre @ ch # rest" "delivered ?x = pre" "ch \<notin> set pre" "k_res ?x = r"
    "ch < length (g_chans g)"
    using sending_split [OF assms] by metis
  have g': "g_m ?g = g_m g" "g_callers ?g = g_callers g" "g_calls ?g = (g_calls g)[c := ?y]"
    "g_chans ?g = (g_chans g)[ch := full_chan r]"
    by (simp_all add: complete_send_def enter_phase_def set_call_def full_chan_def)
  have "map_ok ?g"
    using assms by (auto simp: sf_inv_def map_ok_def g' nth_list_update)
  moreover have "\<forall>x \<in> set (g_calls ?g). call_ok x"
    using assms sf_inv_call_ok [OF assms(1,2)] pre
    by (auto simp: g' sf_inv_def call_ok_def dest!: set_update_subset_insert [THEN subsetD])
  moreover have "chans_ok ?g"
  proof -
    have I: "chans_ok g" using assms(1) by (simp add: sf_inv_def)
    have chs: "k_chs ((g_calls g)[c := ?y] ! c') = k_chs (g_calls g ! c')" for c'
      using assms(2) by (cases "c' = c") simp_all
    have del: "delivered ?y = pre @ [ch]" using pre(1) by (simp add: delivered_def)
    have "(g_chans g)[ch := full_chan r] ! h = chan_state ((g_calls g)[c := ?y] ! c') h"
      if c': "c' < length (g_calls g)" and h: "h \<in> set (k_chs (g_calls g ! c'))" for c' h
    proof (cases "c' = c")
      case True
      have old: "g_chans g ! h = chan_state ?x h" using chansD(3) [OF assms(1) c' h] True by simp
      show ?thesis
      proof (cases "h = ch")
        case True
        then show ?thesis using \<open>c' = c\<close> assms(2) pre by (simp add: chan_state_def del)
      next
        case False
        then show ?thesis using \<open>c' = c\<close> assms(2) pre old by (simp add: chan_state_def del)
      qed
    next
      case False
      then have "h \<noteq> ch" using chansD(4) [OF assms(1) c' h assms(2)] pre(1) by auto
      then show ?thesis using False chansD(3) [OF assms(1) c' h] by simp
    qed
    then show ?thesis using I by (simp add: chans_ok_def g' chs)
  qed
  moreover have "\<forall>w \<in> set (g_callers ?g). caller_ok (g_calls ?g) w"
    using assms by (auto simp: g' sf_inv_def intro!: caller_ok_update)
  ultimately show ?thesis by (simp add: sf_inv_def)
qed

lemma map_ok_new:
  assumes "map_ok g" and "g_m g (k_key x) = None" and "linked (k_phase x)"
    and "g_calls g' = g_calls g @ [x]" and "g_m g' = (g_m g)(k_key x \<mapsto> length (g_calls g))"
  shows "map_ok g'"
proof -
  have "\<not> (k_key (g_calls g ! c) = k_key x \<and> linked (k_phase (g_calls g ! c)))" if "c < length (g_calls g)" for c
    using assms(1,2) that unfolding map_ok_def by (metis option.distinct(1))
  then show ?thesis
    using assms(1,3) unfolding map_ok_def assms(4,5) by (auto simp: nth_append less_Suc_eq)
qed

lemma Do_enter_inv:
  assumes "sf_inv g"
  shows "sf_inv (Do_enter key g)"
proof (cases "g_m g key")
  case (Some c)
  then have g': "Do_enter key g = g\<lparr>g_callers := g_callers g @ [Waiting c]\<rparr>" by (simp add: Do_enter_def)
  have "c < length (g_calls g)" using Some assms by (simp add: sf_inv_def map_ok_def)
  then show ?thesis using assms by (simp add: g' sf_inv_def map_ok_def chans_ok_def)
next
  case None
  let ?n = "length (g_calls g)"
  let ?g = "Do_enter key g"
  have g': "g_calls ?g = g_calls g @ [new_call key False []]" "g_m ?g = (g_m g)(key \<mapsto> ?n)"
    "g_chans ?g = g_chans g" "g_callers ?g = g_callers g"
    using None by (simp_all add: Do_enter_def)
  have "map_ok ?g"
    using assms None by (intro map_ok_new [OF _ _ _ g'(1)]) (simp_all add: sf_inv_def g'(2) new_call_def)
  moreover have "chans_ok ?g"
    using assms by (auto simp: sf_inv_def chans_ok_def g' nth_append new_call_def less_Suc_eq)
  moreover have "call_ok (new_call key False [])" by (simp add: call_ok_def new_call_def)
  ultimately show ?thesis using assms by (auto simp: sf_inv_def g' intro: caller_ok_append)
qed

lemma DoChan_enter_inv:
  assumes "sf_inv g"
  shows "sf_inv (DoChan_enter key g)"
proof (cases "g_m g key")
  case (Some c)
  let ?g = "DoChan_enter key g" and ?x = "g_calls g ! c" and ?ch = "length (g_chans g)"
  let ?y = "?x\<lparr>k_chs := k_chs ?x @ [?ch]\<rparr>"
  have c: "c < length (g_calls g)" "linked (k_phase ?x)" using Some assms by (simp_all add: sf_inv_def map_ok_def)
  have g': "g_calls ?g = (g_calls g)[c := ?y]" "g_m ?g = g_m g" "g_chans ?g = g_chans g @ [new_chan]"
    "g_callers ?g = g_callers g"
    using Some by (simp_all add: DoChan_enter_def set_call_def)
  have old: "ch < ?ch" if "c' < length (g_calls g)" "ch \<in> set (k_chs (g_calls g ! c'))" for c' ch
    using chansD(2) [OF assms that] .
  have none: "delivered ?x = []" "delivered ?y = []" using c(2) by (cases "k_phase ?x"; simp add: delivered_def)+
  have y: "k_chs ((g_calls g)[c := ?y] ! c') = (if c' = c then k_chs ?x @ [?ch] else k_chs (g_calls g ! c'))" for c'
    using c(1) by (simp add: nth_list_update)
  have "map_ok ?g" using assms c(1) by (auto simp: sf_inv_def map_ok_def g' nth_list_update)
  moreover have "\<forall>x \<in> set (g_calls ?g). call_ok x"
    using assms c sf_inv_call_ok [OF assms c(1)]
    by (cases "k_phase ?x") (auto simp: g' sf_inv_def call_ok_def dest!: set_update_subset_insert [THEN subsetD])
  moreover have "chans_ok ?g"
    unfolding chans_ok_def g' length_list_update y
  proof (intro conjI allI impI ballI)
    fix ch assume "ch < length (g_chans g @ [new_chan])"
    then show "\<exists>c' < length (g_calls g). ch \<in> set (if c' = c then k_chs ?x @ [?ch] else k_chs (g_calls g ! c'))"
      using assms c(1) unfolding sf_inv_def chans_ok_def by (fastforce simp: less_Suc_eq)
  next
    fix c' assume c': "c' < length (g_calls g)"
    show "distinct (if c' = c then k_chs ?x @ [?ch] else k_chs (g_calls g ! c'))"
      using chansD(1) [OF assms c'] old [OF c(1)] by auto
    fix ch assume ch: "ch \<in> set (if c' = c then k_chs ?x @ [?ch] else k_chs (g_calls g ! c'))"
    show "ch < length (g_chans g @ [new_chan])" using ch old [OF c', of ch] by (auto split: if_splits)
    show "c'' = c'" if "c'' < length (g_calls g)" "ch \<in> set (if c'' = c then k_chs ?x @ [?ch] else k_chs (g_calls g ! c''))" for c''
      using that ch old [OF c', of ch] old [OF that(1), of ch] chansD(4) [OF assms c', of ch c''] by (auto split: if_splits)
    show "(g_chans g @ [new_chan]) ! ch = chan_state ((g_calls g)[c := ?y] ! c') ch"
      using ch old [OF c', of ch] chansD(3) [OF assms c', of ch] c(1) none
      by (auto simp: nth_append nth_list_update chan_state_def split: if_splits)
  qed
  moreover have "\<forall>w \<in> set (g_callers ?g). caller_ok (g_calls ?g) w"
    using assms by (auto simp: g' sf_inv_def intro!: caller_ok_update)
  ultimately show ?thesis by (simp add: sf_inv_def)
next
  case None
  let ?n = "length (g_calls g)" and ?ch = "length (g_chans g)" and ?g = "DoChan_enter key g"
  have g': "g_calls ?g = g_calls g @ [new_call key True [?ch]]" "g_m ?g = (g_m g)(key \<mapsto> ?n)"
    "g_chans ?g = g_chans g @ [new_chan]" "g_callers ?g = g_callers g"
    using None by (simp_all add: DoChan_enter_def)
  have old: "ch < ?ch" if "c' < ?n" "ch \<in> set (k_chs (g_calls g ! c'))" for c' ch
    using chansD(2) [OF assms that] .
  have "map_ok ?g"
    using assms None by (intro map_ok_new [OF _ _ _ g'(1)]) (simp_all add: sf_inv_def g'(2) new_call_def)
  moreover have "chans_ok ?g"
    unfolding chans_ok_def g' length_append
  proof (intro conjI allI impI ballI)
    fix ch assume "ch < length (g_chans g) + length [new_chan]"
    then consider "ch = ?ch" | "ch < ?ch" by force
    then show "\<exists>c' < length (g_calls g) + length [new_call key True [?ch]].
        ch \<in> set (k_chs ((g_calls g @ [new_call key True [?ch]]) ! c'))"
    proof cases
      case 1
      then show ?thesis by (intro exI [of _ ?n]) (simp add: new_call_def)
    next
      case 2
      then obtain c1 where "c1 < ?n" "ch \<in> set (k_chs (g_calls g ! c1))" using chan_owner [OF assms] by blast
      then show ?thesis by (intro exI [of _ c1]) (simp add: nth_append)
    qed
  next
    fix c' assume c': "c' < length (g_calls g) + length [new_call key True [?ch]]"
    show "distinct (k_chs ((g_calls g @ [new_call key True [?ch]]) ! c'))"
      using c' chansD(1) [OF assms, of c'] by (auto simp: nth_append new_call_def)
    fix ch assume ch: "ch \<in> set (k_chs ((g_calls g @ [new_call key True [?ch]]) ! c'))"
    show "ch < length (g_chans g) + length [new_chan]"
      using ch c' old [of c' ch] by (auto simp: nth_append new_call_def split: if_splits)
    show "c'' = c'" if "c'' < length (g_calls g) + length [new_call key True [?ch]]"
      "ch \<in> set (k_chs ((g_calls g @ [new_call key True [?ch]]) ! c''))" for c''
      using that ch c' old [of c' ch] old [of c'' ch] chansD(4) [OF assms, of c' ch c'']
      by (auto simp: nth_append new_call_def less_Suc_eq split: if_splits)
    show "(g_chans g @ [new_chan]) ! ch = chan_state ((g_calls g @ [new_call key True [?ch]]) ! c') ch"
      using ch c' old [of c' ch] chansD(3) [OF assms, of c' ch]
      by (auto simp: nth_append new_call_def chan_state_def delivered_def split: if_splits)
  qed
  moreover have "call_ok (new_call key True [?ch])" by (simp add: call_ok_def new_call_def)
  ultimately show ?thesis using assms by (auto simp: sf_inv_def g' intro: caller_ok_append)
qed

lemma wake_inv:
  assumes "sf_inv g" and "w < length (g_callers g)" and "g_callers g ! w = Waiting c" and "k_done (g_calls g ! c)"
  shows "sf_inv (g\<lparr>g_callers := (g_callers g)[w := Got c (k_res (g_calls g ! c))]\<rparr>)"
proof -
  have "caller_ok (g_calls g) (Waiting c)" using assms(1-3) unfolding sf_inv_def by (metis nth_mem)
  then show ?thesis
    using assms by (auto simp: sf_inv_def map_ok_def chans_ok_def dest!: set_update_subset_insert [THEN subsetD])
qed

lemma sf_step_inv: "sf_inv g \<Longrightarrow> sf_step e g = Some g' \<Longrightarrow> sf_inv g'"
  by (cases e)
    (auto simp: leader_step_def step_returns_inv step_publish_inv step_unlink_inv step_send_inv step_end_inv
      Do_enter_inv DoChan_enter_inv wake_inv split: if_splits phase.splits list.splits caller.splits)

lemma sf_empty_inv: "sf_inv sf_empty"
  by (simp add: sf_inv_def sf_empty_def map_ok_def chans_ok_def)

lemma sf_steps_inv: "sf_steps g g' \<Longrightarrow> sf_inv g \<Longrightarrow> sf_inv g'"
  by (induction rule: sf_steps.induct) (auto intro: sf_step_inv)

section \<open>What a call's result becomes\<close>

text \<open>The function of call \<open>c\<close> has returned \<open>r\<close>.\<close>

definition resolved :: "nat \<Rightarrow> 'v sfResult \<Rightarrow> 'v sfGroup \<Rightarrow> bool" where
  "resolved c r g \<longleftrightarrow> c < length (g_calls g) \<and> (case k_phase (g_calls g ! c) of
     Publishing r' \<Rightarrow> r' = r | Unlinking r' \<Rightarrow> r' = r | Sending r' rest \<Rightarrow> r' = r
   | Ended \<Rightarrow> k_res (g_calls g ! c) = r | _ \<Rightarrow> False)"

text \<open>The function of call \<open>c\<close> has panicked inside \<open>Do\<close>.\<close>

definition crashed :: "nat \<Rightarrow> 'v sfGroup \<Rightarrow> bool" where
  "crashed c g \<longleftrightarrow> c < length (g_calls g) \<and> (\<exists>msg. k_phase (g_calls g ! c) = Crashed msg)"

text \<open>A step touches the phase and the result of at most the call it names.\<close>

lemma nth_upd: "c < length xs \<Longrightarrow> xs[d := y] ! c = (if d = c then y else xs ! c)"
  by auto

lemma entered_calls:
  assumes "c < length (g_calls g)"
  shows "c < length (g_calls (Do_enter key g)) \<and> g_calls (Do_enter key g) ! c = g_calls g ! c"
    and "c < length (g_calls (DoChan_enter key g))
      \<and> k_phase (g_calls (DoChan_enter key g) ! c) = k_phase (g_calls g ! c)
      \<and> k_res (g_calls (DoChan_enter key g) ! c) = k_res (g_calls g ! c)
      \<and> k_key (g_calls (DoChan_enter key g) ! c) = k_key (g_calls g ! c)"
  using assms
  by (auto simp: Do_enter_def DoChan_enter_def nth_append set_call_def nth_upd split: option.splits)

lemma sf_step_resolved:
  assumes "sf_inv g" and "resolved c r g" and "sf_step e g = Some g'"
  shows "resolved c r g'"
proof -
  have c: "c < length (g_calls g)" using assms(2) by (simp add: resolved_def)
  have res: "k_res (g_calls g ! c) = r" if "k_phase (g_calls g ! c) = Sending r' rest" for r' rest
    using assms(2) that sf_inv_call_ok [OF assms(1) c] by (simp add: resolved_def call_ok_def)
  show ?thesis
  proof (cases e)
    case (EvDo key)
    then show ?thesis using assms(2,3) entered_calls(1) [OF c, of key] by (auto simp: resolved_def split: phase.splits)
  next
    case (EvDoChan key)
    then show ?thesis using assms(2,3) entered_calls(2) [OF c, of key] by (auto simp: resolved_def split: phase.splits)
  next
    case (EvReturns d r')
    then show ?thesis using assms(2,3)
      by (auto simp: resolved_def enter_phase_def set_call_def nth_list_update split: if_splits phase.splits)
  next
    case (EvPanics d msg)
    then show ?thesis using assms(2,3)
      by (auto simp: resolved_def fn_panics_def enter_phase_def set_call_def nth_list_update split: if_splits phase.splits)
  next
    case (EvLeader d)
    then show ?thesis
    proof (cases "d = c")
      case True
      then show ?thesis using assms(2,3) EvLeader c res
        by (auto simp: resolved_def leader_step_def complete_publish_def complete_unlink_def complete_send_def
            complete_end_def enter_phase_def set_call_def split: if_splits phase.splits list.splits)
    next
      case False
      then have "g_calls g' ! c = g_calls g ! c \<and> length (g_calls g') = length (g_calls g)" using assms(3) EvLeader
        by (auto simp: leader_step_def complete_publish_def complete_unlink_def complete_send_def
            complete_end_def enter_phase_def set_call_def split: if_splits phase.splits list.splits)
      then show ?thesis using assms(2) by (auto simp: resolved_def split: phase.splits)
    qed
  next
    case (EvWake w)
    then show ?thesis using assms(2,3) by (auto simp: resolved_def split: if_splits caller.splits phase.splits)
  qed
qed

lemma sf_steps_resolved: "sf_steps g g' \<Longrightarrow> sf_inv g \<Longrightarrow> resolved c r g \<Longrightarrow> resolved c r g'"
  by (induction rule: sf_steps.induct) (auto intro: sf_step_resolved sf_steps_inv)

lemma sf_step_crashed:
  assumes "crashed c g" and "sf_step e g = Some g'"
  shows "crashed c g' \<and> k_key (g_calls g' ! c) = k_key (g_calls g ! c)"
proof -
  have c: "c < length (g_calls g)" using assms(1) by (simp add: crashed_def)
  show ?thesis
  proof (cases e)
    case (EvDo key)
    then show ?thesis using assms entered_calls(1) [OF c, of key] by (auto simp: crashed_def)
  next
    case (EvDoChan key)
    then show ?thesis using assms entered_calls(2) [OF c, of key] by (auto simp: crashed_def)
  next
    case (EvLeader d)
    have "d \<noteq> c" using assms EvLeader by (auto simp: crashed_def leader_step_def split: if_splits)
    then have "g_calls g' ! c = g_calls g ! c \<and> length (g_calls g') = length (g_calls g)" using assms(2) EvLeader
      by (auto simp: leader_step_def complete_publish_def complete_unlink_def complete_send_def
          complete_end_def enter_phase_def set_call_def split: if_splits phase.splits list.splits)
    then show ?thesis using assms(1) by (simp add: crashed_def)
  qed (use assms in \<open>auto simp: crashed_def fn_panics_def enter_phase_def set_call_def nth_list_update
      split: if_splits caller.splits\<close>)
qed

lemma sf_steps_crashed:
  "sf_steps g g' \<Longrightarrow> crashed c g \<Longrightarrow> crashed c g' \<and> k_key (g_calls g' ! c) = k_key (g_calls g ! c)"
  by (induction rule: sf_steps.induct) (auto dest: sf_step_crashed)

section \<open>The leader always finishes\<close>

lemma leader_enabled:
  assumes "sf_inv g" and "resolved c r g" and "k_phase (g_calls g ! c) \<noteq> Ended"
  shows "\<exists>g'. sf_step (EvLeader c) g = Some g'"
proof (cases "k_phase (g_calls g ! c)")
  case (Sending r' chs)
  have c: "c < length (g_calls g)" using assms(2) by (simp add: resolved_def)
  show ?thesis
  proof (cases chs)
    case (Cons ch rest)
    then have "g_chans g ! ch = new_chan" using sending_split [OF assms(1) c] Sending by metis
    then show ?thesis using c Sending Cons by (simp add: leader_step_def new_chan_def)
  qed (simp add: c Sending leader_step_def)
qed (use assms in \<open>auto simp: resolved_def leader_step_def\<close>)

primrec leader_run :: "nat \<Rightarrow> nat \<Rightarrow> 'v sfGroup \<Rightarrow> 'v sfGroup option" where
  "leader_run 0 c g = Some g"
| "leader_run (Suc n) c g = Option.bind (sf_step (EvLeader c) g) (leader_run n c)"

lemma leader_run_sends:
  assumes "sf_inv g" and "c < length (g_calls g)" and "k_phase (g_calls g ! c) = Sending r chs"
  shows "\<exists>g'. leader_run (Suc (length chs)) c g = Some g' \<and> k_phase (g_calls g' ! c) = Ended
    \<and> g_m g' = g_m g \<and> length (g_calls g') = length (g_calls g)
    \<and> k_chs (g_calls g' ! c) = k_chs (g_calls g ! c) \<and> sf_inv g'"
  using assms
proof (induction chs arbitrary: g)
  case Nil
  have "sf_step (EvLeader c) g = Some (complete_end c g)" using Nil by (simp add: leader_step_def)
  then show ?case using Nil step_end_inv [OF Nil]
    by (simp add: complete_end_def enter_phase_def set_call_def)
next
  case (Cons ch rest)
  have "g_chans g ! ch = new_chan" using sending_split [OF Cons.prems] by metis
  then have step: "sf_step (EvLeader c) g = Some (complete_send c r ch rest g)"
    using Cons.prems by (simp add: leader_step_def new_chan_def)
  let ?g = "complete_send c r ch rest g"
  have g': "sf_inv ?g" "c < length (g_calls ?g)" "k_phase (g_calls ?g ! c) = Sending r rest" "g_m ?g = g_m g"
    "length (g_calls ?g) = length (g_calls g)" "k_chs (g_calls ?g ! c) = k_chs (g_calls g ! c)"
    using step_send_inv [OF Cons.prems] Cons.prems
    by (simp_all add: complete_send_def enter_phase_def set_call_def)
  obtain g2 where g2: "leader_run (Suc (length rest)) c ?g = Some g2" "k_phase (g_calls g2 ! c) = Ended"
    "g_m g2 = g_m g" "length (g_calls g2) = length (g_calls g)" "k_chs (g_calls g2 ! c) = k_chs (g_calls g ! c)" "sf_inv g2"
    using Cons.IH [OF g'(1-3)] g'(4-6) by auto
  have "leader_run (Suc (length (ch # rest))) c g = Some g2"
    using step g2(1) by (simp del: sf_step.simps)
  then show ?case using g2 by blast
qed

lemma leader_run_steps: "leader_run n c g = Some g' \<Longrightarrow> sf_steps g0 g \<Longrightarrow> sf_steps g0 g'"
  by (induction n arbitrary: g) (auto simp del: sf_step.simps split: Option.bind_splits intro: sf_next)

lemma leader_finishes:
  assumes "sf_inv g" and "c < length (g_calls g)" and "k_phase (g_calls g ! c) = Publishing r"
  shows "\<exists>g'. leader_run (3 + length (k_chs (g_calls g ! c))) c g = Some g'
    \<and> k_phase (g_calls g' ! c) = Ended \<and> g_m g' (k_key (g_calls g ! c)) = None
    \<and> c < length (g_calls g') \<and> k_chs (g_calls g' ! c) = k_chs (g_calls g ! c) \<and> sf_inv g'"
proof -
  let ?x = "g_calls g ! c" and ?g1 = "complete_publish c r g"
  let ?g2 = "complete_unlink c r ?g1"
  have s1: "sf_step (EvLeader c) g = Some ?g1" using assms by (simp add: leader_step_def)
  have g1: "sf_inv ?g1" "c < length (g_calls ?g1)" "k_phase (g_calls ?g1 ! c) = Unlinking r"
    using step_publish_inv [OF assms] assms(2) by (simp_all add: complete_publish_def set_call_def)
  have s2: "sf_step (EvLeader c) ?g1 = Some ?g2" using g1 by (simp add: leader_step_def)
  have g2: "sf_inv ?g2" "c < length (g_calls ?g2)" "k_phase (g_calls ?g2 ! c) = Sending r (k_chs ?x)"
    "g_m ?g2 (k_key ?x) = None" "k_chs (g_calls ?g2 ! c) = k_chs ?x"
    using step_unlink_inv [OF g1] assms(2)
    by (simp_all add: complete_unlink_def complete_publish_def enter_phase_def set_call_def)
  obtain g3 where "leader_run (Suc (length (k_chs ?x))) c ?g2 = Some g3" "k_phase (g_calls g3 ! c) = Ended"
    "g_m g3 = g_m ?g2" "length (g_calls g3) = length (g_calls ?g2)" "k_chs (g_calls g3 ! c) = k_chs ?x" "sf_inv g3"
    using leader_run_sends [OF g2(1-3)] g2(5) by auto
  then show ?thesis using s1 s2 g2 by (simp add: numeral_3_eq_3 del: sf_step.simps)
qed

section \<open>Properties\<close>

text \<open>
  C3. However the callers of \<open>Do\<close> and \<open>DoChan\<close> interleave, the function runs at most once at a time
  for a key: two calls of one key that are both running are the same call.
\<close>

theorem singleflight_runs_once_per_key:
  assumes "sf_steps sf_empty g" and "c < length (g_calls g)" and "c' < length (g_calls g)"
    and "k_phase (g_calls g ! c) = Running" and "k_phase (g_calls g ! c') = Running"
    and "k_key (g_calls g ! c) = k_key (g_calls g ! c')"
  shows "c = c'"
proof -
  have m: "map_ok g" using sf_steps_inv [OF assms(1) sf_empty_inv] by (simp add: sf_inv_def)
  have "g_m g (k_key (g_calls g ! c)) = Some c" using m assms unfolding map_ok_def by simp
  moreover have "g_m g (k_key (g_calls g ! c)) = Some c'" using m assms unfolding map_ok_def by simp
  ultimately show ?thesis by simp
qed

text \<open>Two concurrent callers: the first leads the call, the second joins it.\<close>

definition two_callers :: "nat sfGroup" where
  "two_callers = DoChan_enter ''k'' (Do_enter ''k'' sf_empty)"

lemma two_callers_reachable: "sf_steps sf_empty two_callers"
  unfolding two_callers_def
  by (rule sf_next [where e = "EvDoChan ''k''", OF sf_next [where e = "EvDo ''k''", OF sf_refl]]) simp_all

lemma two_callers_calls:
  "g_calls two_callers = [\<lparr>k_key = ''k'', k_async = False, k_phase = Running, k_done = False, k_res = nil_result, k_chs = [0]\<rparr>]"
  by (simp add: two_callers_def DoChan_enter_def Do_enter_def sf_empty_def set_call_def new_call_def)

theorem singleflight_runs_once_per_key_witness:
  "{c. c < length (g_calls two_callers) \<and> k_phase (g_calls two_callers ! c) = Running \<and> k_key (g_calls two_callers ! c) = ''k''} = {0}"
proof -
  have "c = 0" if "c < length (g_calls two_callers)" "k_phase (g_calls two_callers ! c) = Running"
      "k_key (g_calls two_callers ! c) = ''k''" for c
    using that by (intro singleflight_runs_once_per_key [OF two_callers_reachable]) (simp_all add: two_callers_calls)
  moreover have "0 < length (g_calls two_callers)" "k_phase (g_calls two_callers ! 0) = Running"
      "k_key (g_calls two_callers ! 0) = ''k''" by (simp_all add: two_callers_calls)
  ultimately show ?thesis by blast
qed

text \<open>
  C12. Every caller that shares a call gets the result its function returned: each \<open>Do\<close> that joined
  or led the call returns exactly it, and once the leader is done every channel handed out by
  \<open>DoChan\<close> holds it and is closed.
\<close>

theorem singleflight_shares_the_result:
  assumes "sf_steps sf_empty g" and "sf_step (EvReturns c r) g = Some g1" and "sf_steps g1 g2"
  shows "(\<forall>r'. Got c r' \<in> set (g_callers g2) \<longrightarrow> r' = r)
    \<and> (k_phase (g_calls g2 ! c) = Ended \<longrightarrow> (\<forall>ch \<in> set (k_chs (g_calls g2 ! c)). g_chans g2 ! ch = full_chan r))"
proof -
  have inv: "sf_inv g1" using sf_step_inv [OF sf_steps_inv [OF assms(1) sf_empty_inv] assms(2)] .
  have "resolved c r g1" using assms(2)
    by (auto simp: resolved_def enter_phase_def set_call_def split: if_splits)
  then have res: "resolved c r g2" and inv2: "sf_inv g2"
    using sf_steps_resolved [OF assms(3) inv] sf_steps_inv [OF assms(3) inv] by auto
  have c: "c < length (g_calls g2)" using res by (simp add: resolved_def)
  have "r' = r" if "Got c r' \<in> set (g_callers g2)" for r'
  proof -
    have "caller_ok (g_calls g2) (Got c r')" using inv2 that by (auto simp: sf_inv_def)
    then show ?thesis using res sf_inv_call_ok [OF inv2 c]
      by (auto simp: resolved_def call_ok_def split: phase.splits)
  qed
  moreover have "g_chans g2 ! ch = full_chan r"
    if "k_phase (g_calls g2 ! c) = Ended" "ch \<in> set (k_chs (g_calls g2 ! c))" for ch
    using that res chansD(3) [OF inv2 c that(2)] by (simp add: resolved_def chan_state_def delivered_def)
  ultimately show ?thesis by blast
qed

definition seven :: "nat sfResult" where
  "seven = \<lparr>res_Val = Some 7, res_Err = None\<rparr>"

lemma two_callers_returns:
  "sf_step (EvReturns 0 seven) two_callers = Some (enter_phase 0 (Publishing seven) two_callers)"
  by (simp add: two_callers_calls)

lemma two_callers_publishing:
  "sf_steps sf_empty (enter_phase 0 (Publishing seven) two_callers)"
  "g_calls (enter_phase 0 (Publishing seven) two_callers) =
     [\<lparr>k_key = ''k'', k_async = False, k_phase = Publishing seven, k_done = False, k_res = nil_result, k_chs = [0]\<rparr>]"
  by (rule sf_next [OF two_callers_reachable two_callers_returns])
    (simp add: enter_phase_def set_call_def two_callers_calls)

theorem singleflight_shares_the_result_witness:
  "\<exists>g. leader_run 4 0 (enter_phase 0 (Publishing seven) two_callers) = Some g
     \<and> k_phase (g_calls g ! 0) = Ended \<and> g_chans g ! 0 = full_chan seven"
proof -
  obtain g where g: "leader_run 4 0 (enter_phase 0 (Publishing seven) two_callers) = Some g" "k_phase (g_calls g ! 0) = Ended"
      "k_chs (g_calls g ! 0) = [0]"
    using leader_finishes [OF sf_steps_inv [OF two_callers_publishing(1) sf_empty_inv], of 0 seven]
    by (auto simp: two_callers_publishing(2))
  then show ?thesis
    using singleflight_shares_the_result [OF two_callers_reachable two_callers_returns
        leader_run_steps [OF g(1) sf_refl]] by auto
qed

text \<open>
  C26. A leader whose function has returned is never blocked: left to run, it finishes after three
  steps and one send for each waiting channel, with the key free again for new calls.
\<close>

theorem singleflight_leader_finishes:
  assumes "sf_steps sf_empty g" and "c < length (g_calls g)" and "k_phase (g_calls g ! c) = Publishing r"
  shows "\<exists>g'. leader_run (3 + length (k_chs (g_calls g ! c))) c g = Some g'
    \<and> k_phase (g_calls g' ! c) = Ended \<and> g_m g' (k_key (g_calls g ! c)) = None
    \<and> (\<forall>ch \<in> set (k_chs (g_calls g ! c)). ch_closed (g_chans g' ! ch) \<and> ch_buf (g_chans g' ! ch) \<noteq> None)"
proof -
  have inv: "sf_inv g" using sf_steps_inv [OF assms(1) sf_empty_inv] .
  obtain g' where g': "leader_run (3 + length (k_chs (g_calls g ! c))) c g = Some g'"
    "k_phase (g_calls g' ! c) = Ended" "g_m g' (k_key (g_calls g ! c)) = None"
    "c < length (g_calls g')" "k_chs (g_calls g' ! c) = k_chs (g_calls g ! c)" "sf_inv g'"
    using leader_finishes [OF inv assms(2,3)] by blast
  then show ?thesis
    using chansD(3) [OF g'(6,4)] by (auto simp: chan_state_def delivered_def full_chan_def)
qed

theorem singleflight_leader_finishes_witness:
  "\<exists>g'. leader_run 4 0 (enter_phase 0 (Publishing seven) two_callers) = Some g'
     \<and> k_phase (g_calls g' ! 0) = Ended \<and> g_m g' ''k'' = None"
  using singleflight_leader_finishes [OF two_callers_publishing(1), of 0 seven]
  by (auto simp: two_callers_publishing(2))

text \<open>
  C36. A panic of the function inside \<open>Do\<close> blocks its key for good: in every later state the
  abandoned call is still the one in flight and its wait group is never released, so that every
  later \<open>Do\<close> of the key joins it and waits forever.
\<close>

theorem singleflight_panic_blocks_key:
  assumes "sf_steps sf_empty g" and "sf_step (EvPanics c msg) g = Some g1" and "\<not> k_async (g_calls g ! c)"
    and "sf_steps g1 g2"
  shows "g_m g2 (k_key (g_calls g ! c)) = Some c \<and> \<not> k_done (g_calls g2 ! c)
    \<and> (\<forall>w < length (g_callers g2). g_callers g2 ! w = Waiting c \<longrightarrow> sf_step (EvWake w) g2 = None)"
proof -
  have c: "c < length (g_calls g)" using assms(2) by (auto split: if_splits)
  have inv1: "sf_inv g1" using sf_step_inv [OF sf_steps_inv [OF assms(1) sf_empty_inv] assms(2)] .
  have 1: "crashed c g1" "k_key (g_calls g1 ! c) = k_key (g_calls g ! c)"
    using assms(2,3) by (auto simp: crashed_def fn_panics_def enter_phase_def set_call_def split: if_splits)
  then have 2: "crashed c g2" "k_key (g_calls g2 ! c) = k_key (g_calls g ! c)"
    using sf_steps_crashed [OF assms(4)] by auto
  have inv2: "sf_inv g2" using sf_steps_inv [OF assms(4) inv1] .
  have c2: "c < length (g_calls g2)" using 2 by (simp add: crashed_def)
  have "\<not> k_done (g_calls g2 ! c)" using sf_inv_call_ok [OF inv2 c2] 2 by (auto simp: crashed_def call_ok_def)
  moreover have "g_m g2 (k_key (g_calls g ! c)) = Some c"
    using inv2 2 by (auto simp: sf_inv_def map_ok_def crashed_def)
  ultimately show ?thesis by simp
qed

theorem singleflight_panic_blocks_key_witness:
  "\<exists>g1. sf_step (EvPanics 0 ''boom'') two_callers = Some g1 \<and> g_m (Do_enter ''k'' g1) ''k'' = Some 0
     \<and> \<not> k_done (g_calls (Do_enter ''k'' g1) ! 0)"
proof -
  let ?g1 = "fn_panics 0 ''boom'' two_callers"
  have s: "sf_step (EvPanics 0 ''boom'') two_callers = Some ?g1" by (simp add: two_callers_calls)
  have "sf_steps ?g1 (Do_enter ''k'' ?g1)" by (rule sf_next [where e = "EvDo ''k''", OF sf_refl]) simp
  then show ?thesis
    using singleflight_panic_blocks_key [OF two_callers_reachable s] s by (simp add: two_callers_calls)
qed

end
