(* ===== verification/Store_Interface.thy ===== *)
theory Store_Interface
  imports Byte_View
begin

text \<open>
  The interface \<open>localCache\<close> of \<^verbatim>\<open>cache.go\<close>, which \<open>cache\<close> relies on and which the LRU
  and the SLRU policy provide, as a locale: what a lookup returns after every operation, when an
  insertion keeps the new pair, that expired pairs are never served, and that the capacity is
  respected.
\<close>

text \<open>What a lookup at time \<open>now\<close> may return of a stored pair.\<close>

definition live :: "time \<Rightarrow> (ByteView \<times> expiry) option \<Rightarrow> ByteView option" where
  "live now p = (case p of None \<Rightarrow> None | Some (v, x) \<Rightarrow> if expired now x then None else Some v)"

lemma live_simps [simp]:
  "live now None = None" "live now (Some (v, x)) = (if expired now x then None else Some v)"
  by (simp_all add: live_def)

locale local_store =
  fixes ok :: "'c \<Rightarrow> bool"
    and look :: "'c \<Rightarrow> string \<Rightarrow> (ByteView \<times> expiry) option"
    and used :: "'c \<Rightarrow> int"
    and limit :: "'c \<Rightarrow> int"
    and admits :: "'c \<Rightarrow> string \<Rightarrow> ByteView \<Rightarrow> bool"
    and add :: "time \<Rightarrow> string \<Rightarrow> ByteView \<Rightarrow> duration \<Rightarrow> 'c \<Rightarrow> 'c option"
    and get :: "time \<Rightarrow> string \<Rightarrow> 'c \<Rightarrow> ByteView option \<times> 'c"
    and remove :: "string \<Rightarrow> 'c \<Rightarrow> 'c"
    and purge :: "clock \<Rightarrow> 'c \<Rightarrow> 'c"
  assumes used_bound: "ok c \<Longrightarrow> limit c \<noteq> 0 \<Longrightarrow> used c \<le> limit c"
    and add_returns: "ok c \<Longrightarrow> used c + item_cost k v < 2 ^ 63 \<Longrightarrow> \<exists>c'. add now k v ttl c = Some c'"
    and add_ok: "ok c \<Longrightarrow> used c + item_cost k v < 2 ^ 63 \<Longrightarrow> add now k v ttl c = Some c' \<Longrightarrow>
      ok c' \<and> limit c' = limit c"
    and add_look: "ok c \<Longrightarrow> used c + item_cost k v < 2 ^ 63 \<Longrightarrow> add now k v ttl c = Some c' \<Longrightarrow>
      look c' \<subseteq>\<^sub>m (look c)(k \<mapsto> (v, expiry_of now ttl))"
    and add_stores: "ok c \<Longrightarrow> used c + item_cost k v < 2 ^ 63 \<Longrightarrow> add now k v ttl c = Some c' \<Longrightarrow>
      admits c k v \<Longrightarrow> look c' k = Some (v, expiry_of now ttl)"
    and add_unbounded: "ok c \<Longrightarrow> used c + item_cost k v < 2 ^ 63 \<Longrightarrow> add now k v ttl c = Some c' \<Longrightarrow>
      limit c = 0 \<Longrightarrow> look c' = (look c)(k \<mapsto> (v, expiry_of now ttl))"
    and get_result: "ok c \<Longrightarrow> fst (get now k c) = live now (look c k)"
    and get_look: "ok c \<Longrightarrow> look (snd (get now k c)) =
      (if live now (look c k) = None then (look c)(k := None) else look c)"
    and get_ok: "ok c \<Longrightarrow> ok (snd (get now k c)) \<and> limit (snd (get now k c)) = limit c"
    and get_used: "ok c \<Longrightarrow> used (snd (get now k c)) \<le> used c"
    and get_admits: "ok c \<Longrightarrow> admits c k v \<Longrightarrow> admits (snd (get now k c)) k v"
    and remove_ok: "ok c \<Longrightarrow> ok (remove k c) \<and> limit (remove k c) = limit c"
    and remove_look: "ok c \<Longrightarrow> look (remove k c) = (look c)(k := None)"
    and remove_used: "ok c \<Longrightarrow> used (remove k c) \<le> used c"
    and purge_ok: "ok c \<Longrightarrow> ok (purge clk c) \<and> limit (purge clk c) = limit c"
    and purge_used: "ok c \<Longrightarrow> used (purge clk c) \<le> used c"
    and purge_look: "ok c \<Longrightarrow> look (purge clk c) \<subseteq>\<^sub>m look c"
    and purge_keeps: "ok c \<Longrightarrow> look c k = Some (v, x) \<Longrightarrow> (\<And>n. \<not> expired (clk n) x) \<Longrightarrow>
      look (purge clk c) k = Some (v, x)"
    and purge_drops: "ok c \<Longrightarrow> mono clk \<Longrightarrow> look (purge clk c) k = Some (v, x) \<Longrightarrow> \<not> expired (clk 0) x"
begin

lemma add_live:
  assumes "ok c" and "used c + item_cost k v < 2 ^ 63" and "add now k v ttl c = Some c'" and "admits c k v"
  shows "fst (get t k c') = (if 0 < ttl \<and> now + ttl < t then None else Some v)"
  using assms add_ok [OF assms(1-3)] add_stores [OF assms] by (simp add: get_result)

lemma add_other:
  assumes "ok c" and "used c + item_cost k v < 2 ^ 63" and "add now k v ttl c = Some c'" and "k' \<noteq> k"
  shows "fst (get t k' c') \<in> {None, fst (get t k' c)}"
proof -
  have "look c' k' \<in> {None, look c k'}"
    using map_le_cases [OF add_look [OF assms(1-3)], of k'] assms(4) by auto
  then show ?thesis using assms(1) add_ok [OF assms(1-3)] by (auto simp: get_result)
qed

lemma never_expired: "ok c \<Longrightarrow> look c k = Some (v, x) \<Longrightarrow> expired t x \<Longrightarrow> fst (get t k c) = None"
  by (simp add: get_result)

lemma get_again: "ok c \<Longrightarrow> fst (get t k c) = Some v \<Longrightarrow> fst (get t k (snd (get t k c))) = Some v"
  using get_ok [of c t k] by (auto simp: get_result get_look)

lemma remove_miss: "ok c \<Longrightarrow> fst (get t k (remove k c)) = None"
  using remove_ok [of c k] by (simp add: get_result remove_look)

lemma remove_other: "ok c \<Longrightarrow> k' \<noteq> k \<Longrightarrow> fst (get t k' (remove k c)) = fst (get t k' c)"
  using remove_ok [of c k] by (simp add: get_result remove_look)

text \<open>A purge is invisible to every lookup that is not earlier than the readings of the clock.\<close>

lemma purge_invisible:
  assumes "ok c" and "\<And>n. clk n \<le> t"
  shows "fst (get t k (purge clk c)) = fst (get t k c)"
proof -
  have "look (purge clk c) k = look c k \<or> live t (look c k) = None"
  proof (cases "look c k")
    case (Some p)
    moreover obtain v x where "p = (v, x)" by force
    ultimately show ?thesis
      using purge_keeps [of c k v x clk] assms expired_mono [of _ x t] by (cases "expired t x") auto
  next
    case None
    then show ?thesis by simp
  qed
  moreover have "look (purge clk c) k = None \<or> look (purge clk c) k = look c k"
    by (rule map_le_cases [OF purge_look [OF assms(1)]])
  ultimately show ?thesis
    using assms(1) purge_ok [OF assms(1), of clk] by (auto simp: get_result)
qed

end

text \<open>
  A store that keeps at most \<open>reserve\<close> bytes away from new pairs. What fits beside the reserve is
  kept by every insertion, whatever happened before.
\<close>

locale bounded_store = local_store +
  fixes reserve :: "'a \<Rightarrow> int"
  assumes reserve_admits: "ok c \<Longrightarrow> limit c \<noteq> 0 \<Longrightarrow> item_cost k v + reserve c \<le> limit c \<Longrightarrow> admits c k v"
    and add_reserve: "ok c \<Longrightarrow> used c + item_cost k v < 2 ^ 63 \<Longrightarrow> add now k v ttl c = Some c' \<Longrightarrow>
      reserve c' = reserve c"
    and get_reserve: "ok c \<Longrightarrow> reserve (snd (get now k c)) = reserve c"
    and remove_reserve: "ok c \<Longrightarrow> reserve (remove k c) = reserve c"
    and purge_reserve: "ok c \<Longrightarrow> reserve (purge clk c) = reserve c"

end
