(* ===== verification/Lru.thy ===== *)
theory Lru
  imports Store_Interface
begin

text \<open>
  \<^verbatim>\<open>internal/lru/lru.go\<close>: the size-limited LRU cache. The linked list is the sequence of
  its elements, the index maps a key to an element, and the entry an element points to is read
  through a heap, as in the code, where the list and the index share the \<open>*list.Element\<close>.
  \<open>l_next\<close> is the next unused address. The callback is a flag (nil or not) and the sequence
  of the calls made to it. The \<open>Value\<close> interface is represented by its one implementation in
  the program, \<open>ByteView\<close>.
\<close>

section \<open>Model\<close>

record entry =
  e_key :: string
  e_value :: ByteView
  e_expireAt :: expiry

definition nil_entry :: entry where
  "nil_entry = \<lparr>e_key = [], e_value = zero_view, e_expireAt = None\<rparr>"

record lruCache =
  l_maxBytes :: int
  l_curbytes :: int
  l_ll :: "elem list"
  l_cache :: "string \<rightharpoonup> elem"
  l_onEvicted :: bool
  l_heap :: "elem \<Rightarrow> entry"
  l_next :: elem
  l_evicted :: "(string \<times> ByteView) list"

definition lru_New :: "int \<Rightarrow> bool \<Rightarrow> lruCache" where
  "lru_New maxBytes onEvicted =
     \<lparr>l_maxBytes = maxBytes, l_curbytes = 0, l_ll = [], l_cache = Map.empty,
      l_onEvicted = onEvicted, l_heap = (\<lambda>_. nil_entry), l_next = 0, l_evicted = []\<rparr>"

definition lru_callback :: "string \<Rightarrow> ByteView \<Rightarrow> lruCache \<Rightarrow> lruCache" where
  "lru_callback k v c = (if l_onEvicted c then c\<lparr>l_evicted := l_evicted c @ [(k, v)]\<rparr> else c)"

definition lru_Remove :: "string \<Rightarrow> lruCache \<Rightarrow> lruCache" where
  "lru_Remove key c = (case l_cache c key of
     Some ele \<Rightarrow>
       let c = c\<lparr>l_ll := list_Remove ele (l_ll c)\<rparr>;
           kv = l_heap c ele;
           c = c\<lparr>l_cache := (l_cache c)(key := None)\<rparr>;
           c = c\<lparr>l_curbytes := i64 (l_curbytes c -
                   i64 (int (length (e_key kv)) + ByteView_Len (e_value kv)))\<rparr>
       in lru_callback (e_key kv) (e_value kv) c
   | None \<Rightarrow> c)"

definition lru_Get :: "time \<Rightarrow> string \<Rightarrow> lruCache \<Rightarrow> ByteView option \<times> lruCache" where
  "lru_Get now key c = (case l_cache c key of
     Some ele \<Rightarrow>
       let kv = l_heap c ele in
       if expired now (e_expireAt kv) then (None, lru_Remove key c)
       else (Some (e_value kv),
             if Some ele \<noteq> list_Front (l_ll c)
             then c\<lparr>l_ll := list_MoveToFront ele (l_ll c)\<rparr> else c)
   | None \<Rightarrow> (None, c))"

definition lru_RemoveOldest :: "lruCache \<Rightarrow> lruCache" where
  "lru_RemoveOldest c = (case list_Back (l_ll c) of
     Some ele \<Rightarrow>
       let c = c\<lparr>l_ll := list_Remove ele (l_ll c)\<rparr>;
           kv = l_heap c ele;
           c = c\<lparr>l_cache := (l_cache c)(e_key kv := None)\<rparr>;
           c = c\<lparr>l_curbytes := i64 (l_curbytes c -
                   i64 (int (length (e_key kv)) + ByteView_Len (e_value kv)))\<rparr>
       in lru_callback (e_key kv) (e_value kv) c
   | None \<Rightarrow> c)"

text \<open>
  The loop at the end of \<open>AddWithTTL\<close>. Nothing in the code bounds it: with a negative limit
  and an empty list \<open>RemoveOldest\<close> changes nothing, so not returning is the value \<open>None\<close>.
\<close>

partial_function (option) lru_evict :: "lruCache \<Rightarrow> lruCache option" where
  "lru_evict c =
     (if l_maxBytes c \<noteq> 0 \<and> l_curbytes c > l_maxBytes c then lru_evict (lru_RemoveOldest c)
      else Some c)"

definition lru_store :: "time \<Rightarrow> string \<Rightarrow> ByteView \<Rightarrow> duration \<Rightarrow> lruCache \<Rightarrow> lruCache" where
  "lru_store now key value ttl c = (case l_cache c key of
     Some ele \<Rightarrow>
       let c = c\<lparr>l_ll := list_MoveToFront ele (l_ll c)\<rparr>;
           kv = l_heap c ele;
           c = c\<lparr>l_curbytes := i64 (l_curbytes c +
                   i64 (ByteView_Len value - ByteView_Len (e_value kv)))\<rparr>;
           kv = kv\<lparr>e_value := value\<rparr>;
           kv = (if ttl > 0 then kv\<lparr>e_expireAt := Some (now + ttl)\<rparr>
                 else kv\<lparr>e_expireAt := None\<rparr>)
       in c\<lparr>l_heap := (l_heap c)(ele := kv)\<rparr>
   | None \<Rightarrow>
       let expireAt = (if ttl > 0 then Some (now + ttl) else None);
           ele = l_next c;
           c = c\<lparr>l_next := Suc ele,
                 l_heap := (l_heap c)(ele := \<lparr>e_key = key, e_value = value, e_expireAt = expireAt\<rparr>),
                 l_ll := list_PushFront ele (l_ll c)\<rparr>;
           c = c\<lparr>l_cache := (l_cache c)(key \<mapsto> ele)\<rparr>
       in c\<lparr>l_curbytes := i64 (l_curbytes c + i64 (int (length key) + ByteView_Len value))\<rparr>)"

definition lru_AddWithTTL ::
  "time \<Rightarrow> string \<Rightarrow> ByteView \<Rightarrow> duration \<Rightarrow> lruCache \<Rightarrow> lruCache option" where
  "lru_AddWithTTL now key value ttl c = lru_evict (lru_store now key value ttl c)"

definition lru_Add :: "time \<Rightarrow> string \<Rightarrow> ByteView \<Rightarrow> lruCache \<Rightarrow> lruCache option" where
  "lru_Add now key value c = lru_AddWithTTL now key value 0 c"

text \<open>
  The loop of \<open>RemoveExpired\<close> walks from \<open>Back\<close> to \<open>Front\<close> and remembers the previous
  element before it removes the current one; it reads the clock again for every element.
\<close>

primrec lru_expire_walk :: "clock \<Rightarrow> nat \<Rightarrow> elem list \<Rightarrow> lruCache \<Rightarrow> lruCache" where
  "lru_expire_walk clk i [] c = c"
| "lru_expire_walk clk i (ele # prevs) c =
     (let kv = l_heap c ele in
      lru_expire_walk clk (Suc i) prevs
        (if expired (clk i) (e_expireAt kv) then lru_Remove (e_key kv) c else c))"

definition lru_RemoveExpired :: "clock \<Rightarrow> lruCache \<Rightarrow> lruCache" where
  "lru_RemoveExpired clk c = lru_expire_walk clk 0 (rev (l_ll c)) c"

definition lru_Len :: "lruCache \<Rightarrow> int" where
  "lru_Len c = int (length (l_ll c))"

section \<open>Well-formed caches and the abstract LRU list\<close>

definition entry_cost :: "entry \<Rightarrow> int" where
  "entry_cost kv = item_cost (e_key kv) (e_value kv)"

text \<open>
  The abstraction: the entries from the most to the least recently used one.
\<close>

definition lru_entries :: "lruCache \<Rightarrow> entry list" where
  "lru_entries c = map (l_heap c) (l_ll c)"

definition lru_size :: "lruCache \<Rightarrow> int" where
  "lru_size c = sum_of entry_cost (lru_entries c)"

text \<open>
  The index and the list hold the same elements, under the entries' keys; the addresses are in
  use; the byte counter is the true total, which an \<open>int64\<close> can hold.
\<close>

definition lru_wf :: "lruCache \<Rightarrow> bool" where
  "lru_wf c \<longleftrightarrow> distinct (l_ll c) \<and> (\<forall>e\<in>set (l_ll c). e < l_next c)
     \<and> (\<forall>k e. l_cache c k = Some e \<longleftrightarrow> e \<in> set (l_ll c) \<and> e_key (l_heap c e) = k)
     \<and> l_curbytes c = lru_size c \<and> lru_size c < 2 ^ 63"

definition lru_ok :: "lruCache \<Rightarrow> bool" where
  "lru_ok c \<longleftrightarrow> lru_wf c \<and> 0 \<le> l_maxBytes c \<and> (l_maxBytes c \<noteq> 0 \<longrightarrow> l_curbytes c \<le> l_maxBytes c)"

text \<open>The abstract LRU policy on lists of entries.\<close>

definition drop_key :: "string \<Rightarrow> entry list \<Rightarrow> entry list" where
  "drop_key k es = filter (\<lambda>kv. e_key kv \<noteq> k) es"

definition find_key :: "string \<Rightarrow> entry list \<Rightarrow> entry option" where
  "find_key k es = List.find (\<lambda>kv. e_key kv = k) es"

definition spec_get :: "time \<Rightarrow> string \<Rightarrow> entry list \<Rightarrow> ByteView option \<times> entry list" where
  "spec_get now k es = (case find_key k es of
     None \<Rightarrow> (None, es)
   | Some kv \<Rightarrow> if expired now (e_expireAt kv) then (None, drop_key k es)
                else (Some (e_value kv), kv # drop_key k es))"

definition spec_put :: "time \<Rightarrow> string \<Rightarrow> ByteView \<Rightarrow> duration \<Rightarrow> entry list \<Rightarrow> entry list" where
  "spec_put now k v ttl es =
     \<lparr>e_key = k, e_value = v, e_expireAt = expiry_of now ttl\<rparr> # drop_key k es"

definition keep_fit :: "int \<Rightarrow> entry list \<Rightarrow> entry list" where
  "keep_fit limit es = (if limit = 0 then es else take_fit limit entry_cost es)"

definition spec_add ::
  "int \<Rightarrow> time \<Rightarrow> string \<Rightarrow> ByteView \<Rightarrow> duration \<Rightarrow> entry list \<Rightarrow> entry list" where
  "spec_add limit now k v ttl es = keep_fit limit (spec_put now k v ttl es)"

text \<open>The calls of the eviction callback for a sequence of removed entries.\<close>

definition lru_notified :: "lruCache \<Rightarrow> entry list \<Rightarrow> (string \<times> ByteView) list" where
  "lru_notified c es = (if l_onEvicted c then map (\<lambda>kv. (e_key kv, e_value kv)) es else [])"

section \<open>Lemmas on entries\<close>

lemma lru_notified_append [simp]: "lru_notified c (xs @ ys) = lru_notified c xs @ lru_notified c ys"
  by (simp add: lru_notified_def)

lemma lru_notified_cong: "l_onEvicted c = l_onEvicted c' \<Longrightarrow> lru_notified c es = lru_notified c' es"
  by (simp add: lru_notified_def)

lemma entry_cost_nonneg [simp]: "0 \<le> entry_cost kv"
  by (simp add: entry_cost_def)

lemma lru_size_nonneg [simp]: "0 \<le> lru_size c"
  unfolding lru_size_def by (rule total_nonneg) simp

lemma lru_wfD:
  assumes "lru_wf c"
  shows "distinct (l_ll c)" and "\<And>e. e \<in> set (l_ll c) \<Longrightarrow> e < l_next c"
    and "\<And>k e. l_cache c k = Some e \<longleftrightarrow> e \<in> set (l_ll c) \<and> e_key (l_heap c e) = k"
    and "l_curbytes c = lru_size c" and "lru_size c < 2 ^ 63"
  using assms unfolding lru_wf_def by blast+

lemma lru_index_None: "lru_wf c \<Longrightarrow> l_cache c k = None \<longleftrightarrow> k \<notin> e_key ` set (lru_entries c)"
  using lru_wfD(3) [of c k] by (cases "l_cache c k") (force simp: lru_entries_def)+

lemma lru_key_inj:
  "lru_wf c \<Longrightarrow> e \<in> set (l_ll c) \<Longrightarrow> e' \<in> set (l_ll c) \<Longrightarrow>
   e_key (l_heap c e) = e_key (l_heap c e') \<Longrightarrow> e = e'"
  by (metis lru_wfD(3) option.inject)

lemma distinct_keys: "lru_wf c \<Longrightarrow> distinct (map e_key (lru_entries c))"
  using lru_wfD(1) [of c] lru_key_inj [of c]
  by (auto simp: lru_entries_def distinct_map inj_on_def)

lemma drop_key_notin: "k \<notin> e_key ` set es \<Longrightarrow> drop_key k es = es"
  by (auto simp: drop_key_def filter_id_conv)

lemma entries_drop:
  assumes wf: "lru_wf c" and ele: "l_cache c k = Some e"
  shows "map (l_heap c) (removeAll e (l_ll c)) = drop_key k (lru_entries c)"
proof -
  have k: "e \<in> set (l_ll c)" "e_key (l_heap c e) = k"
    using lru_wfD(3) [OF wf] ele by auto
  have "removeAll e (l_ll c) = filter (\<lambda>x. e_key (l_heap c x) \<noteq> k) (l_ll c)"
    unfolding removeAll_filter_not_eq
    by (rule filter_cong) (use k lru_key_inj [OF wf] in auto)
  then show ?thesis by (simp add: drop_key_def lru_entries_def filter_map o_def)
qed

lemma find_key_index:
  assumes wf: "lru_wf c"
  shows "find_key k (lru_entries c) = map_option (l_heap c) (l_cache c k)"
proof (cases "l_cache c k")
  case None
  then have "k \<notin> e_key ` set (lru_entries c)" using lru_index_None [OF wf] by blast
  then show ?thesis using None by (auto simp: find_key_def find_None_iff)
next
  case (Some e)
  then have e: "e \<in> set (l_ll c)" "e_key (l_heap c e) = k" using lru_wfD(3) [OF wf] by auto
  then obtain kv where kv: "find_key k (lru_entries c) = Some kv"
    by (cases "find_key k (lru_entries c)") (auto simp: find_key_def find_None_iff lru_entries_def)
  then have "kv \<in> set (lru_entries c)" "e_key kv = k"
    by (auto simp: find_key_def find_Some_iff)
  then have "kv = l_heap c e" using e lru_key_inj [OF wf] by (auto simp: lru_entries_def)
  then show ?thesis using kv Some by simp
qed

lemma total_drop_key:
  assumes wf: "lru_wf c" and ele: "l_cache c k = Some e"
  shows "sum_of entry_cost (drop_key k (lru_entries c)) = lru_size c - entry_cost (l_heap c e)"
proof -
  have "e \<in> set (l_ll c)" using lru_wfD(3) [OF wf] ele by auto
  then show ?thesis
    using total_removeAll [OF lru_wfD(1) [OF wf], of e "\<lambda>x. entry_cost (l_heap c x)"]
    by (subst entries_drop [OF wf ele, symmetric]) (simp add: lru_size_def lru_entries_def o_def)
qed

lemma lru_cost_le: "lru_wf c \<Longrightarrow> l_cache c k = Some e \<Longrightarrow> entry_cost (l_heap c e) \<le> lru_size c"
  using lru_wfD(3) [of c k e] unfolding lru_size_def
  by (intro total_member_le) (auto simp: lru_entries_def)

section \<open>Every operation refines the abstract policy\<close>

lemma lru_callback_simps [simp]:
  "l_maxBytes (lru_callback k v c) = l_maxBytes c" "l_curbytes (lru_callback k v c) = l_curbytes c"
  "l_ll (lru_callback k v c) = l_ll c" "l_cache (lru_callback k v c) = l_cache c"
  "l_heap (lru_callback k v c) = l_heap c" "l_next (lru_callback k v c) = l_next c"
  "l_onEvicted (lru_callback k v c) = l_onEvicted c"
  "l_evicted (lru_callback k v c) = l_evicted c @ (if l_onEvicted c then [(k, v)] else [])"
  by (simp_all add: lru_callback_def)

lemma lru_entries_callback [simp]: "lru_entries (lru_callback k v c) = lru_entries c"
  by (simp add: lru_entries_def)

lemma lru_Remove_miss: "l_cache c k = None \<Longrightarrow> lru_Remove k c = c"
  by (simp add: lru_Remove_def)

lemma lru_Remove_frame [simp]:
  "l_maxBytes (lru_Remove k c) = l_maxBytes c" "l_heap (lru_Remove k c) = l_heap c"
  "l_next (lru_Remove k c) = l_next c" "l_onEvicted (lru_Remove k c) = l_onEvicted c"
  by (simp_all add: lru_Remove_def Let_def split: option.splits)

lemma lru_entries_Remove: "lru_wf c \<Longrightarrow> lru_entries (lru_Remove k c) = drop_key k (lru_entries c)"
proof (cases "l_cache c k")
  case None
  moreover assume wf: "lru_wf c"
  ultimately show ?thesis
    using lru_index_None [OF wf] by (simp add: lru_Remove_miss drop_key_notin)
next
  case (Some e)
  moreover assume wf: "lru_wf c"
  ultimately show ?thesis
    using entries_drop [OF wf Some]
    by (simp add: lru_Remove_def lru_entries_def list_Remove_def)
qed

lemma lru_Remove_wf: "lru_wf c \<Longrightarrow> lru_wf (lru_Remove k c)"
proof (cases "l_cache c k")
  case None
  then show "lru_wf c \<Longrightarrow> ?thesis" by (simp add: lru_Remove_miss)
next
  case (Some e)
  assume wf: "lru_wf c"
  note D = lru_wfD [OF wf]
  let ?c = "lru_Remove k c"
  have e: "e \<in> set (l_ll c)" "e_key (l_heap c e) = k" using D(3) Some by auto
  have ll: "l_ll ?c = list_Remove e (l_ll c)" and ix: "l_cache ?c = (l_cache c)(k := None)"
    using Some by (simp_all add: lru_Remove_def)
  have size: "lru_size ?c = lru_size c - entry_cost (l_heap c e)"
    using total_drop_key [OF wf Some] by (simp add: lru_size_def lru_entries_Remove [OF wf])
  have "l_curbytes ?c = i64 (lru_size ?c)"
    unfolding size using Some e D(4) by (simp add: lru_Remove_def entry_cost_def item_cost_def)
  moreover have bound: "lru_size ?c \<le> lru_size c" by (simp add: size)
  ultimately have cur: "l_curbytes ?c = lru_size ?c"
    using D(5) lru_size_nonneg [of ?c] by (simp add: i64_id in_i64_def del: lru_size_nonneg)
  have "\<And>k' e'. l_cache ?c k' = Some e' \<longleftrightarrow> e' \<in> set (l_ll ?c) \<and> e_key (l_heap ?c e') = k'"
    using D(3) Some e lru_key_inj [OF wf] by (auto simp: ix ll golist_simps)
  then show ?thesis
    using D bound cur by (simp add: lru_wf_def ll golist_simps)
qed

lemma lru_Remove_ok: "lru_ok c \<Longrightarrow> lru_ok (lru_Remove k c)"
proof -
  assume ok: "lru_ok c"
  then have wf: "lru_wf c" by (simp add: lru_ok_def)
  have "lru_size (lru_Remove k c) \<le> lru_size c"
    using total_drop_key [OF wf]
    by (cases "l_cache c k") (simp_all add: lru_Remove_miss lru_size_def lru_entries_Remove [OF wf])
  then show ?thesis
    using ok lru_Remove_wf [OF wf] lru_wfD(4) [OF wf] lru_wfD(4) [OF lru_Remove_wf [OF wf]]
    by (auto simp: lru_ok_def)
qed

lemma lru_RemoveOldest_eq:
  assumes wf: "lru_wf c" and ne: "l_ll c \<noteq> []"
  shows "lru_RemoveOldest c = lru_Remove (e_key (l_heap c (last (l_ll c)))) c"
proof -
  have "l_cache c (e_key (l_heap c (last (l_ll c)))) = Some (last (l_ll c))"
    using lru_wfD(3) [OF wf] ne by auto
  then show ?thesis
    using ne by (simp add: lru_RemoveOldest_def lru_Remove_def list_Back_def)
qed

lemma lru_RemoveOldest_ll:
  assumes wf: "lru_wf c" and ne: "l_ll c \<noteq> []"
  shows "l_ll (lru_RemoveOldest c) = butlast (l_ll c)"
    and "lru_entries (lru_RemoveOldest c) = butlast (lru_entries c)"
    and "lru_wf (lru_RemoveOldest c)"
    and "l_evicted (lru_RemoveOldest c) = l_evicted c @
      (if l_onEvicted c then [(e_key (last (lru_entries c)), e_value (last (lru_entries c)))] else [])"
proof -
  show "l_ll (lru_RemoveOldest c) = butlast (l_ll c)"
    using ne lru_wfD(1) [OF wf] by (simp add: lru_RemoveOldest_def list_Back_def golist_simps)
  moreover have "l_heap (lru_RemoveOldest c) = l_heap c"
    by (simp add: lru_RemoveOldest_eq [OF assms])
  ultimately show "lru_entries (lru_RemoveOldest c) = butlast (lru_entries c)"
    by (simp add: lru_entries_def map_butlast)
  show "lru_wf (lru_RemoveOldest c)"
    by (simp add: lru_RemoveOldest_eq [OF assms] lru_Remove_wf [OF wf])
  show "l_evicted (lru_RemoveOldest c) = l_evicted c @
      (if l_onEvicted c then [(e_key (last (lru_entries c)), e_value (last (lru_entries c)))] else [])"
    using ne by (simp add: lru_RemoveOldest_def list_Back_def lru_entries_def last_map)
qed

lemma lru_RemoveOldest_frame [simp]:
  "l_maxBytes (lru_RemoveOldest c) = l_maxBytes c" "l_onEvicted (lru_RemoveOldest c) = l_onEvicted c"
  by (simp_all add: lru_RemoveOldest_def Let_def split: option.splits)

lemma lru_entries_Nil [simp]: "lru_entries c = [] \<longleftrightarrow> l_ll c = []"
  by (simp add: lru_entries_def)

lemma lru_size_RemoveOldest:
  assumes "lru_wf c" and "l_ll c \<noteq> []"
  shows "lru_size (lru_RemoveOldest c) = lru_size c - entry_cost (last (lru_entries c))"
  using assms(2) by (simp add: lru_size_def lru_RemoveOldest_ll [OF assms] total_butlast)

lemma lru_over_limit_nonempty:
  "lru_wf c \<Longrightarrow> 0 \<le> l_maxBytes c \<Longrightarrow> l_maxBytes c < l_curbytes c \<Longrightarrow> l_ll c \<noteq> []"
  using lru_wfD(4) [of c] by (auto simp: lru_size_def lru_entries_def)

text \<open>
  The eviction loop with a limit that is not negative: it returns, keeps the longest prefix of
  most recently used entries that fits and reports exactly the dropped ones, oldest first.
\<close>

lemma lru_evict_returns:
  assumes "lru_wf c" and "0 \<le> l_maxBytes c"
  obtains c' dropped where "lru_evict c = Some c'" and "lru_ok c'"
    and "l_maxBytes c' = l_maxBytes c" and "l_onEvicted c' = l_onEvicted c"
    and "lru_entries c' = keep_fit (l_maxBytes c) (lru_entries c)"
    and "lru_entries c = lru_entries c' @ dropped"
    and "l_evicted c' = l_evicted c @ lru_notified c (rev dropped)"
  using assms
proof (induction "length (l_ll c)" arbitrary: c thesis rule: less_induct)
  case less
  note wf = less.prems(2)
  show ?case
  proof (cases "l_maxBytes c \<noteq> 0 \<and> l_maxBytes c < l_curbytes c")
    case False
    then have "lru_evict c = Some c" by (auto simp: lru_evict.simps [of c])
    moreover have "lru_ok c" using False less.prems by (auto simp: lru_ok_def)
    moreover have "keep_fit (l_maxBytes c) (lru_entries c) = lru_entries c"
      using False lru_wfD(4) [OF wf] take_fit_all [of "lru_entries c" entry_cost]
      by (auto simp: keep_fit_def lru_size_def)
    ultimately show ?thesis by (intro less.prems(1) [of c "[]"]) (simp_all add: lru_notified_def)
  next
    case True
    let ?o = "lru_RemoveOldest c" and ?last = "last (lru_entries c)"
    have ne: "l_ll c \<noteq> []" using True lru_over_limit_nonempty [OF wf] less.prems(3) by blast
    note R = lru_RemoveOldest_ll [OF wf ne]
    have "length (l_ll ?o) < length (l_ll c)" using ne R(1) by simp
    note IH = less.hyps [OF this _ R(3), unfolded R(2) lru_RemoveOldest_frame]
    obtain c' dropped where c': "lru_evict ?o = Some c'" "lru_ok c'" "l_maxBytes c' = l_maxBytes c"
        "l_onEvicted c' = l_onEvicted c" "lru_entries c' = keep_fit (l_maxBytes c) (butlast (lru_entries c))"
        "butlast (lru_entries c) = lru_entries c' @ dropped"
        "l_evicted c' = l_evicted ?o @ lru_notified ?o (rev dropped)"
      using IH less.prems(3) by blast
    have run: "lru_evict c = Some c'" using True c'(1) by (simp add: lru_evict.simps [of c])
    have keep: "lru_entries c' = keep_fit (l_maxBytes c) (lru_entries c)"
      using True ne lru_wfD(4) [OF wf] take_fit_butlast [of "lru_entries c" entry_cost "l_maxBytes c"]
      unfolding c'(5) by (auto simp: keep_fit_def lru_size_def)
    have split: "lru_entries c = lru_entries c' @ (dropped @ [?last])"
      using c'(6) ne append_butlast_last_id [of "lru_entries c"] by simp
    have "l_evicted c' = l_evicted c @ lru_notified c (rev (dropped @ [?last]))"
      using c'(7) R(4) by (simp add: lru_notified_def)
    then show ?thesis by (rule less.prems(1) [OF run c'(2-4) keep split])
  qed
qed

lemma lru_store_frame [simp]:
  "l_maxBytes (lru_store now k v ttl c) = l_maxBytes c"
  "l_onEvicted (lru_store now k v ttl c) = l_onEvicted c"
  "l_evicted (lru_store now k v ttl c) = l_evicted c"
  by (simp_all add: lru_store_def split: option.splits)

lemma lru_store_hit:
  assumes "l_cache c k = Some e"
  shows "l_ll (lru_store now k v ttl c) = list_MoveToFront e (l_ll c)"
    and "l_cache (lru_store now k v ttl c) = l_cache c"
    and "l_next (lru_store now k v ttl c) = l_next c"
    and "l_heap (lru_store now k v ttl c) = (l_heap c)(e :=
      (l_heap c e)\<lparr>e_value := v, e_expireAt := expiry_of now ttl\<rparr>)"
  using assms by (simp_all add: lru_store_def expiry_of_def)

lemma lru_store_miss:
  assumes "l_cache c k = None"
  shows "l_ll (lru_store now k v ttl c) = l_next c # l_ll c"
    and "l_cache (lru_store now k v ttl c) = (l_cache c)(k \<mapsto> l_next c)"
    and "l_next (lru_store now k v ttl c) = Suc (l_next c)"
    and "l_heap (lru_store now k v ttl c) = (l_heap c)(l_next c :=
      \<lparr>e_key = k, e_value = v, e_expireAt = expiry_of now ttl\<rparr>)"
  using assms by (simp_all add: lru_store_def list_PushFront_def expiry_of_def)

lemma lru_entries_store:
  assumes wf: "lru_wf c"
  shows "lru_entries (lru_store now k v ttl c) = spec_put now k v ttl (lru_entries c)"
proof (cases "l_cache c k")
  case None
  then have "drop_key k (lru_entries c) = lru_entries c"
    using lru_index_None [OF wf] by (blast intro: drop_key_notin)
  moreover have "l_next c \<notin> set (l_ll c)" using lru_wfD(2) [OF wf] by blast
  then have "map ((l_heap c)(l_next c := kv)) (l_ll c) = map (l_heap c) (l_ll c)" for kv
    by (intro map_cong) auto
  ultimately show ?thesis
    using None by (simp add: lru_entries_def lru_store_miss spec_put_def)
next
  case (Some e)
  then have e: "e \<in> set (l_ll c)" "e_key (l_heap c e) = k" using lru_wfD(3) [OF wf] by auto
  have "map ((l_heap c)(e := kv)) (removeAll e (l_ll c)) = drop_key k (lru_entries c)" for kv
    unfolding entries_drop [OF wf Some, symmetric] by (intro map_cong) auto
  then show ?thesis
    using Some e by (simp add: lru_entries_def lru_store_hit spec_put_def list_MoveToFront_def)
qed

lemma sum_of_drop_key_le: "sum_of entry_cost (drop_key k es) \<le> sum_of entry_cost es"
  by (induction es) (simp_all add: drop_key_def add_increasing)

lemma lru_store_wf:
  assumes wf: "lru_wf c" and fits: "lru_size c + item_cost k v < 2 ^ 63"
  shows "lru_wf (lru_store now k v ttl c)"
proof -
  let ?c = "lru_store now k v ttl c"
  note D = lru_wfD [OF wf]
  have size: "lru_size ?c = item_cost k v + sum_of entry_cost (drop_key k (lru_entries c))"
    by (simp add: lru_size_def lru_entries_store [OF wf] spec_put_def entry_cost_def)
  then have bound: "lru_size ?c < 2 ^ 63"
    using fits sum_of_drop_key_le [of k "lru_entries c"] by (simp add: lru_size_def)
  have "l_curbytes ?c = i64 (lru_size ?c)"
  proof (cases "l_cache c k")
    case None
    then have "drop_key k (lru_entries c) = lru_entries c"
      using lru_index_None [OF wf] by (blast intro: drop_key_notin)
    then show ?thesis unfolding size
      using None D(4) by (simp add: lru_store_def lru_size_def item_cost_def algebra_simps)
  next
    case (Some e)
    then have "e_key (l_heap c e) = k" using D(3) by auto
    then show ?thesis unfolding size total_drop_key [OF wf Some]
      using Some D(4) by (simp add: lru_store_def entry_cost_def item_cost_def algebra_simps)
  qed
  then have cur: "l_curbytes ?c = lru_size ?c"
    using bound lru_size_nonneg [of ?c] by (simp add: i64_id in_i64_def del: lru_size_nonneg)
  have fresh: "l_next c \<notin> set (l_ll c)" using D(2) by blast
  have "distinct (l_ll ?c) \<and> (\<forall>e\<in>set (l_ll ?c). e < l_next ?c)
     \<and> (\<forall>k' e. l_cache ?c k' = Some e \<longleftrightarrow> e \<in> set (l_ll ?c) \<and> e_key (l_heap ?c e) = k')"
  proof (cases "l_cache c k")
    case None
    moreover have "e_key (l_heap c e) \<noteq> k" if "e \<in> set (l_ll c)" for e
      using that D(3) None by (metis option.distinct(1))
    ultimately show ?thesis using D(1-3) fresh by (auto simp: lru_store_miss less_Suc_eq)
  next
    case (Some e)
    then show ?thesis using D(1-3) by (auto simp: lru_store_hit golist_simps)
  qed
  then show ?thesis using bound cur by (simp add: lru_wf_def)
qed

lemma lru_AddWithTTL_returns:
  assumes ok: "lru_ok c" and fits: "lru_size c + item_cost k v < 2 ^ 63"
  obtains c' dropped where "lru_AddWithTTL now k v ttl c = Some c'" and "lru_ok c'"
    and "l_maxBytes c' = l_maxBytes c" and "l_onEvicted c' = l_onEvicted c"
    and "lru_entries c' = spec_add (l_maxBytes c) now k v ttl (lru_entries c)"
    and "spec_put now k v ttl (lru_entries c) = lru_entries c' @ dropped"
    and "l_evicted c' = l_evicted c @ lru_notified c (rev dropped)"
proof -
  have wf: "lru_wf c" and max: "0 \<le> l_maxBytes c" using ok by (auto simp: lru_ok_def)
  let ?s = "lru_store now k v ttl c"
  show ?thesis
  proof (rule lru_evict_returns [OF lru_store_wf [OF wf fits], of now ttl])
    show "0 \<le> l_maxBytes ?s" using max by simp
  next
    fix c' dropped
    assume "lru_evict ?s = Some c'" "lru_ok c'" "l_maxBytes c' = l_maxBytes ?s"
      "l_onEvicted c' = l_onEvicted ?s" "lru_entries c' = keep_fit (l_maxBytes ?s) (lru_entries ?s)"
      "lru_entries ?s = lru_entries c' @ dropped"
      "l_evicted c' = l_evicted ?s @ lru_notified ?s (rev dropped)"
    then show ?thesis
      by (intro that [of c' dropped])
        (simp_all add: lru_AddWithTTL_def spec_add_def lru_entries_store [OF wf] lru_notified_def)
  qed
qed

lemma lru_Get_refines:
  assumes wf: "lru_wf c"
  shows "fst (lru_Get now k c) = fst (spec_get now k (lru_entries c))"
    and "lru_entries (snd (lru_Get now k c)) = snd (spec_get now k (lru_entries c))"
proof -
  have kv: "find_key k (lru_entries c) = map_option (l_heap c) (l_cache c k)"
    by (rule find_key_index [OF wf])
  show "fst (lru_Get now k c) = fst (spec_get now k (lru_entries c))"
    by (auto simp: lru_Get_def spec_get_def kv split: option.splits)
  have move: "lru_entries (c\<lparr>l_ll := list_MoveToFront e (l_ll c)\<rparr>) = l_heap c e # drop_key k (lru_entries c)"
    if "l_cache c k = Some e" for e
    using that lru_wfD(3) [OF wf] entries_drop [OF wf that]
    by (simp add: lru_entries_def list_MoveToFront_def)
  have front: "c\<lparr>l_ll := list_MoveToFront e (l_ll c)\<rparr> = c" if "list_Front (l_ll c) = Some e" for e
    using list_MoveToFront_front [OF lru_wfD(1) [OF wf] that] by simp
  show "lru_entries (snd (lru_Get now k c)) = snd (spec_get now k (lru_entries c))"
    using move front
    by (auto simp: lru_Get_def spec_get_def kv lru_entries_Remove [OF wf] split: option.splits)
qed

text \<open>The pairs that \<open>Get\<close> reports to the callback: the expired entry, if it met one.\<close>

definition spec_expired :: "time \<Rightarrow> string \<Rightarrow> entry list \<Rightarrow> entry list" where
  "spec_expired now k es = (case find_key k es of
     None \<Rightarrow> []
   | Some kv \<Rightarrow> if expired now (e_expireAt kv) then [kv] else [])"

lemma lru_Get_reports:
  assumes "lru_wf c"
  shows "l_evicted (snd (lru_Get now k c)) = l_evicted c @ lru_notified c (spec_expired now k (lru_entries c))"
proof (cases "l_cache c k")
  case None
  then show ?thesis by (simp add: lru_Get_def spec_expired_def find_key_index [OF assms] lru_notified_def)
next
  case (Some e)
  then have "e_key (l_heap c e) = k" using lru_wfD(3) [OF assms, of k e] by simp
  then show ?thesis using Some
    by (simp add: lru_Get_def spec_expired_def find_key_index [OF assms] lru_Remove_def lru_notified_def)
qed

lemma lru_move_ok:
  assumes "lru_ok c"
  shows "lru_ok (c\<lparr>l_ll := list_MoveToFront e (l_ll c)\<rparr>)"
proof -
  let ?c = "c\<lparr>l_ll := list_MoveToFront e (l_ll c)\<rparr>"
  have wf: "lru_wf c" using assms by (simp add: lru_ok_def)
  have "lru_size ?c = lru_size c"
    using total_list_MoveToFront [OF lru_wfD(1) [OF wf], of "\<lambda>x. entry_cost (l_heap c x)" e]
    by (simp add: lru_size_def lru_entries_def o_def)
  then show ?thesis using assms by (auto simp: lru_ok_def lru_wf_def golist_simps)
qed

lemma lru_Get_ok: "lru_ok c \<Longrightarrow> lru_ok (snd (lru_Get now k c))"
  using lru_move_ok [of c] lru_Remove_ok [of c k] by (auto simp: lru_Get_def split: option.splits)

text \<open>The purge: an entry goes if it is expired at the reading taken when the walk reaches it.\<close>

definition lru_lookup :: "lruCache \<Rightarrow> string \<Rightarrow> (ByteView \<times> expiry) option" where
  "lru_lookup c k = map_option (\<lambda>e. (e_value (l_heap c e), e_expireAt (l_heap c e))) (l_cache c k)"

lemma lru_Remove_index: "l_cache (lru_Remove k c) = (l_cache c)(k := None)"
  by (auto simp: lru_Remove_def split: option.splits)

lemma lru_lookup_Remove: "lru_lookup (lru_Remove k c) = (lru_lookup c)(k := None)"
  by (auto simp: lru_lookup_def lru_Remove_index)

lemma lru_Remove_ll: "lru_wf c \<Longrightarrow> e \<in> set (l_ll c) \<Longrightarrow>
  l_ll (lru_Remove (e_key (l_heap c e)) c) = list_Remove e (l_ll c)"
  using lru_wfD(3) [of c "e_key (l_heap c e)" e] by (simp add: lru_Remove_def)

lemma lru_expire_walk_props:
  assumes "lru_ok c" and "distinct es" and "set es \<subseteq> set (l_ll c)"
  shows "lru_ok (lru_expire_walk clk i es c) \<and> l_maxBytes (lru_expire_walk clk i es c) = l_maxBytes c
    \<and> lru_size (lru_expire_walk clk i es c) \<le> lru_size c
    \<and> (\<forall>k. lru_lookup (lru_expire_walk clk i es c) k =
        (if \<exists>j<length es. l_cache c k = Some (es ! j) \<and> expired (clk (i + j)) (e_expireAt (l_heap c (es ! j)))
         then None else lru_lookup c k))"
  using assms
proof (induction es arbitrary: i c)
  case (Cons e es)
  let ?x = "expired (clk i) (e_expireAt (l_heap c e))"
  let ?k = "e_key (l_heap c e)"
  let ?c = "if ?x then lru_Remove ?k c else c"
  have wf: "lru_wf c" using Cons.prems by (simp add: lru_ok_def)
  have ix: "l_cache c ?k = Some e" using Cons.prems lru_wfD(3) [OF wf] by auto
  have ok: "lru_ok ?c" using Cons.prems(1) lru_Remove_ok by auto
  have sub: "set es \<subseteq> set (l_ll ?c)"
    using Cons.prems lru_Remove_ll [OF wf, of e] by (auto simp: golist_simps)
  have size: "lru_size ?c \<le> lru_size c"
    using sum_of_drop_key_le by (simp add: lru_size_def lru_entries_Remove [OF wf])
  have key: "l_cache c k = Some e \<longleftrightarrow> k = ?k" for k
    using lru_wfD(3) [OF wf, of k e] ix by (auto simp: lru_wfD(3) [OF wf])
  have "lru_lookup (lru_expire_walk clk i (e # es) c) k =
      (if \<exists>j<Suc (length es). l_cache c k = Some ((e # es) ! j) \<and>
            expired (clk (i + j)) (e_expireAt (l_heap c ((e # es) ! j)))
       then None else lru_lookup c k)" for k
    using Cons.IH [OF ok _ sub, of "Suc i"] Cons.prems(2) key [of k]
    by (auto simp: Ex_less_Suc2 lru_lookup_Remove lru_Remove_index)
  then show ?case
    using Cons.IH [OF ok _ sub, of "Suc i"] Cons.prems(2) size by auto
qed simp

lemma lru_RemoveExpired_props:
  assumes "lru_ok c"
  shows "lru_ok (lru_RemoveExpired clk c)" and "l_maxBytes (lru_RemoveExpired clk c) = l_maxBytes c"
    and "lru_size (lru_RemoveExpired clk c) \<le> lru_size c"
    and "\<exists>i. lru_lookup (lru_RemoveExpired clk c) k =
      (case l_cache c k of None \<Rightarrow> None
       | Some e \<Rightarrow> if expired (clk i) (e_expireAt (l_heap c e)) then None else lru_lookup c k)"
proof -
  have wf: "lru_wf c" using assms by (simp add: lru_ok_def)
  note W = lru_expire_walk_props [OF assms, of "rev (l_ll c)" clk 0]
  show "lru_ok (lru_RemoveExpired clk c)" and "l_maxBytes (lru_RemoveExpired clk c) = l_maxBytes c"
    and "lru_size (lru_RemoveExpired clk c) \<le> lru_size c"
    using W lru_wfD(1) [OF wf] by (auto simp: lru_RemoveExpired_def)
  have look: "lru_lookup (lru_RemoveExpired clk c) k =
      (if \<exists>j<length (l_ll c). l_cache c k = Some (rev (l_ll c) ! j) \<and>
            expired (clk j) (e_expireAt (l_heap c (rev (l_ll c) ! j)))
       then None else lru_lookup c k)"
    using W lru_wfD(1) [OF wf] by (simp add: lru_RemoveExpired_def)
  show "\<exists>i. lru_lookup (lru_RemoveExpired clk c) k =
      (case l_cache c k of None \<Rightarrow> None
       | Some e \<Rightarrow> if expired (clk i) (e_expireAt (l_heap c e)) then None else lru_lookup c k)"
  proof (cases "l_cache c k")
    case None
    then show ?thesis using look by (simp add: lru_lookup_def)
  next
    case (Some e)
    then have "e \<in> set (rev (l_ll c))" using lru_wfD(3) [OF wf] by auto
    then obtain i where i: "i < length (l_ll c)" "rev (l_ll c) ! i = e" by (metis in_set_conv_nth length_rev)
    have "j = i" if "j < length (l_ll c)" "rev (l_ll c) ! j = e" for j
      using that i lru_wfD(1) [OF wf] nth_eq_iff_index_eq [of "rev (l_ll c)" i j] by simp
    then have "(\<exists>j<length (l_ll c). l_cache c k = Some (rev (l_ll c) ! j) \<and>
            expired (clk j) (e_expireAt (l_heap c (rev (l_ll c) ! j)))) \<longleftrightarrow>
        expired (clk i) (e_expireAt (l_heap c e))"
      using i Some by (metis option.inject)
    then show ?thesis unfolding look Some by (intro exI [of _ i]) simp
  qed
qed

text \<open>
  A negative limit: no state of a well-formed cache satisfies the loop's exit condition, since
  the byte counter never drops below zero, so the loop does not return.
\<close>

lemma lru_RemoveOldest_wf: "lru_wf c \<Longrightarrow> lru_wf (lru_RemoveOldest c)"
  using lru_RemoveOldest_ll(3) [of c] by (cases "l_ll c = []") (simp_all add: lru_RemoveOldest_def list_Back_def)

lemma lru_evict_never_returns:
  assumes "lru_wf c" and "l_maxBytes c < 0"
  shows "lru_evict c = None"
proof (rule ccontr)
  assume "lru_evict c \<noteq> None"
  then obtain r where "lru_evict c = Some r" by blast
  then have "\<not> (lru_wf c \<and> l_maxBytes c < 0)"
  proof (rule lru_evict.raw_induct [where P = "\<lambda>c r. \<not> (lru_wf c \<and> l_maxBytes c < 0)", rotated])
    fix f c r
    assume IH: "\<And>c r. f c = Some r \<Longrightarrow> \<not> (lru_wf c \<and> l_maxBytes c < 0)"
      and eq: "(if l_maxBytes c \<noteq> 0 \<and> l_maxBytes c < l_curbytes c then f (lru_RemoveOldest c)
        else Some c) = Some r"
    show "\<not> (lru_wf c \<and> l_maxBytes c < 0)"
    proof
      assume neg: "lru_wf c \<and> l_maxBytes c < 0"
      then have "l_maxBytes c < l_curbytes c"
        using lru_wfD(4) [of c] lru_size_nonneg [of c] by linarith
      then have "f (lru_RemoveOldest c) = Some r" using eq neg by auto
      then show False using IH [of "lru_RemoveOldest c" r] neg lru_RemoveOldest_wf [of c] by simp
    qed
  qed
  then show False using assms by simp
qed

section \<open>The cache as a local store\<close>

lemma find_key_drop [simp]: "find_key k' (drop_key k es) = (if k' = k then None else find_key k' es)"
  by (induction es) (auto simp: find_key_def drop_key_def)

lemma find_key_Cons [simp]: "find_key k (kv # es) = (if e_key kv = k then Some kv else find_key k es)"
  by (simp add: find_key_def)

lemma find_key_key: "find_key k es = Some kv \<Longrightarrow> e_key kv = k"
  by (auto simp: find_key_def find_Some_iff)

lemma find_key_in: "find_key k es = Some kv \<Longrightarrow> kv \<in> set es"
  by (induction es) (auto split: if_splits simp: find_key_def)

lemma find_key_append: "find_key k (xs @ ys) = (case find_key k xs of None \<Rightarrow> find_key k ys | Some kv \<Rightarrow> Some kv)"
  by (induction xs) (auto simp: find_key_def)

definition entry_pair :: "entry \<Rightarrow> ByteView \<times> expiry" where
  "entry_pair kv = (e_value kv, e_expireAt kv)"

lemma lru_lookup_entries: "lru_wf c \<Longrightarrow> lru_lookup c k = map_option entry_pair (find_key k (lru_entries c))"
  by (simp add: find_key_index lru_lookup_def option.map_comp o_def entry_pair_def)

definition lru_admits :: "lruCache \<Rightarrow> string \<Rightarrow> ByteView \<Rightarrow> bool" where
  "lru_admits c k v \<longleftrightarrow> l_maxBytes c = 0 \<or> item_cost k v \<le> l_maxBytes c"

lemma lru_AddWithTTL_lookup:
  assumes ok: "lru_ok c" and fits: "lru_size c + item_cost k v < 2 ^ 63"
    and add: "lru_AddWithTTL now k v ttl c = Some c'"
  shows "lru_ok c' \<and> l_maxBytes c' = l_maxBytes c"
    and "lru_lookup c' \<subseteq>\<^sub>m (lru_lookup c)(k \<mapsto> (v, expiry_of now ttl))"
    and "lru_admits c k v \<Longrightarrow> lru_lookup c' k = Some (v, expiry_of now ttl)"
    and "l_maxBytes c = 0 \<Longrightarrow> lru_lookup c' = (lru_lookup c)(k \<mapsto> (v, expiry_of now ttl))"
proof -
  obtain dropped where c': "lru_ok c'" "l_maxBytes c' = l_maxBytes c"
    and es: "lru_entries c' = spec_add (l_maxBytes c) now k v ttl (lru_entries c)"
    and split: "spec_put now k v ttl (lru_entries c) = lru_entries c' @ dropped"
    using lru_AddWithTTL_returns [OF ok fits, of now ttl] add by (metis option.inject)
  have wf: "lru_wf c" "lru_wf c'" using ok c' by (auto simp: lru_ok_def)
  note L = lru_lookup_entries [OF wf(1)] lru_lookup_entries [OF wf(2)]
  have put: "map_option entry_pair (find_key k' (spec_put now k v ttl (lru_entries c))) =
      ((lru_lookup c)(k \<mapsto> (v, expiry_of now ttl))) k'" for k'
    by (simp add: spec_put_def L entry_pair_def)
  show "lru_ok c' \<and> l_maxBytes c' = l_maxBytes c" using c' by simp
  show "lru_lookup c' \<subseteq>\<^sub>m (lru_lookup c)(k \<mapsto> (v, expiry_of now ttl))"
  proof (rule map_leI)
    fix k' x assume "lru_lookup c' k' = Some x"
    then have "map_option entry_pair (find_key k' (spec_put now k v ttl (lru_entries c))) = Some x"
      by (auto simp: L split find_key_append)
    then show "((lru_lookup c)(k \<mapsto> (v, expiry_of now ttl))) k' = Some x" unfolding put .
  qed
  show "lru_lookup c' k = Some (v, expiry_of now ttl)" if "lru_admits c k v"
    using that unfolding L es
    by (auto simp: spec_add_def keep_fit_def spec_put_def lru_admits_def entry_cost_def entry_pair_def)
  show "lru_lookup c' = (lru_lookup c)(k \<mapsto> (v, expiry_of now ttl))" if "l_maxBytes c = 0"
    using that put by (auto simp: L es spec_add_def keep_fit_def)
qed

lemma lru_Get_lookup:
  assumes ok: "lru_ok c"
  shows "fst (lru_Get now k c) = live now (lru_lookup c k)"
    and "lru_lookup (snd (lru_Get now k c)) =
      (if live now (lru_lookup c k) = None then (lru_lookup c)(k := None) else lru_lookup c)"
    and "l_maxBytes (snd (lru_Get now k c)) = l_maxBytes c"
    and "lru_size (snd (lru_Get now k c)) \<le> lru_size c"
proof -
  have wf: "lru_wf c" and wf': "lru_wf (snd (lru_Get now k c))"
    using ok lru_Get_ok [OF ok] by (auto simp: lru_ok_def)
  note L = lru_lookup_entries [OF wf] lru_lookup_entries [OF wf']
  note R = lru_Get_refines [OF wf, of now k]
  show "fst (lru_Get now k c) = live now (lru_lookup c k)"
    unfolding R L by (auto simp: spec_get_def entry_pair_def split: option.splits)
  show "lru_lookup (snd (lru_Get now k c)) =
      (if live now (lru_lookup c k) = None then (lru_lookup c)(k := None) else lru_lookup c)"
    by (rule ext) (auto simp: L R spec_get_def entry_pair_def dest: find_key_key split: option.splits)
  show "l_maxBytes (snd (lru_Get now k c)) = l_maxBytes c"
    by (auto simp: lru_Get_def split: option.splits)
  have "entry_cost kv + sum_of entry_cost (drop_key k (lru_entries c)) = lru_size c"
    if "find_key k (lru_entries c) = Some kv" for kv
    using that total_drop_key [OF wf] by (auto simp: find_key_index [OF wf])
  then show "lru_size (snd (lru_Get now k c)) \<le> lru_size c"
    using sum_of_drop_key_le [of k "lru_entries c"]
    by (auto simp: lru_size_def R spec_get_def split: option.splits)
qed

interpretation lru: local_store lru_ok lru_lookup lru_size l_maxBytes lru_admits
  lru_AddWithTTL lru_Get lru_Remove lru_RemoveExpired
proof (unfold_locales, goal_cases)
  case (1 c)
  then show ?case by (auto simp: lru_ok_def dest: lru_wfD(4))
next
  case (2 c k v now ttl)
  then show ?case using lru_AddWithTTL_returns by blast
next
  case (11 c k v now)
  then show ?case using lru_Get_lookup(3) [of c now k] by (simp add: lru_admits_def)
next
  case (14 c k)
  then show ?case
    using sum_of_drop_key_le by (auto simp: lru_size_def lru_entries_Remove lru_ok_def)
next
  case (17 c clk)
  show ?case
  proof (rule map_leI)
    fix k x assume "lru_lookup (lru_RemoveExpired clk c) k = Some x"
    then show "lru_lookup c k = Some x"
      using lru_RemoveExpired_props(4) [OF 17, of clk k] by (auto split: option.splits if_splits)
  qed
next
  case (18 c k v x clk)
  then show ?case
    using lru_RemoveExpired_props(4) [OF 18(1), of clk k] by (auto simp: lru_lookup_def)
next
  case (19 c clk k v x)
  then obtain i e where "l_cache c k = Some e" "\<not> expired (clk i) (e_expireAt (l_heap c e))" "lru_lookup c k = Some (v, x)"
    using lru_RemoveExpired_props(4) [OF 19(1), of clk k] by (auto split: option.splits if_splits)
  then show ?case
    using 19(2) expired_mono [of "clk 0" x "clk i"] by (auto simp: lru_lookup_def mono_def)
qed (simp_all add: lru_AddWithTTL_lookup lru_Get_lookup lru_Get_ok lru_Remove_ok lru_lookup_Remove lru_RemoveExpired_props)

interpretation lru_bounded: bounded_store lru_ok lru_lookup lru_size l_maxBytes lru_admits
  lru_AddWithTTL lru_Get lru_Remove lru_RemoveExpired "\<lambda>_. 0"
  by unfold_locales (simp_all add: lru_admits_def)

section \<open>Reachable caches\<close>

text \<open>
  Every state a client can bring the cache to, when the bytes it holds stay within an
  \<open>int64\<close>: the operations run one at a time, under the mutex of \<open>cache\<close>.
\<close>

inductive lru_reachable :: "int \<Rightarrow> bool \<Rightarrow> lruCache \<Rightarrow> bool" for maxBytes onEvicted where
  lru_start: "lru_reachable maxBytes onEvicted (lru_New maxBytes onEvicted)"
| lru_step_add: "lru_reachable maxBytes onEvicted c \<Longrightarrow> lru_size c + item_cost k v < 2 ^ 63 \<Longrightarrow>
    lru_AddWithTTL now k v ttl c = Some c' \<Longrightarrow> lru_reachable maxBytes onEvicted c'"
| lru_step_get: "lru_reachable maxBytes onEvicted c \<Longrightarrow> lru_reachable maxBytes onEvicted (snd (lru_Get now k c))"
| lru_step_remove: "lru_reachable maxBytes onEvicted c \<Longrightarrow> lru_reachable maxBytes onEvicted (lru_Remove k c)"
| lru_step_oldest: "lru_reachable maxBytes onEvicted c \<Longrightarrow> lru_reachable maxBytes onEvicted (lru_RemoveOldest c)"
| lru_step_purge: "lru_reachable maxBytes onEvicted c \<Longrightarrow> lru_reachable maxBytes onEvicted (lru_RemoveExpired clk c)"

lemma lru_New_wf: "lru_wf (lru_New m b)"
  by (simp add: lru_wf_def lru_New_def lru_size_def lru_entries_def)

lemma lru_New_ok: "0 \<le> m \<Longrightarrow> lru_ok (lru_New m b)"
  using lru_New_wf [of m b] by (simp add: lru_ok_def lru_New_def)

lemma lru_RemoveOldest_ok: "lru_ok c \<Longrightarrow> lru_ok (lru_RemoveOldest c)"
  using lru_RemoveOldest_eq [of c] lru_Remove_ok [of c]
  by (cases "l_ll c = []") (auto simp: lru_ok_def lru_RemoveOldest_def)

lemma lru_reachable_ok: "lru_reachable m b c \<Longrightarrow> 0 \<le> m \<Longrightarrow> lru_ok c \<and> l_maxBytes c = m"
proof (induction rule: lru_reachable.induct)
  case lru_start
  then show ?case by (simp add: lru_New_ok) (simp add: lru_New_def)
next
  case (lru_step_add c k v now ttl c')
  then show ?case using lru.add_ok by blast
next
  case (lru_step_get c now k)
  then show ?case using lru.get_ok by simp
next
  case (lru_step_remove c k)
  then show ?case by (simp add: lru_Remove_ok)
next
  case (lru_step_oldest c)
  then show ?case by (simp add: lru_RemoveOldest_ok)
next
  case (lru_step_purge c clk)
  then show ?case using lru.purge_ok by simp
qed

section \<open>Properties\<close>

text \<open>
  C2. \<open>AddWithTTL\<close> always returns on a well-formed cache, leaves it well-formed, and
  implements the abstract LRU policy: the new pair becomes the most recently used entry, and what
  remains is the longest prefix of the recency order whose byte cost fits the limit. The callback
  is called exactly once for every dropped entry, the least recently used one first.
\<close>

theorem lru_add_evicts_least_recent:
  assumes "lru_ok c" and "lru_size c + item_cost k v < 2 ^ 63"
  shows "\<exists>c' dropped. lru_AddWithTTL now k v ttl c = Some c' \<and> lru_ok c'
    \<and> lru_entries c' = spec_add (l_maxBytes c) now k v ttl (lru_entries c)
    \<and> spec_put now k v ttl (lru_entries c) = lru_entries c' @ dropped
    \<and> l_evicted c' = l_evicted c @ lru_notified c (rev dropped)"
  using lru_AddWithTTL_returns [OF assms, of now ttl] by blast

theorem lru_add_evicts_least_recent_witness:
  "lru_ok (lru_New 10 True) \<and> (\<exists>c' dropped.
     lru_AddWithTTL 5 ''a'' (bytes_view ''xyz'') 7 (lru_New 10 True) = Some c' \<and> lru_ok c'
     \<and> lru_entries c' = spec_add 10 5 ''a'' (bytes_view ''xyz'') 7 []
     \<and> spec_put 5 ''a'' (bytes_view ''xyz'') 7 [] = lru_entries c' @ dropped
     \<and> l_evicted c' = lru_notified (lru_New 10 True) (rev dropped))"
proof -
  have ok: "lru_ok (lru_New 10 True)" by (simp add: lru_New_ok)
  have "lru_size (lru_New 10 True) + item_cost ''a'' (bytes_view ''xyz'') < 2 ^ 63"
    by (simp add: lru_size_def lru_entries_def lru_New_def item_cost_def ByteView_Len_def)
  from lru_add_evicts_least_recent [OF ok this, of 5 7] ok show ?thesis
    by (simp add: lru_New_def lru_entries_def)
qed

text \<open>
  C19. \<open>Get\<close> implements the abstract policy: a live entry is returned and becomes the most
  recently used one, an expired entry is removed, reported to the callback and not returned, a
  missing key changes nothing; nothing but an expired entry is reported.
\<close>

theorem lru_get_refines_policy:
  assumes "lru_ok c"
  shows "fst (lru_Get now k c) = fst (spec_get now k (lru_entries c))
    \<and> lru_entries (snd (lru_Get now k c)) = snd (spec_get now k (lru_entries c))
    \<and> l_evicted (snd (lru_Get now k c)) = l_evicted c @ lru_notified c (spec_expired now k (lru_entries c))
    \<and> lru_ok (snd (lru_Get now k c))"
  using assms lru_Get_refines [of c now k] lru_Get_reports [of c now k] lru_Get_ok [of c now k] by (simp add: lru_ok_def)

text \<open>An entry added at time 5 for 7 is met by a lookup at 13: it is gone, and reported.\<close>

theorem lru_get_refines_policy_witness:
  "\<exists>c. lru_AddWithTTL 5 ''a'' (bytes_view ''xyz'') 7 (lru_New 10 True) = Some c
     \<and> fst (lru_Get 12 ''a'' c) = Some (bytes_view ''xyz'')
     \<and> fst (lru_Get 13 ''a'' c) = None \<and> lru_entries (snd (lru_Get 13 ''a'' c)) = []
     \<and> l_evicted (snd (lru_Get 13 ''a'' c)) = [(''a'', bytes_view ''xyz'')]"
proof -
  have ok: "lru_ok (lru_New 10 True)" by (simp add: lru_New_ok)
  have "lru_size (lru_New 10 True) + item_cost ''a'' (bytes_view ''xyz'') < 2 ^ 63"
    by (simp add: lru_size_def lru_entries_def lru_New_def item_cost_def ByteView_Len_def)
  then obtain c dropped where r: "lru_AddWithTTL 5 ''a'' (bytes_view ''xyz'') 7 (lru_New 10 True) = Some c" "lru_ok c"
    "l_onEvicted c = l_onEvicted (lru_New 10 True)"
    "lru_entries c = spec_add (l_maxBytes (lru_New 10 True)) 5 ''a'' (bytes_view ''xyz'') 7 (lru_entries (lru_New 10 True))"
    "spec_put 5 ''a'' (bytes_view ''xyz'') 7 (lru_entries (lru_New 10 True)) = lru_entries c @ dropped"
    "l_evicted c = l_evicted (lru_New 10 True) @ lru_notified (lru_New 10 True) (rev dropped)"
    by (rule lru_AddWithTTL_returns [OF ok, where now = 5 and ttl = 7])
  have c: "lru_AddWithTTL 5 ''a'' (bytes_view ''xyz'') 7 (lru_New 10 True) = Some c" "lru_ok c" "l_onEvicted c"
    "lru_entries c = spec_add 10 5 ''a'' (bytes_view ''xyz'') 7 []"
    "spec_put 5 ''a'' (bytes_view ''xyz'') 7 [] = lru_entries c @ dropped"
    "l_evicted c = lru_notified (lru_New 10 True) (rev dropped)"
    using r by (simp_all add: lru_New_def lru_entries_def)
  have es: "lru_entries c = [\<lparr>e_key = ''a'', e_value = bytes_view ''xyz'', e_expireAt = Some 12\<rparr>]"
    using c(4) by (simp add: spec_add_def spec_put_def keep_fit_def entry_cost_def item_cost_def ByteView_Len_def expiry_of_def drop_key_def)
  then have "l_evicted c = []" using c(5,6) by (simp add: spec_put_def drop_key_def lru_notified_def)
  then show ?thesis
    using c(1,3) es lru_get_refines_policy [OF c(2), of 12 "''a''"] lru_get_refines_policy [OF c(2), of 13 "''a''"]
    by (simp add: spec_get_def spec_expired_def find_key_def drop_key_def lru_notified_def)
qed

text \<open>
  C20. In every reachable state the index and the list agree, the byte counter is the true total of
  the keys and values held, and, unless the limit is \<open>0\<close> (unlimited), the total is within it.
\<close>

theorem lru_reachable_within_capacity:
  assumes "lru_reachable maxBytes onEvicted c" and "0 \<le> maxBytes"
  shows "lru_wf c \<and> l_curbytes c = lru_size c \<and> (maxBytes \<noteq> 0 \<longrightarrow> lru_size c \<le> maxBytes)
    \<and> (\<forall>k. l_cache c k = None \<longleftrightarrow> k \<notin> e_key ` set (lru_entries c))"
  using lru_reachable_ok [OF assms] lru_wfD(4) [of c] lru_index_None [of c] by (auto simp: lru_ok_def)

theorem lru_reachable_within_capacity_witness:
  "lru_reachable 4 True (lru_Remove ''k'' (lru_New 4 True)) \<and> lru_size (lru_Remove ''k'' (lru_New 4 True)) \<le> 4"
proof -
  have r: "lru_reachable 4 True (lru_Remove ''k'' (lru_New 4 True))" by (intro lru_step_remove lru_start)
  then show ?thesis using lru_reachable_within_capacity [OF r] by simp
qed

text \<open>
  C38. With a negative limit, \<open>AddWithTTL\<close> never returns: the eviction loop has no exit once the
  list is empty.
\<close>

theorem lru_negative_limit_hangs:
  assumes "lru_wf c" and "l_maxBytes c < 0" and "lru_size c + item_cost k v < 2 ^ 63"
  shows "lru_AddWithTTL now k v ttl c = None"
  unfolding lru_AddWithTTL_def
  by (rule lru_evict_never_returns [OF lru_store_wf [OF assms(1,3)]]) (use assms(2) in simp)

theorem lru_negative_limit_hangs_witness:
  "lru_AddWithTTL 0 ''k'' (bytes_view ''v'') 0 (lru_New (-1) False) = None"
  by (rule lru_negative_limit_hangs [OF lru_New_wf])
    (simp_all add: lru_New_def lru_size_def lru_entries_def item_cost_def ByteView_Len_def)

end
