(* ===== verification/Go_Float.thy ===== *)
theory Go_Float
  imports Prelude "HOL-Library.Log_Nat"
begin

text \<open>
  Go's \<open>float64\<close>: finite values are rationals, and every operation is the exact result
  rounded to the nearest double (ties to even, gradual underflow, overflow to infinity). The
  sign of zero is not represented; no code of the program depends on it.
\<close>

datatype float64 = NaN | Inf bool | Fin rat

text \<open>The binary exponent of a positive rational: \<open>2 powi e \<le> x < 2 powi (e + 1)\<close>.\<close>

definition rat_exponent :: "rat \<Rightarrow> int" where
  "rat_exponent x =
     (let (p, q) = quotient_of x;
          d = int (floorlog 2 (nat p)) - int (floorlog 2 (nat q))
      in if 2 powi d \<le> x then d else d - 1)"

definition round_half_even :: "rat \<Rightarrow> int" where
  "round_half_even y =
     (let f = \<lfloor>y\<rfloor>; d = y - of_int f
      in if d < 1/2 then f else if 1/2 < d then f + 1 else if even f then f else f + 1)"

definition f64_quantum :: "rat \<Rightarrow> rat" where
  "f64_quantum x = 2 powi (max (rat_exponent \<bar>x\<bar> - 52) (-1074))"

definition f64_round :: "rat \<Rightarrow> float64" where
  "f64_round x =
     (if x = 0 then Fin 0
      else let r = of_int (round_half_even (x / f64_quantum x)) * f64_quantum x
           in if 2 ^ 1024 \<le> \<bar>r\<bar> then Inf (x < 0) else Fin r)"

definition f64_of_int :: "int \<Rightarrow> float64" where
  "f64_of_int n = f64_round (of_int n)"

definition f64_le :: "float64 \<Rightarrow> float64 \<Rightarrow> bool" where
  "f64_le a b = (case (a, b) of
     (NaN, _) \<Rightarrow> False | (_, NaN) \<Rightarrow> False
   | (Inf n, Inf m) \<Rightarrow> n \<or> \<not> m
   | (Inf n, Fin _) \<Rightarrow> n | (Fin _, Inf m) \<Rightarrow> \<not> m
   | (Fin x, Fin y) \<Rightarrow> x \<le> y)"

definition f64_mul :: "float64 \<Rightarrow> float64 \<Rightarrow> float64" where
  "f64_mul a b = (case (a, b) of
     (NaN, _) \<Rightarrow> NaN | (_, NaN) \<Rightarrow> NaN
   | (Inf n, Inf m) \<Rightarrow> Inf (n \<noteq> m)
   | (Inf n, Fin y) \<Rightarrow> if y = 0 then NaN else Inf (n \<noteq> (y < 0))
   | (Fin x, Inf m) \<Rightarrow> if x = 0 then NaN else Inf ((x < 0) \<noteq> m)
   | (Fin x, Fin y) \<Rightarrow> f64_round (x * y))"

text \<open>A divisor of zero is taken as positive zero; every division of the program has a positive divisor.\<close>

definition f64_div :: "float64 \<Rightarrow> float64 \<Rightarrow> float64" where
  "f64_div a b = (case (a, b) of
     (NaN, _) \<Rightarrow> NaN | (_, NaN) \<Rightarrow> NaN
   | (Inf n, Inf m) \<Rightarrow> NaN
   | (Inf n, Fin y) \<Rightarrow> Inf (n \<noteq> (y < 0))
   | (Fin x, Inf m) \<Rightarrow> Fin 0
   | (Fin x, Fin y) \<Rightarrow>
       if y = 0 then (if x = 0 then NaN else Inf (x < 0)) else f64_round (x / y))"

definition f64_add :: "float64 \<Rightarrow> float64 \<Rightarrow> float64" where
  "f64_add a b = (case (a, b) of
     (NaN, _) \<Rightarrow> NaN | (_, NaN) \<Rightarrow> NaN
   | (Inf n, Inf m) \<Rightarrow> if n = m then Inf n else NaN
   | (Inf n, Fin _) \<Rightarrow> Inf n | (Fin _, Inf m) \<Rightarrow> Inf m
   | (Fin x, Fin y) \<Rightarrow> f64_round (x + y))"

definition f64_ceil :: "float64 \<Rightarrow> float64" where
  "f64_ceil a = (case a of Fin x \<Rightarrow> Fin (of_int \<lceil>x\<rceil>) | _ \<Rightarrow> a)"

text \<open>
  The conversion \<open>int64(f)\<close> truncates towards zero. For NaN and out-of-range values the
  language leaves the result to the implementation; the model has the value of amd64.
\<close>

definition rat_trunc :: "rat \<Rightarrow> int" where
  "rat_trunc x = (if 0 \<le> x then \<lfloor>x\<rfloor> else \<lceil>x\<rceil>)"

definition f64_to_i64 :: "float64 \<Rightarrow> int" where
  "f64_to_i64 a = (case a of
     Fin x \<Rightarrow> if in_i64 (rat_trunc x) then rat_trunc x else - (2 ^ 63)
   | _ \<Rightarrow> - (2 ^ 63))"

lemma round_half_even_le: "y \<le> of_int n \<Longrightarrow> round_half_even y \<le> n"
proof -
  assume le: "y \<le> of_int n"
  then have "\<lfloor>y\<rfloor> \<le> n" by (simp add: floor_le_iff)
  moreover have "y - of_int \<lfloor>y\<rfloor> \<le> 0" if "\<lfloor>y\<rfloor> = n" using that le by simp
  ultimately show ?thesis unfolding round_half_even_def by (cases "\<lfloor>y\<rfloor> = n") auto
qed

lemma round_half_even_ge: "of_int n \<le> y \<Longrightarrow> n \<le> round_half_even y"
proof -
  assume "of_int n \<le> y"
  then have "n \<le> \<lfloor>y\<rfloor>" by (simp add: le_floor_iff)
  then show ?thesis by (auto simp: round_half_even_def)
qed

lemma round_half_even_int [simp]: "round_half_even (of_int n) = n"
  by (simp add: round_half_even_def)

lemma f64_quantum_pos [simp]: "0 < f64_quantum x"
  by (simp add: f64_quantum_def)

lemma f64_quantum_nonzero [simp]: "f64_quantum x \<noteq> 0"
  using f64_quantum_pos [of x] by linarith

lemma rat_exponent_lower:
  assumes "0 < x"
  shows "2 powi (rat_exponent x) \<le> x"
proof -
  obtain p q where pq: "quotient_of x = (p, q)" by force
  have q: "0 < q" using quotient_of_denom_pos [OF pq] .
  have x: "x = of_int p / of_int q" using quotient_of_div [OF pq] .
  have p: "0 < p" using assms q unfolding x by (simp add: zero_less_divide_iff)
  define a b where "a = floorlog 2 (nat p)" and "b = floorlog 2 (nat q)"
  have "2 ^ (a - 1) \<le> nat p" "0 < a"
    using floorlog_bounds [of "nat p" 2] p by (auto simp: a_def floorlog_def)
  then have lo: "2 ^ (a - 1) \<le> p" using p by (simp add: le_nat_iff)
  have "nat q < 2 ^ b" using floorlog_bounds [of "nat q" 2] q by (simp add: b_def)
  then have hi: "q < 2 ^ b" using q by (simp add: nat_less_iff)
  have "(2::rat) ^ (a - 1) / 2 ^ b \<le> of_int p / of_int q"
  proof (rule frac_le)
    show "(2::rat) ^ (a - 1) \<le> of_int p" using lo by (metis of_int_le_iff of_int_numeral of_int_power)
    show "of_int q \<le> (2::rat) ^ b" using hi by (metis less_imp_le of_int_le_iff of_int_numeral of_int_power)
  qed (use q p in auto)
  moreover have "(2::rat) ^ (a - 1) / 2 ^ b = 2 powi (int a - int b - 1)"
  proof -
    have "int a - int b - 1 = int (a - 1) - int b" using \<open>0 < a\<close> by simp
    moreover have "(2::rat) powi (int (a - 1) - int b) = 2 powi int (a - 1) / 2 powi int b"
      by (rule power_int_diff) simp
    ultimately show ?thesis by (simp only: power_int_of_nat)
  qed
  ultimately have "2 powi (int a - int b - 1) \<le> x" by (simp add: x)
  then show ?thesis by (auto simp: rat_exponent_def pq a_def [symmetric] b_def [symmetric])
qed

text \<open>
  An integer up to \<open>2 ^ 53\<close> is a multiple of the quantum of every smaller positive number, so
  rounding does not step over it.
\<close>

lemma quantum_divides:
  assumes "0 < x" and "x \<le> of_int M" and "M \<le> 2 ^ 53"
  shows "\<exists>n. of_int M / f64_quantum x = of_int n"
proof -
  define e where "e = rat_exponent x"
  have lo: "2 powi e \<le> x" unfolding e_def by (rule rat_exponent_lower [OF assms(1)])
  have M: "of_int M \<le> (2 ^ 53 :: rat)" using assms(3) by (metis of_int_le_iff of_int_numeral of_int_power)
  have q: "f64_quantum x = 2 powi (max (e - 52) (-1074))"
    using assms(1) by (simp add: f64_quantum_def e_def)
  show ?thesis
  proof (cases "e \<le> 52")
    case True
    define k where "k = nat (- max (e - 52) (-1074))"
    have "max (e - 52) (-1074) = - int k" using True by (simp add: k_def)
    then have "f64_quantum x = inverse (2 ^ k)" by (simp add: q power_int_minus)
    then have "of_int M / f64_quantum x = of_int (M * 2 ^ k)" by (simp add: divide_inverse)
    then show ?thesis by blast
  next
    case False
    have "(2::rat) powi e \<le> 2 powi 53" using lo assms(2) M by simp
    moreover have "(2::rat) powi 53 < 2 powi e" if "53 < e"
      using that by (intro power_int_strict_increasing) auto
    ultimately have "e = 53" using False by linarith
    then have "of_int M = (2 ^ 53 :: rat)" using lo assms(2) M by simp
    moreover have "f64_quantum x = 2" using \<open>e = 53\<close> by (simp add: q)
    ultimately have "of_int M / f64_quantum x = of_int (2 ^ 52)" by simp
    then show ?thesis by blast
  qed
qed

lemma f64_round_le:
  assumes "0 < x" and "x \<le> of_int M" and "M \<le> 2 ^ 53"
  shows "\<exists>r. f64_round x = Fin r \<and> 0 \<le> r \<and> r \<le> of_int M"
proof -
  let ?q = "f64_quantum x"
  let ?n = "round_half_even (x / ?q)"
  obtain m where m: "of_int M / ?q = of_int m" using quantum_divides [OF assms] by blast
  have "x / ?q \<le> of_int m" using assms(2) by (simp add: m [symmetric] divide_right_mono less_imp_le)
  then have "of_int ?n \<le> (of_int m :: rat)" by (simp add: round_half_even_le)
  then have "of_int ?n * ?q \<le> of_int m * ?q" by (simp add: mult_right_mono less_imp_le)
  also have "\<dots> = of_int M" by (simp add: m [symmetric])
  finally have hi: "of_int ?n * ?q \<le> of_int M" .
  have "0 \<le> ?n" using assms(1) by (intro round_half_even_ge) (simp add: less_imp_le)
  then have lo: "0 \<le> of_int ?n * ?q" by (simp add: less_imp_le)
  have "of_int M \<le> (2 ^ 53 :: rat)" using assms(3) by (metis of_int_le_iff of_int_numeral of_int_power)
  also have "\<dots> < 2 ^ 1024" by simp
  finally show ?thesis using assms(1) lo hi by (simp add: f64_round_def)
qed

lemma f64_of_int_exact:
  assumes "0 < n" and "n \<le> 2 ^ 53"
  shows "f64_of_int n = Fin (of_int n)"
proof -
  let ?x = "of_int n :: rat"
  obtain m where m: "?x / f64_quantum ?x = of_int m"
    using quantum_divides [of ?x n] assms by auto
  then have "?x = of_int m * f64_quantum ?x"
    by (metis f64_quantum_pos less_irrefl nonzero_eq_divide_eq)
  then have "of_int (round_half_even (?x / f64_quantum ?x)) * f64_quantum ?x = ?x"
    by (simp add: m)
  moreover have "?x \<le> 2 ^ 53" using assms(2) by (metis of_int_le_iff of_int_numeral of_int_power)
  then have "\<not> (2 ^ 1024 \<le> ?x)" by (auto simp: not_le intro: le_less_trans)
  ultimately show ?thesis using assms(1) by (simp add: f64_of_int_def f64_round_def)
qed

text \<open>The rounding error is at most half a unit in the last place.\<close>

lemma round_half_even_error: "\<bar>of_int (round_half_even y) - y\<bar> \<le> 1 / 2"
proof -
  have "of_int \<lfloor>y\<rfloor> \<le> y" and "y < of_int \<lfloor>y\<rfloor> + 1" by linarith+
  then show ?thesis by (auto simp: round_half_even_def abs_le_iff)
qed

lemma f64_round_error:
  assumes "1 / 2 \<le> x" and "f64_round x = Fin r"
  shows "\<bar>r - x\<bar> \<le> x / 2 ^ 53"
proof -
  let ?q = "f64_quantum x" and ?n = "round_half_even (x / f64_quantum x)"
  have pos: "0 < x" using assms(1) by linarith
  have r: "r = of_int ?n * ?q" using assms pos by (auto simp: f64_round_def split: if_splits)
  have "\<bar>of_int ?n - x / ?q\<bar> * ?q \<le> 1 / 2 * ?q"
    using round_half_even_error [of "x / ?q"] by (intro mult_right_mono) (simp_all add: less_imp_le)
  then have "\<bar>(of_int ?n - x / ?q) * ?q\<bar> \<le> ?q / 2"
    by (simp only: abs_mult abs_of_pos [OF f64_quantum_pos])
  then have err: "\<bar>r - x\<bar> \<le> ?q / 2" by (simp add: r left_diff_distrib)
  have "?q \<le> x / 2 ^ 52"
  proof (cases "rat_exponent x - 52 \<ge> -1074")
    case True
    have "(2::rat) powi (rat_exponent x - 52) = 2 powi (rat_exponent x) / 2 powi 52"
      by (rule power_int_diff) simp
    then have "?q = 2 powi (rat_exponent x) / 2 ^ 52" using True pos by (simp add: f64_quantum_def)
    then show ?thesis using rat_exponent_lower [OF pos] by (simp add: divide_right_mono)
  next
    case False
    then have "?q = 2 powi (-1074)" using pos by (simp add: f64_quantum_def)
    also have "\<dots> \<le> (2::rat) powi (-53)" by (rule power_int_increasing) simp_all
    also have "\<dots> \<le> x / 2 ^ 52" using assms(1) by (simp add: power_int_minus field_simps)
    finally show ?thesis .
  qed
  then show ?thesis using err by simp
qed

text \<open>The exponent is determined by its bounds, which gives the value of a concrete rounding.\<close>

lemma rat_exponent_upper:
  assumes "0 < x"
  shows "x < 2 powi (rat_exponent x + 1)"
proof -
  obtain p q where pq: "quotient_of x = (p, q)" by force
  have q: "0 < q" using quotient_of_denom_pos [OF pq] .
  have x: "x = of_int p / of_int q" using quotient_of_div [OF pq] .
  have p: "0 < p" using assms q unfolding x by (simp add: zero_less_divide_iff)
  define a b where "a = floorlog 2 (nat p)" and "b = floorlog 2 (nat q)"
  have "2 ^ (b - 1) \<le> nat q" and b: "0 < b"
    using floorlog_bounds [of "nat q" 2] q by (auto simp: b_def floorlog_def)
  then have "2 ^ (b - 1) \<le> q" using q by (simp add: le_nat_iff)
  then have lo: "(2::rat) ^ (b - 1) \<le> of_int q" by (metis of_int_le_iff of_int_numeral of_int_power)
  have "nat p < 2 ^ a" using floorlog_bounds [of "nat p" 2] p by (simp add: a_def)
  then have "p < 2 ^ a" using p by (simp add: nat_less_iff)
  then have hi: "of_int p < (2::rat) ^ a" by (metis of_int_less_iff of_int_numeral of_int_power)
  have "of_int p / of_int q < (2::rat) ^ a / 2 ^ (b - 1)"
    using p lo hi by (intro frac_less) auto
  also have "\<dots> = 2 powi (int a - int b + 1)"
  proof -
    have "int a - int b + 1 = int a - int (b - 1)" using b by simp
    moreover have "(2::rat) powi (int a - int (b - 1)) = 2 powi int a / 2 powi int (b - 1)"
      by (rule power_int_diff) simp
    ultimately show ?thesis by (simp only: power_int_of_nat)
  qed
  finally have "x < 2 powi (int a - int b + 1)" by (simp add: x)
  then show ?thesis by (auto simp: rat_exponent_def pq a_def [symmetric] b_def [symmetric])
qed

lemma rat_exponent_unique:
  assumes "2 powi e \<le> x" and "x < 2 powi (e + 1)"
  shows "rat_exponent x = e"
proof -
  have pos: "0 < x" using zero_less_power_int [of "2::rat" e] assms(1) by linarith
  have step: "e' < e + 1" if "2 powi e' < (2::rat) powi (e + 1)" for e e' :: int
    using that power_int_increasing [of "e + 1" e' "2::rat"] by (cases "e' < e + 1") auto
  have "(2::rat) powi rat_exponent x < 2 powi (e + 1)"
    using rat_exponent_lower [OF pos] assms(2) by simp
  moreover have "(2::rat) powi e < 2 powi (rat_exponent x + 1)"
    using rat_exponent_upper [OF pos] assms(1) by simp
  ultimately show ?thesis using step [of "rat_exponent x" e] step [of e "rat_exponent x"] by simp
qed

lemma f64_round_at:
  assumes "2 powi e \<le> x" and "x < 2 powi (e + 1)" and "- 1022 \<le> e" and "e \<le> 0"
    and "\<bar>of_int m - x * 2 powi (52 - e)\<bar> < 1 / 2"
  shows "f64_round x = Fin (of_int m / 2 powi (52 - e))"
proof -
  have pos: "0 < x" using zero_less_power_int [of "2::rat" e] assms(1) by linarith
  have q: "f64_quantum x = inverse (2 powi (52 - e))"
    using pos assms(3) rat_exponent_unique [OF assms(1,2)]
    by (simp add: f64_quantum_def flip: power_int_minus)
  have "round_half_even (x * 2 powi (52 - e)) = m"
  proof -
    have m: "of_int m - 1 / 2 < x * 2 powi (52 - e)" "x * 2 powi (52 - e) < of_int m + 1 / 2"
      using assms(5) by (simp_all only: abs_less_iff) linarith+
    let ?y = "x * 2 powi (52 - e)"
    have "\<lfloor>?y\<rfloor> = m \<or> \<lfloor>?y\<rfloor> = m - 1" using m by linarith
    then show ?thesis using m by (auto simp: round_half_even_def)
  qed
  then have n: "round_half_even (x / f64_quantum x) = m" by (simp add: q field_simps)
  have "x < 2" using assms(2,4) power_int_increasing [of "e + 1" 1 "2::rat"] by simp
  have small: "\<exists>r. f64_round x = Fin r" using f64_round_le [of x 2] pos \<open>x < 2\<close> by auto
  then show ?thesis using pos n by (auto simp: f64_round_def q divide_inverse split: if_splits)
qed

text \<open>No quantum is larger than the number, so that numbers far from overflow stay finite.\<close>

lemma f64_quantum_le: "x \<noteq> 0 \<Longrightarrow> f64_quantum x \<le> max \<bar>x\<bar> (2 powi (-1074))"
proof -
  assume "x \<noteq> 0"
  then have "2 powi (rat_exponent \<bar>x\<bar>) \<le> \<bar>x\<bar>" by (intro rat_exponent_lower) simp
  moreover have "(2::rat) powi (rat_exponent \<bar>x\<bar> - 52) \<le> 2 powi (rat_exponent \<bar>x\<bar>)" by (intro power_int_increasing) auto
  ultimately show ?thesis by (auto simp: f64_quantum_def max_def)
qed

lemma f64_round_near:
  assumes "x \<noteq> 0" and "\<bar>x\<bar> \<le> 2 ^ 1000"
  shows "\<exists>r. f64_round x = Fin r \<and> \<bar>r - x\<bar> \<le> f64_quantum x / 2 \<and> \<bar>r\<bar> \<le> 2 * \<bar>x\<bar> + 1"
proof -
  define r where "r = of_int (round_half_even (x / f64_quantum x)) * f64_quantum x"
  have "r - x = (of_int (round_half_even (x / f64_quantum x)) - x / f64_quantum x) * f64_quantum x"
    by (simp add: r_def left_diff_distrib)
  then have "\<bar>r - x\<bar> = \<bar>of_int (round_half_even (x / f64_quantum x)) - x / f64_quantum x\<bar> * f64_quantum x"
    by (simp add: abs_mult less_imp_le)
  also have "\<dots> \<le> 1 / 2 * f64_quantum x" by (intro mult_right_mono round_half_even_error) (simp add: less_imp_le)
  finally have near: "\<bar>r - x\<bar> \<le> f64_quantum x / 2" by simp
  have "(2::rat) powi (-1074) \<le> 1" by (simp add: power_int_minus)
  then have "f64_quantum x \<le> \<bar>x\<bar> + 1" using f64_quantum_le [OF assms(1)] by linarith
  then have r: "\<bar>r\<bar> \<le> 2 * \<bar>x\<bar> + 1" using near by linarith
  have "(2::rat) * 2 ^ 1000 + 1 < 2 ^ 1024" by simp
  then have "\<not> 2 ^ 1024 \<le> \<bar>r\<bar>" using r assms(2) by linarith
  then have "f64_round x = Fin r" using assms(1) by (simp add: f64_round_def r_def Let_def)
  then show ?thesis using near r by blast
qed

lemma f64_round_finite: "\<bar>x\<bar> \<le> 2 ^ 1000 \<Longrightarrow> \<exists>r. f64_round x = Fin r \<and> \<bar>r\<bar> \<le> 2 * \<bar>x\<bar> + 1"
  using f64_round_near [of x] by (cases "x = 0") (auto simp: f64_round_def)

lemma f64_of_int_pos:
  assumes "1 \<le> n" and "n \<le> 2 ^ 1000"
  shows "\<exists>r. f64_of_int n = Fin r \<and> 1 / 2 \<le> r"
proof -
  have "of_int n \<le> (of_int (2 ^ 1000) :: rat)" using assms(2) by (simp only: of_int_le_iff)
  then have n: "(1::rat) \<le> of_int n" "of_int n \<le> (2 ^ 1000 :: rat)"
    using assms(1) by (simp_all only: of_int_power of_int_numeral of_int_1_le_iff)
  then obtain r where r: "f64_round (of_int n) = Fin r" "\<bar>r - of_int n\<bar> \<le> f64_quantum (of_int n) / 2"
    using f64_round_near [of "of_int n"] by auto
  have "(2::rat) powi (-1074) \<le> 1" by (simp add: power_int_minus)
  then have "f64_quantum (of_int n) \<le> (of_int n :: rat)" using f64_quantum_le [of "of_int n"] n by auto
  then have "1 / 2 \<le> r" using r(2) n(1) by linarith
  then show ?thesis using r(1) by (simp add: f64_of_int_def)
qed

end
