(* ===== verification/Slru.thy ===== *)
theory Slru
  imports Lru Go_Float
begin

text \<open>
  \<^verbatim>\<open>internal/lru/slru.go\<close>: the segmented LRU cache. As in the LRU model, the two lists are
  sequences of element addresses, entries are reached through a heap, and moving an entry to the
  other segment allocates a new element, as \<open>PushFront\<close> does.
\<close>

section \<open>Model\<close>

datatype segment = segProbation | segProtected

record slruEntry =
  se_key :: string
  se_value :: ByteView
  se_expireAt :: expiry
  se_seg :: segment

definition nil_slruEntry :: slruEntry where
  "nil_slruEntry = \<lparr>se_key = [], se_value = zero_view, se_expireAt = None, se_seg = segProbation\<rparr>"

record slruCache =
  s_maxBytes :: int
  s_curbytes :: int
  s_probationBytes :: int
  s_protectedBytes :: int
  s_protectedRatio :: float64
  s_probation :: "elem list"
  s_protected :: "elem list"
  s_cache :: "string \<rightharpoonup> elem"
  s_onEvicted :: bool
  s_heap :: "elem \<Rightarrow> slruEntry"
  s_next :: elem
  s_evicted :: "(string \<times> ByteView) list"

definition defaultProtectedRatio :: float64 where
  "defaultProtectedRatio = f64_round (8 / 10)"

definition slru_New :: "int \<Rightarrow> float64 \<Rightarrow> bool \<Rightarrow> slruCache" where
  "slru_New maxBytes protectedRatio onEvicted =
     (let protectedRatio =
        (if f64_le protectedRatio (Fin 0) \<or> f64_le (Fin 1) protectedRatio
         then defaultProtectedRatio else protectedRatio)
      in \<lparr>s_maxBytes = maxBytes, s_curbytes = 0, s_probationBytes = 0, s_protectedBytes = 0,
          s_protectedRatio = protectedRatio, s_probation = [], s_protected = [],
          s_cache = Map.empty, s_onEvicted = onEvicted, s_heap = (\<lambda>_. nil_slruEntry),
          s_next = 0, s_evicted = []\<rparr>)"

definition slru_cost :: "slruEntry \<Rightarrow> int" where
  "slru_cost kv = i64 (int (length (se_key kv)) + ByteView_Len (se_value kv))"

definition slru_callback :: "string \<Rightarrow> ByteView \<Rightarrow> slruCache \<Rightarrow> slruCache" where
  "slru_callback k v c = (if s_onEvicted c then c\<lparr>s_evicted := s_evicted c @ [(k, v)]\<rparr> else c)"

definition slru_removeElement :: "elem \<Rightarrow> bool \<Rightarrow> slruCache \<Rightarrow> slruCache" where
  "slru_removeElement ele evict c =
     (let kv = s_heap c ele;
          cost = slru_cost kv;
          c = (if se_seg kv = segProtected
               then c\<lparr>s_protected := list_Remove ele (s_protected c),
                      s_protectedBytes := i64 (s_protectedBytes c - cost)\<rparr>
               else c\<lparr>s_probation := list_Remove ele (s_probation c),
                      s_probationBytes := i64 (s_probationBytes c - cost)\<rparr>);
          c = c\<lparr>s_cache := (s_cache c)(se_key kv := None),
                s_curbytes := i64 (s_curbytes c - cost)\<rparr>
      in if evict then slru_callback (se_key kv) (se_value kv) c else c)"

definition slru_protectedMaxBytes :: "slruCache \<Rightarrow> int" where
  "slru_protectedMaxBytes c =
     (let protectedMax = f64_to_i64 (f64_mul (f64_of_int (s_maxBytes c)) (s_protectedRatio c))
      in if protectedMax \<le> 0 then 1 else protectedMax)"

definition slru_demote :: "elem \<Rightarrow> slruCache \<Rightarrow> slruCache" where
  "slru_demote ele c =
     (let kv = s_heap c ele;
          cost = slru_cost kv;
          c = c\<lparr>s_protected := list_Remove ele (s_protected c),
                s_protectedBytes := i64 (s_protectedBytes c - cost)\<rparr>;
          kv = kv\<lparr>se_seg := segProbation\<rparr>;
          newEle = s_next c;
          c = c\<lparr>s_next := Suc newEle, s_heap := (s_heap c)(newEle := kv),
                s_probation := list_PushFront newEle (s_probation c)\<rparr>
      in c\<lparr>s_cache := (s_cache c)(se_key kv \<mapsto> newEle),
           s_probationBytes := i64 (s_probationBytes c + cost)\<rparr>)"

text \<open>The loop of \<open>enforceProtectedLimit\<close>: every iteration shortens the protected list.\<close>

function slru_demote_loop :: "int \<Rightarrow> slruCache \<Rightarrow> slruCache" where
  "slru_demote_loop protectedMax c =
     (if s_protectedBytes c > protectedMax \<and> length (s_protected c) > 0
      then slru_demote_loop protectedMax (slru_demote (last (s_protected c)) c)
      else c)"
  by pat_completeness auto
termination
  by (relation "measure (\<lambda>(_, c). length (s_protected c))")
    (auto simp: slru_demote_def list_Remove_def intro!: length_removeAll_less)

declare slru_demote_loop.simps [simp del]

definition slru_enforceProtectedLimit :: "slruCache \<Rightarrow> slruCache" where
  "slru_enforceProtectedLimit c =
     (if s_maxBytes c \<le> 0 then c else slru_demote_loop (slru_protectedMaxBytes c) c)"

text \<open>
  The loop of \<open>enforceTotalLimit\<close> removes an element of one of the two lists in every
  iteration, so it runs at most as often as there are elements; \<open>slru_enforceTotalLimit_unfold\<close>
  below shows that this bound never cuts it short.
\<close>

primrec slru_evict_loop :: "nat \<Rightarrow> slruCache \<Rightarrow> slruCache" where
  "slru_evict_loop 0 c = c"
| "slru_evict_loop (Suc n) c =
     (if s_maxBytes c \<noteq> 0 \<and> s_curbytes c > s_maxBytes c then
        (case list_Back (s_probation c) of
           Some ele \<Rightarrow> slru_evict_loop n (slru_removeElement ele True c)
         | None \<Rightarrow>
             (case list_Back (s_protected c) of
                Some ele \<Rightarrow> slru_evict_loop n (slru_removeElement ele True c)
              | None \<Rightarrow> c))
      else c)"

definition slru_enforceTotalLimit :: "slruCache \<Rightarrow> slruCache" where
  "slru_enforceTotalLimit c =
     slru_evict_loop (length (s_probation c) + length (s_protected c)) c"

definition slru_to_protected :: "elem \<Rightarrow> slruCache \<Rightarrow> slruCache" where
  "slru_to_protected ele c =
     (let kv = s_heap c ele;
          cost = slru_cost kv;
          c = c\<lparr>s_probation := list_Remove ele (s_probation c),
                s_probationBytes := i64 (s_probationBytes c - cost)\<rparr>;
          kv = kv\<lparr>se_seg := segProtected\<rparr>;
          newEle = s_next c;
          c = c\<lparr>s_next := Suc newEle, s_heap := (s_heap c)(newEle := kv),
                s_protected := list_PushFront newEle (s_protected c)\<rparr>
      in c\<lparr>s_cache := (s_cache c)(se_key kv \<mapsto> newEle),
           s_protectedBytes := i64 (s_protectedBytes c + cost)\<rparr>)"

definition slru_promote :: "elem \<Rightarrow> slruCache \<Rightarrow> slruCache" where
  "slru_promote ele c =
     slru_enforceTotalLimit (slru_enforceProtectedLimit (slru_to_protected ele c))"

definition slru_Get :: "time \<Rightarrow> string \<Rightarrow> slruCache \<Rightarrow> ByteView option \<times> slruCache" where
  "slru_Get now key c = (case s_cache c key of
     Some ele \<Rightarrow>
       let kv = s_heap c ele in
       if expired now (se_expireAt kv) then (None, slru_removeElement ele True c)
       else if se_seg kv = segProtected then
         (Some (se_value kv),
          if Some ele \<noteq> list_Front (s_protected c)
          then c\<lparr>s_protected := list_MoveToFront ele (s_protected c)\<rparr> else c)
       else (Some (se_value kv), slru_promote ele c)
   | None \<Rightarrow> (None, c))"

definition slru_RemoveOldest :: "slruCache \<Rightarrow> slruCache" where
  "slru_RemoveOldest c = (case list_Back (s_probation c) of
     Some ele \<Rightarrow> slru_removeElement ele True c
   | None \<Rightarrow> (case list_Back (s_protected c) of
       Some ele \<Rightarrow> slru_removeElement ele True c
     | None \<Rightarrow> c))"

definition slru_update :: "elem \<Rightarrow> ByteView \<Rightarrow> expiry \<Rightarrow> slruCache \<Rightarrow> slruCache" where
  "slru_update ele value expireAt c =
     (let kv = s_heap c ele;
          oldCost = slru_cost kv;
          kv = kv\<lparr>se_value := value, se_expireAt := expireAt\<rparr>;
          c = c\<lparr>s_heap := (s_heap c)(ele := kv)\<rparr>;
          newCost = slru_cost kv;
          delta = i64 (newCost - oldCost);
          c = c\<lparr>s_curbytes := i64 (s_curbytes c + delta)\<rparr>
      in if se_seg kv = segProtected then
           let c = c\<lparr>s_protectedBytes := i64 (s_protectedBytes c + delta)\<rparr>
           in if Some ele \<noteq> list_Front (s_protected c)
              then c\<lparr>s_protected := list_MoveToFront ele (s_protected c)\<rparr> else c
         else
           let c = c\<lparr>s_probationBytes := i64 (s_probationBytes c + delta)\<rparr>
           in if Some ele \<noteq> list_Front (s_probation c)
              then c\<lparr>s_probation := list_MoveToFront ele (s_probation c)\<rparr> else c)"

definition slru_insert :: "string \<Rightarrow> ByteView \<Rightarrow> expiry \<Rightarrow> slruCache \<Rightarrow> slruCache" where
  "slru_insert key value expireAt c =
     (let kv = \<lparr>se_key = key, se_value = value, se_expireAt = expireAt, se_seg = segProbation\<rparr>;
          ele = s_next c;
          c = c\<lparr>s_next := Suc ele, s_heap := (s_heap c)(ele := kv),
                s_probation := list_PushFront ele (s_probation c)\<rparr>;
          c = c\<lparr>s_cache := (s_cache c)(key \<mapsto> ele)\<rparr>;
          cost = slru_cost kv
      in c\<lparr>s_curbytes := i64 (s_curbytes c + cost),
           s_probationBytes := i64 (s_probationBytes c + cost)\<rparr>)"

definition slru_AddWithTTL ::
  "time \<Rightarrow> string \<Rightarrow> ByteView \<Rightarrow> duration \<Rightarrow> slruCache \<Rightarrow> slruCache" where
  "slru_AddWithTTL now key value ttl c =
     (let expireAt = (if ttl > 0 then Some (now + ttl) else None) in
      case s_cache c key of
        Some ele \<Rightarrow>
          slru_enforceTotalLimit (slru_enforceProtectedLimit (slru_update ele value expireAt c))
      | None \<Rightarrow> slru_enforceTotalLimit (slru_insert key value expireAt c))"

definition slru_Add :: "time \<Rightarrow> string \<Rightarrow> ByteView \<Rightarrow> slruCache \<Rightarrow> slruCache" where
  "slru_Add now key value c = slru_AddWithTTL now key value 0 c"

definition slru_Remove :: "string \<Rightarrow> slruCache \<Rightarrow> slruCache" where
  "slru_Remove key c = (case s_cache c key of
     Some ele \<Rightarrow> slru_removeElement ele True c
   | None \<Rightarrow> c)"

text \<open>\<open>RemoveExpired\<close> reads the clock once and walks both lists from the back.\<close>

primrec slru_expire_walk :: "time \<Rightarrow> elem list \<Rightarrow> slruCache \<Rightarrow> slruCache" where
  "slru_expire_walk now [] c = c"
| "slru_expire_walk now (ele # prevs) c =
     (let kv = s_heap c ele in
      slru_expire_walk now prevs
        (if expired now (se_expireAt kv) then slru_removeElement ele True c else c))"

definition slru_RemoveExpired :: "time \<Rightarrow> slruCache \<Rightarrow> slruCache" where
  "slru_RemoveExpired now c =
     (let c = slru_expire_walk now (rev (s_probation c)) c
      in slru_expire_walk now (rev (s_protected c)) c)"

definition slru_Len :: "slruCache \<Rightarrow> int" where
  "slru_Len c = int (card (dom (s_cache c)))"

section \<open>Well-formed caches\<close>

definition scost :: "slruEntry \<Rightarrow> int" where
  "scost kv = item_cost (se_key kv) (se_value kv)"

definition slru_sum :: "slruCache \<Rightarrow> elem list \<Rightarrow> int" where
  "slru_sum c l = sum_of (\<lambda>e. scost (s_heap c e)) l"

definition slru_size :: "slruCache \<Rightarrow> int" where
  "slru_size c = slru_sum c (s_probation c) + slru_sum c (s_protected c)"

text \<open>
  Both lists hold different elements, each under its own key in the index and with its segment
  recorded in the entry; the three byte counters are the true totals, which an \<open>int64\<close> can hold.
\<close>

definition slru_index_ok :: "slruCache \<Rightarrow> bool" where
  "slru_index_ok c \<longleftrightarrow> distinct (s_probation c @ s_protected c)
     \<and> (\<forall>e\<in>set (s_probation c) \<union> set (s_protected c). e < s_next c)
     \<and> (\<forall>k e. s_cache c k = Some e \<longleftrightarrow>
          e \<in> set (s_probation c) \<union> set (s_protected c) \<and> se_key (s_heap c e) = k)
     \<and> (\<forall>e\<in>set (s_probation c). se_seg (s_heap c e) = segProbation)
     \<and> (\<forall>e\<in>set (s_protected c). se_seg (s_heap c e) = segProtected)"

definition slru_bytes_ok :: "slruCache \<Rightarrow> bool" where
  "slru_bytes_ok c \<longleftrightarrow> s_probationBytes c = slru_sum c (s_probation c)
     \<and> s_protectedBytes c = slru_sum c (s_protected c)
     \<and> s_curbytes c = slru_size c \<and> slru_size c < 2 ^ 63"

definition slru_wf :: "slruCache \<Rightarrow> bool" where
  "slru_wf c \<longleftrightarrow> slru_index_ok c \<and> slru_bytes_ok c"

definition slru_ok :: "slruCache \<Rightarrow> bool" where
  "slru_ok c \<longleftrightarrow> slru_wf c \<and> 0 \<le> s_maxBytes c
     \<and> (s_maxBytes c \<noteq> 0 \<longrightarrow> s_curbytes c \<le> s_maxBytes c \<and> s_protectedBytes c \<le> slru_protectedMaxBytes c)"

definition slru_lookup :: "slruCache \<Rightarrow> string \<Rightarrow> (ByteView \<times> expiry) option" where
  "slru_lookup c k = map_option (\<lambda>e. (se_value (s_heap c e), se_expireAt (s_heap c e))) (s_cache c k)"

lemma scost_nonneg [simp]: "0 \<le> scost kv"
  by (simp add: scost_def)

lemma scost_seg [simp]: "scost (kv\<lparr>se_seg := g\<rparr>) = scost kv"
  by (simp add: scost_def)

lemma slru_sum_nonneg [simp]: "0 \<le> slru_sum c l"
  unfolding slru_sum_def by (rule total_nonneg) simp

lemma slru_size_nonneg [simp]: "0 \<le> slru_size c"
  by (simp add: slru_size_def add_nonneg_nonneg)

lemma slru_sum_simps [simp]:
  "slru_sum c [] = 0" "slru_sum c (e # l) = scost (s_heap c e) + slru_sum c l"
  by (simp_all add: slru_sum_def)

lemma slru_sum_Remove: "distinct l \<Longrightarrow> e \<in> set l \<Longrightarrow> slru_sum c (list_Remove e l) = slru_sum c l - scost (s_heap c e)"
  by (simp add: slru_sum_def golist_simps)

lemma slru_sum_Move: "distinct l \<Longrightarrow> slru_sum c (list_MoveToFront e l) = slru_sum c l"
  by (simp add: slru_sum_def golist_simps)

lemma slru_sum_member: "e \<in> set l \<Longrightarrow> scost (s_heap c e) \<le> slru_sum c l"
  unfolding slru_sum_def by (rule total_member_le [of l "\<lambda>e. scost (s_heap c e)"]) auto

lemma slru_sum_cong: "(\<And>e. e \<in> set l \<Longrightarrow> scost (s_heap c e) = scost (s_heap c' e)) \<Longrightarrow> slru_sum c l = slru_sum c' l"
  unfolding slru_sum_def by (simp cong: map_cong)

lemma slru_indexD:
  assumes "slru_index_ok c"
  shows "distinct (s_probation c)" "distinct (s_protected c)" "set (s_probation c) \<inter> set (s_protected c) = {}"
    and "\<And>e. e \<in> set (s_probation c) \<Longrightarrow> e < s_next c" "\<And>e. e \<in> set (s_protected c) \<Longrightarrow> e < s_next c"
    and "\<And>k e. s_cache c k = Some e \<longleftrightarrow>
          (e \<in> set (s_probation c) \<or> e \<in> set (s_protected c)) \<and> se_key (s_heap c e) = k"
    and "\<And>e. e \<in> set (s_probation c) \<Longrightarrow> se_seg (s_heap c e) = segProbation"
    and "\<And>e. e \<in> set (s_protected c) \<Longrightarrow> se_seg (s_heap c e) = segProtected"
  using assms unfolding slru_index_ok_def by auto

lemma slru_key_inj:
  assumes "slru_index_ok c" and "e \<in> set (s_probation c) \<union> set (s_protected c)"
    and "e' \<in> set (s_probation c) \<union> set (s_protected c)" and "se_key (s_heap c e) = se_key (s_heap c e')"
  shows "e = e'"
  using assms slru_indexD(6) [OF assms(1)] by (metis Un_iff option.inject)

lemma slru_cost_exact:
  assumes "slru_wf c" and "e \<in> set (s_probation c) \<union> set (s_protected c)"
  shows "slru_cost (s_heap c e) = scost (s_heap c e)"
proof -
  have "scost (s_heap c e) \<le> slru_size c"
    using assms(2) slru_sum_member [of e _ c] slru_sum_nonneg [of c "s_probation c"] slru_sum_nonneg [of c "s_protected c"]
    unfolding slru_size_def by (metis Un_iff add_increasing add_increasing2)
  then have "in_i64 (scost (s_heap c e))"
    using assms(1) scost_nonneg [of "s_heap c e"] by (simp add: slru_wf_def slru_bytes_ok_def in_i64_def del: scost_nonneg)
  then show ?thesis by (simp add: slru_cost_def scost_def item_cost_def i64_id)
qed

lemma i64_nat_range: "0 \<le> x \<Longrightarrow> x < 2 ^ 63 \<Longrightarrow> i64 x = x"
  by (simp add: i64_id in_i64_def)

section \<open>Removing an element\<close>

lemma slru_callback_simps [simp]:
  "s_maxBytes (slru_callback k v c) = s_maxBytes c" "s_curbytes (slru_callback k v c) = s_curbytes c"
  "s_probationBytes (slru_callback k v c) = s_probationBytes c"
  "s_protectedBytes (slru_callback k v c) = s_protectedBytes c"
  "s_protectedRatio (slru_callback k v c) = s_protectedRatio c"
  "s_probation (slru_callback k v c) = s_probation c" "s_protected (slru_callback k v c) = s_protected c"
  "s_cache (slru_callback k v c) = s_cache c" "s_heap (slru_callback k v c) = s_heap c"
  "s_next (slru_callback k v c) = s_next c" "s_onEvicted (slru_callback k v c) = s_onEvicted c"
  "s_evicted (slru_callback k v c) = s_evicted c @ (if s_onEvicted c then [(k, v)] else [])"
  by (simp_all add: slru_callback_def)

lemma slru_removeElement_frame [simp]:
  "s_maxBytes (slru_removeElement e b c) = s_maxBytes c"
  "s_protectedRatio (slru_removeElement e b c) = s_protectedRatio c"
  "s_heap (slru_removeElement e b c) = s_heap c" "s_next (slru_removeElement e b c) = s_next c"
  "s_onEvicted (slru_removeElement e b c) = s_onEvicted c"
  "s_cache (slru_removeElement e b c) = (s_cache c)(se_key (s_heap c e) := None)"
  "s_curbytes (slru_removeElement e b c) = i64 (s_curbytes c - slru_cost (s_heap c e))"
  by (simp_all add: slru_removeElement_def)

lemma slru_removeElement_lists:
  assumes ix: "slru_index_ok c" and e: "e \<in> set (s_probation c) \<union> set (s_protected c)"
  shows "s_probation (slru_removeElement e b c) = list_Remove e (s_probation c)"
    and "s_protected (slru_removeElement e b c) = list_Remove e (s_protected c)"
    and "s_probationBytes (slru_removeElement e b c) =
      (if e \<in> set (s_probation c) then i64 (s_probationBytes c - slru_cost (s_heap c e)) else s_probationBytes c)"
    and "s_protectedBytes (slru_removeElement e b c) =
      (if e \<in> set (s_protected c) then i64 (s_protectedBytes c - slru_cost (s_heap c e)) else s_protectedBytes c)"
proof -
  consider "e \<in> set (s_probation c)" "e \<notin> set (s_protected c)" "se_seg (s_heap c e) = segProbation"
    | "e \<in> set (s_protected c)" "e \<notin> set (s_probation c)" "se_seg (s_heap c e) = segProtected"
    using e slru_indexD(3,7,8) [OF ix] by blast
  then show "s_probation (slru_removeElement e b c) = list_Remove e (s_probation c)"
    and "s_protected (slru_removeElement e b c) = list_Remove e (s_protected c)"
    and "s_probationBytes (slru_removeElement e b c) =
      (if e \<in> set (s_probation c) then i64 (s_probationBytes c - slru_cost (s_heap c e)) else s_probationBytes c)"
    and "s_protectedBytes (slru_removeElement e b c) =
      (if e \<in> set (s_protected c) then i64 (s_protectedBytes c - slru_cost (s_heap c e)) else s_protectedBytes c)"
    by (cases; simp add: slru_removeElement_def list_Remove_notin)+
qed

lemma slru_removeElement_wf:
  assumes wf: "slru_wf c" and e: "e \<in> set (s_probation c) \<union> set (s_protected c)"
  shows "slru_wf (slru_removeElement e b c)"
    and "slru_size (slru_removeElement e b c) = slru_size c - scost (s_heap c e)"
    and "slru_lookup (slru_removeElement e b c) = (slru_lookup c)(se_key (s_heap c e) := None)"
proof -
  let ?c = "slru_removeElement e b c"
  have ix: "slru_index_ok c" and bt: "slru_bytes_ok c" using wf by (simp_all add: slru_wf_def)
  note D = slru_indexD [OF ix] and L = slru_removeElement_lists [OF ix e, of b]
  note cost = slru_cost_exact [OF wf e]
  have S: "slru_sum ?c l = slru_sum c l" for l by (simp add: slru_sum_def)
  have P: "slru_sum ?c (s_probation ?c) = slru_sum c (s_probation c) - (if e \<in> set (s_probation c) then scost (s_heap c e) else 0)"
    and Q: "slru_sum ?c (s_protected ?c) = slru_sum c (s_protected c) - (if e \<in> set (s_protected c) then scost (s_heap c e) else 0)"
    using D(1,2) by (simp_all add: S L slru_sum_Remove list_Remove_notin)
  show size: "slru_size ?c = slru_size c - scost (s_heap c e)"
    using e D(3) by (auto simp: slru_size_def P Q)
  have le: "slru_sum c (s_probation c) \<le> slru_size c" "slru_sum c (s_protected c) \<le> slru_size c"
    by (simp_all add: slru_size_def)
  have "slru_index_ok ?c"
    using D(1-5,7,8) e slru_key_inj [OF ix] D(6)
    unfolding slru_index_ok_def L by (auto simp: golist_simps)
  moreover have "slru_bytes_ok ?c"
    using bt le slru_sum_nonneg [of ?c "s_probation ?c"] slru_sum_nonneg [of ?c "s_protected ?c"]
      slru_size_nonneg [of ?c] scost_nonneg [of "s_heap c e"]
    unfolding slru_bytes_ok_def P Q size L(3,4)
    by (auto simp: cost i64_nat_range simp del: scost_nonneg slru_sum_nonneg slru_size_nonneg)
  ultimately show "slru_wf ?c" by (simp add: slru_wf_def)
  show "slru_lookup ?c = (slru_lookup c)(se_key (s_heap c e) := None)"
    by (auto simp: slru_lookup_def)
qed

section \<open>Moving an entry to the other segment\<close>

lemma slru_demote_fields [simp]:
  "s_maxBytes (slru_demote e c) = s_maxBytes c" "s_protectedRatio (slru_demote e c) = s_protectedRatio c"
  "s_curbytes (slru_demote e c) = s_curbytes c" "s_onEvicted (slru_demote e c) = s_onEvicted c"
  "s_evicted (slru_demote e c) = s_evicted c"
  "s_protected (slru_demote e c) = list_Remove e (s_protected c)"
  "s_probation (slru_demote e c) = s_next c # s_probation c"
  "s_next (slru_demote e c) = Suc (s_next c)"
  "s_heap (slru_demote e c) = (s_heap c)(s_next c := (s_heap c e)\<lparr>se_seg := segProbation\<rparr>)"
  "s_cache (slru_demote e c) = (s_cache c)(se_key (s_heap c e) \<mapsto> s_next c)"
  "s_protectedBytes (slru_demote e c) = i64 (s_protectedBytes c - slru_cost (s_heap c e))"
  "s_probationBytes (slru_demote e c) = i64 (s_probationBytes c + slru_cost (s_heap c e))"
  by (simp_all add: slru_demote_def list_PushFront_def)

lemma slru_to_protected_fields [simp]:
  "s_maxBytes (slru_to_protected e c) = s_maxBytes c" "s_protectedRatio (slru_to_protected e c) = s_protectedRatio c"
  "s_curbytes (slru_to_protected e c) = s_curbytes c" "s_onEvicted (slru_to_protected e c) = s_onEvicted c"
  "s_evicted (slru_to_protected e c) = s_evicted c"
  "s_probation (slru_to_protected e c) = list_Remove e (s_probation c)"
  "s_protected (slru_to_protected e c) = s_next c # s_protected c"
  "s_next (slru_to_protected e c) = Suc (s_next c)"
  "s_heap (slru_to_protected e c) = (s_heap c)(s_next c := (s_heap c e)\<lparr>se_seg := segProtected\<rparr>)"
  "s_cache (slru_to_protected e c) = (s_cache c)(se_key (s_heap c e) \<mapsto> s_next c)"
  "s_probationBytes (slru_to_protected e c) = i64 (s_probationBytes c - slru_cost (s_heap c e))"
  "s_protectedBytes (slru_to_protected e c) = i64 (s_protectedBytes c + slru_cost (s_heap c e))"
  by (simp_all add: slru_to_protected_def list_PushFront_def)

lemma slru_demote_wf:
  assumes wf: "slru_wf c" and e: "e \<in> set (s_protected c)"
  shows "slru_wf (slru_demote e c)" and "slru_size (slru_demote e c) = slru_size c"
    and "slru_lookup (slru_demote e c) = slru_lookup c"
proof -
  let ?c = "slru_demote e c"
  have ix: "slru_index_ok c" and bt: "slru_bytes_ok c" using wf by (simp_all add: slru_wf_def)
  note D = slru_indexD [OF ix]
  have fresh: "s_next c \<notin> set (s_probation c)" "s_next c \<notin> set (s_protected c)" using D(4,5) by blast+
  have cost: "slru_cost (s_heap c e) = scost (s_heap c e)" using slru_cost_exact [OF wf] e by blast
  have P: "slru_sum ?c (s_probation ?c) = slru_sum c (s_probation c) + scost (s_heap c e)"
    and Q: "slru_sum ?c (s_protected ?c) = slru_sum c (s_protected c) - scost (s_heap c e)"
  proof -
    have "slru_sum ?c l = slru_sum c l" if "s_next c \<notin> set l" for l
      using that by (intro slru_sum_cong) auto
    then show "slru_sum ?c (s_probation ?c) = slru_sum c (s_probation c) + scost (s_heap c e)"
      and "slru_sum ?c (s_protected ?c) = slru_sum c (s_protected c) - scost (s_heap c e)"
      using fresh D(2) e by (simp_all add: slru_sum_Remove golist_simps)
  qed
  show size: "slru_size ?c = slru_size c" unfolding slru_size_def P Q by simp
  have "se_key (s_heap c e') \<noteq> se_key (s_heap c e)" if "e' \<in> set (s_probation c)" for e'
    using slru_key_inj [OF ix, of e e'] that e D(3) by auto
  moreover have "e' = e" if "e' \<in> set (s_protected c)" "se_key (s_heap c e') = se_key (s_heap c e)" for e'
    using slru_key_inj [OF ix, of e' e] that e by auto
  ultimately have "slru_index_ok ?c"
    using D(1-5,7,8) e fresh D(6)
    unfolding slru_index_ok_def by (auto simp: golist_simps less_Suc_eq)
  moreover have "slru_bytes_ok ?c"
    using bt slru_sum_nonneg [of ?c "s_probation ?c"] slru_sum_nonneg [of ?c "s_protected ?c"]
    unfolding slru_bytes_ok_def P Q size
    by (auto simp: cost i64_nat_range slru_size_def simp del: slru_sum_nonneg)
  ultimately show "slru_wf ?c" by (simp add: slru_wf_def)
  have "s_cache c k = Some e' \<Longrightarrow> e' \<noteq> s_next c" for k e' using D(6) fresh by blast
  moreover have "s_cache c (se_key (s_heap c e)) = Some e" using D(6) e by blast
  ultimately show "slru_lookup ?c = slru_lookup c"
    by (auto simp: slru_lookup_def fun_eq_iff map_option_case split: option.splits)
qed

lemma slru_to_protected_wf:
  assumes wf: "slru_wf c" and e: "e \<in> set (s_probation c)"
  shows "slru_wf (slru_to_protected e c)" and "slru_size (slru_to_protected e c) = slru_size c"
    and "slru_lookup (slru_to_protected e c) = slru_lookup c"
proof -
  let ?c = "slru_to_protected e c"
  have ix: "slru_index_ok c" and bt: "slru_bytes_ok c" using wf by (simp_all add: slru_wf_def)
  note D = slru_indexD [OF ix]
  have fresh: "s_next c \<notin> set (s_protected c)" "s_next c \<notin> set (s_probation c)" using D(4,5) by blast+
  have cost: "slru_cost (s_heap c e) = scost (s_heap c e)" using slru_cost_exact [OF wf] e by blast
  have P: "slru_sum ?c (s_protected ?c) = slru_sum c (s_protected c) + scost (s_heap c e)"
    and Q: "slru_sum ?c (s_probation ?c) = slru_sum c (s_probation c) - scost (s_heap c e)"
  proof -
    have "slru_sum ?c l = slru_sum c l" if "s_next c \<notin> set l" for l
      using that by (intro slru_sum_cong) auto
    then show "slru_sum ?c (s_protected ?c) = slru_sum c (s_protected c) + scost (s_heap c e)"
      and "slru_sum ?c (s_probation ?c) = slru_sum c (s_probation c) - scost (s_heap c e)"
      using fresh D(1) e by (simp_all add: slru_sum_Remove golist_simps)
  qed
  show size: "slru_size ?c = slru_size c" unfolding slru_size_def P Q by simp
  have "se_key (s_heap c e') \<noteq> se_key (s_heap c e)" if "e' \<in> set (s_protected c)" for e'
    using slru_key_inj [OF ix, of e e'] that e D(3) by auto
  moreover have "e' = e" if "e' \<in> set (s_probation c)" "se_key (s_heap c e') = se_key (s_heap c e)" for e'
    using slru_key_inj [OF ix, of e' e] that e by auto
  ultimately have "slru_index_ok ?c"
    using D(1-5,7,8) e fresh D(6)
    unfolding slru_index_ok_def by (auto simp: golist_simps less_Suc_eq)
  moreover have "slru_bytes_ok ?c"
    using bt slru_sum_nonneg [of ?c "s_protected ?c"] slru_sum_nonneg [of ?c "s_probation ?c"]
    unfolding slru_bytes_ok_def P Q size
    by (auto simp: cost i64_nat_range slru_size_def simp del: slru_sum_nonneg)
  ultimately show "slru_wf ?c" by (simp add: slru_wf_def)
  have "s_cache c k = Some e' \<Longrightarrow> e' \<noteq> s_next c" for k e' using D(6) fresh by blast
  moreover have "s_cache c (se_key (s_heap c e)) = Some e" using D(6) e by blast
  ultimately show "slru_lookup ?c = slru_lookup c"
    by (auto simp: slru_lookup_def fun_eq_iff map_option_case split: option.splits)
qed

section \<open>The abstract policy: one eviction order, cut into two segments\<close>

text \<open>
  Written one after the other, the protected and the probation entries form the order in which
  entries are evicted, from the back: demotion moves the border between the two segments and
  leaves the order as it is.
\<close>

definition se_entry :: "slruEntry \<Rightarrow> entry" where
  "se_entry kv = \<lparr>e_key = se_key kv, e_value = se_value kv, e_expireAt = se_expireAt kv\<rparr>"

definition slru_prot :: "slruCache \<Rightarrow> entry list" where
  "slru_prot c = map (\<lambda>e. se_entry (s_heap c e)) (s_protected c)"

definition slru_prob :: "slruCache \<Rightarrow> entry list" where
  "slru_prob c = map (\<lambda>e. se_entry (s_heap c e)) (s_probation c)"

definition slru_all :: "slruCache \<Rightarrow> entry list" where
  "slru_all c = slru_prot c @ slru_prob c"

lemma se_entry_simps [simp]:
  "e_key (se_entry kv) = se_key kv" "e_value (se_entry kv) = se_value kv"
  "e_expireAt (se_entry kv) = se_expireAt kv" "entry_cost (se_entry kv) = scost kv"
  "se_entry (kv\<lparr>se_seg := g\<rparr>) = se_entry kv"
  by (simp_all add: se_entry_def entry_cost_def scost_def)

lemma slru_sum_entries: "slru_sum c (s_protected c) = sum_of entry_cost (slru_prot c)"
    "slru_sum c (s_probation c) = sum_of entry_cost (slru_prob c)"
    "slru_size c = sum_of entry_cost (slru_all c)"
  by (simp_all add: slru_sum_def slru_prot_def slru_prob_def slru_size_def slru_all_def o_def)

lemma slru_wf_bytes:
  assumes "slru_wf c"
  shows "s_curbytes c = sum_of entry_cost (slru_all c)" "s_protectedBytes c = sum_of entry_cost (slru_prot c)"
    and "s_probationBytes c = sum_of entry_cost (slru_prob c)" "sum_of entry_cost (slru_all c) < 2 ^ 63"
  using assms by (simp_all add: slru_wf_def slru_bytes_ok_def slru_sum_entries)

lemma slru_wf_index: "slru_wf c \<Longrightarrow> slru_index_ok c"
  by (simp add: slru_wf_def)

lemma slru_drop_entries:
  assumes ix: "slru_index_ok c" and e: "e \<in> set (s_probation c) \<union> set (s_protected c)"
    and l: "set l \<subseteq> set (s_probation c) \<union> set (s_protected c)"
  shows "map (\<lambda>e. se_entry (s_heap c e)) (list_Remove e l) =
    drop_key (se_key (s_heap c e)) (map (\<lambda>e. se_entry (s_heap c e)) l)"
proof -
  have "list_Remove e l = filter (\<lambda>x. se_key (s_heap c x) \<noteq> se_key (s_heap c e)) l"
    unfolding list_Remove_def removeAll_filter_not_eq
    by (rule filter_cong) (use l slru_key_inj [OF ix _ e] in auto)
  then show ?thesis by (simp add: drop_key_def filter_map o_def)
qed

lemma slru_all_removeElement:
  assumes "slru_wf c" and "e \<in> set (s_probation c) \<union> set (s_protected c)"
  shows "slru_prot (slru_removeElement e b c) = drop_key (se_key (s_heap c e)) (slru_prot c)"
    and "slru_prob (slru_removeElement e b c) = drop_key (se_key (s_heap c e)) (slru_prob c)"
  using slru_drop_entries [OF slru_wf_index [OF assms(1)] assms(2)]
  by (simp_all add: slru_prot_def slru_prob_def slru_removeElement_lists [OF slru_wf_index [OF assms(1)] assms(2)])

lemma slru_find_key:
  assumes wf: "slru_wf c"
  shows "find_key k (slru_all c) = map_option (\<lambda>e. se_entry (s_heap c e)) (s_cache c k)"
proof -
  note D = slru_indexD [OF slru_wf_index [OF wf]]
  have all: "set (slru_all c) = (\<lambda>e. se_entry (s_heap c e)) ` (set (s_probation c) \<union> set (s_protected c))"
    by (auto simp: slru_all_def slru_prot_def slru_prob_def)
  show ?thesis
  proof (cases "s_cache c k")
    case None
    then have "se_key (s_heap c e) \<noteq> k" if "e \<in> set (s_probation c) \<union> set (s_protected c)" for e
      using that D(6) [of k e] by auto
    then show ?thesis using None by (auto simp: find_key_def find_None_iff all)
  next
    case (Some e)
    then have e: "e \<in> set (s_probation c) \<union> set (s_protected c)" "se_key (s_heap c e) = k" using D(6) by auto
    then obtain kv where kv: "find_key k (slru_all c) = Some kv"
      by (cases "find_key k (slru_all c)") (auto simp: find_key_def find_None_iff all)
    then obtain e' where "e' \<in> set (s_probation c) \<union> set (s_protected c)" "kv = se_entry (s_heap c e')" "e_key kv = k"
      using all find_key_in [OF kv] find_key_key [OF kv] by blast
    then have "kv = se_entry (s_heap c e)" using e slru_key_inj [OF slru_wf_index [OF wf]] by auto
    then show ?thesis using kv Some by simp
  qed
qed

lemma slru_lookup_entries: "slru_wf c \<Longrightarrow> slru_lookup c k = map_option entry_pair (find_key k (slru_all c))"
  by (simp add: slru_find_key slru_lookup_def option.map_comp o_def entry_pair_def)

lemma slru_all_demote:
  assumes wf: "slru_wf c" and ne: "s_protected c \<noteq> []"
  shows "slru_prot (slru_demote (last (s_protected c)) c) = butlast (slru_prot c)"
    and "slru_all (slru_demote (last (s_protected c)) c) = slru_all c"
proof -
  let ?c = "slru_demote (last (s_protected c)) c"
  note D = slru_indexD [OF slru_wf_index [OF wf]]
  have old: "map (\<lambda>e. se_entry (s_heap ?c e)) l = map (\<lambda>e. se_entry (s_heap c e)) l"
    if "set l \<subseteq> set (s_probation c) \<union> set (s_protected c)" for l
    using that D(4,5) by (intro map_cong) auto
  show prot: "slru_prot ?c = butlast (slru_prot c)"
    using old [of "butlast (s_protected c)"] D(2) ne
    by (simp add: slru_prot_def golist_simps map_butlast subset_iff in_set_butlastD)
  have "slru_prob ?c = last (slru_prot c) # slru_prob c"
    using old [of "s_probation c"] ne by (simp add: slru_prob_def slru_prot_def last_map)
  then have "slru_all ?c = (butlast (slru_prot c) @ [last (slru_prot c)]) @ slru_prob c"
    using prot by (simp add: slru_all_def)
  also have "butlast (slru_prot c) @ [last (slru_prot c)] = slru_prot c"
    using ne by (intro append_butlast_last_id) (simp add: slru_prot_def)
  finally show "slru_all ?c = slru_all c" by (simp add: slru_all_def)
qed

section \<open>The limit loops\<close>

definition slru_frame :: "slruCache \<Rightarrow> slruCache \<Rightarrow> bool" where
  "slru_frame c c' \<longleftrightarrow> s_maxBytes c' = s_maxBytes c \<and> s_protectedRatio c' = s_protectedRatio c
     \<and> s_onEvicted c' = s_onEvicted c"

lemma slru_frame_refl [simp]: "slru_frame c c"
  by (simp add: slru_frame_def)

lemma slru_frame_trans: "slru_frame a b \<Longrightarrow> slru_frame b c \<Longrightarrow> slru_frame a c"
  by (simp add: slru_frame_def)

lemma slru_frame_protectedMax: "slru_frame c c' \<Longrightarrow> slru_protectedMaxBytes c' = slru_protectedMaxBytes c"
  by (simp add: slru_frame_def slru_protectedMaxBytes_def)

lemma slru_frame_steps [simp]:
  "slru_frame c (slru_demote e c)" "slru_frame c (slru_to_protected e c)" "slru_frame c (slru_removeElement e b c)"
  by (simp_all add: slru_frame_def)

lemma slru_protectedMaxBytes_pos: "1 \<le> slru_protectedMaxBytes c"
  by (simp add: slru_protectedMaxBytes_def)

lemma slru_demote_loop_props:
  assumes "slru_wf c" and "0 \<le> pm"
  shows "slru_wf (slru_demote_loop pm c) \<and> slru_all (slru_demote_loop pm c) = slru_all c
    \<and> slru_prot (slru_demote_loop pm c) = take_fit pm entry_cost (slru_prot c)
    \<and> slru_frame c (slru_demote_loop pm c) \<and> s_evicted (slru_demote_loop pm c) = s_evicted c"
  using assms
proof (induction pm c rule: slru_demote_loop.induct)
  case (1 pm c)
  let ?d = "slru_demote (last (s_protected c)) c"
  note B = slru_wf_bytes(2) [OF "1.prems"(1)]
  show ?case
  proof (cases "s_protectedBytes c > pm \<and> length (s_protected c) > 0")
    case True
    then have ne: "s_protected c \<noteq> []" by auto
    have "slru_wf ?d" using slru_demote_wf(1) [OF "1.prems"(1)] ne by simp
    from "1.IH" [OF True this "1.prems"(2)] slru_all_demote [OF "1.prems"(1) ne]
    have "slru_wf (slru_demote_loop pm ?d) \<and> slru_all (slru_demote_loop pm ?d) = slru_all c
      \<and> slru_prot (slru_demote_loop pm ?d) = take_fit pm entry_cost (butlast (slru_prot c))
      \<and> slru_frame c (slru_demote_loop pm ?d) \<and> s_evicted (slru_demote_loop pm ?d) = s_evicted c"
      by (auto intro: slru_frame_trans [OF slru_frame_steps(1)])
    moreover have "take_fit pm entry_cost (butlast (slru_prot c)) = take_fit pm entry_cost (slru_prot c)"
      using True B ne by (intro take_fit_butlast) (auto simp: slru_prot_def)
    ultimately show ?thesis using True by (simp add: slru_demote_loop.simps [of pm c])
  next
    case False
    then have "sum_of entry_cost (slru_prot c) \<le> pm" using B "1.prems"(2) by (auto simp: slru_prot_def)
    then have "take_fit pm entry_cost (slru_prot c) = slru_prot c" by (intro take_fit_all) auto
    moreover have "slru_demote_loop pm c = c" using False by (subst slru_demote_loop.simps) (rule if_not_P)
    ultimately show ?thesis using "1.prems" by simp
  qed
qed

lemma slru_enforceProtectedLimit_props:
  assumes "slru_wf c"
  shows "slru_wf (slru_enforceProtectedLimit c)" and "slru_all (slru_enforceProtectedLimit c) = slru_all c"
    and "slru_prot (slru_enforceProtectedLimit c) =
      (if s_maxBytes c \<le> 0 then slru_prot c else take_fit (slru_protectedMaxBytes c) entry_cost (slru_prot c))"
    and "slru_frame c (slru_enforceProtectedLimit c)" and "s_evicted (slru_enforceProtectedLimit c) = s_evicted c"
  using slru_demote_loop_props [OF assms, of "slru_protectedMaxBytes c"] slru_protectedMaxBytes_pos [of c] assms
  by (auto simp: slru_enforceProtectedLimit_def)

lemma slru_notempty: "slru_all c \<noteq> [] \<longleftrightarrow> s_probation c \<noteq> [] \<or> s_protected c \<noteq> []"
  by (auto simp: slru_all_def slru_prot_def slru_prob_def)

text \<open>The element the eviction takes: the back of probation, else the back of protected.\<close>

definition slru_victim :: "slruCache \<Rightarrow> elem" where
  "slru_victim c = (if s_probation c = [] then last (s_protected c) else last (s_probation c))"

lemma slru_victim_removed:
  assumes wf: "slru_wf c" and ne: "slru_all c \<noteq> []"
  shows "slru_victim c \<in> set (s_probation c) \<union> set (s_protected c)"
    and "slru_all (slru_removeElement (slru_victim c) b c) = butlast (slru_all c)"
    and "slru_prot (slru_removeElement (slru_victim c) b c) = take (length (slru_all c) - 1) (slru_prot c)"
    and "se_entry (s_heap c (slru_victim c)) = last (slru_all c)"
proof -
  note D = slru_indexD [OF slru_wf_index [OF wf]]
  show e: "slru_victim c \<in> set (s_probation c) \<union> set (s_protected c)"
    using ne by (auto simp: slru_victim_def slru_notempty)
  note L = slru_removeElement_lists [OF slru_wf_index [OF wf] e, of b]
  have "slru_all (slru_removeElement (slru_victim c) b c) = butlast (slru_all c) \<and>
    slru_prot (slru_removeElement (slru_victim c) b c) = take (length (slru_all c) - 1) (slru_prot c) \<and>
    se_entry (s_heap c (slru_victim c)) = last (slru_all c)"
  proof (cases "s_probation c = []")
    case True
    then have pne: "s_protected c \<noteq> []" using ne by (simp add: slru_notempty)
    then show ?thesis using True L D(2)
      by (simp add: slru_all_def slru_prot_def slru_prob_def slru_victim_def golist_simps list_Remove_notin
          map_butlast last_map butlast_conv_take take_map)
  next
    case False
    then have "last (s_probation c) \<notin> set (s_protected c)" using D(3) last_in_set by blast
    moreover have "length (s_protected c) \<le> length (s_protected c) + length (s_probation c) - 1"
      using False by (cases "s_probation c") auto
    ultimately show ?thesis using False L D(1)
      by (simp add: slru_all_def slru_prot_def slru_prob_def slru_victim_def golist_simps list_Remove_notin
          map_butlast last_map butlast_append)
  qed
  then show "slru_all (slru_removeElement (slru_victim c) b c) = butlast (slru_all c)"
    and "slru_prot (slru_removeElement (slru_victim c) b c) = take (length (slru_all c) - 1) (slru_prot c)"
    and "se_entry (s_heap c (slru_victim c)) = last (slru_all c)" by blast+
qed

lemma slru_evict_loop_step:
  "slru_evict_loop (Suc n) c =
     (if s_maxBytes c \<noteq> 0 \<and> s_curbytes c > s_maxBytes c \<and> slru_all c \<noteq> []
      then slru_evict_loop n (slru_removeElement (slru_victim c) True c) else c)"
  by (auto simp: slru_victim_def slru_notempty list_Back_def)

lemma slru_evict_loop_empty: "slru_all c = [] \<Longrightarrow> slru_evict_loop n c = c"
  using slru_evict_loop_step [of _ c] by (cases n) auto

lemma slru_evict_loop_props:
  assumes "slru_wf c" and "length (slru_all c) \<le> n"
  obtains dropped where "slru_wf (slru_evict_loop n c)" and "slru_frame c (slru_evict_loop n c)"
    and "slru_all (slru_evict_loop n c) = keep_fit (s_maxBytes c) (slru_all c)"
    and "slru_prot (slru_evict_loop n c) = take (length (slru_all (slru_evict_loop n c))) (slru_prot c)"
    and "slru_all c = slru_all (slru_evict_loop n c) @ dropped"
    and "s_evicted (slru_evict_loop n c) = s_evicted c @
      (if s_onEvicted c then map (\<lambda>kv. (e_key kv, e_value kv)) (rev dropped) else [])"
  using assms
proof (induction n arbitrary: c thesis)
  case 0
  have "slru_all c = []" using "0.prems"(3) by simp
  then show ?case using "0.prems"(2) "0.prems"(1) [of "[]"] by (simp add: keep_fit_def slru_all_def)
next
  case (Suc n)
  note wf = Suc.prems(2) and B = slru_wf_bytes [OF Suc.prems(2)]
  show ?case
  proof (cases "s_maxBytes c \<noteq> 0 \<and> s_curbytes c > s_maxBytes c \<and> slru_all c \<noteq> []")
    case False
    then have stop: "slru_evict_loop (Suc n) c = c" by (subst slru_evict_loop_step) auto
    have "take_fit (s_maxBytes c) entry_cost (slru_all c) = slru_all c"
      if "s_curbytes c \<le> s_maxBytes c" using that B by (intro take_fit_all) auto
    then have "keep_fit (s_maxBytes c) (slru_all c) = slru_all c"
      using False by (auto simp: keep_fit_def)
    then show ?thesis
      by (intro Suc.prems(1) [of "[]"]) (simp_all add: stop wf slru_all_def del: slru_evict_loop.simps)
  next
    case True
    let ?r = "slru_removeElement (slru_victim c) True c" and ?last = "last (slru_all c)"
    have ne: "slru_all c \<noteq> []" using True by simp
    note V = slru_victim_removed [OF wf ne]
    have rwf: "slru_wf ?r" by (rule slru_removeElement_wf(1) [OF wf V(1)])
    have len: "length (slru_all ?r) \<le> n" using Suc.prems(3) by (simp add: V(2))
    let ?e = "slru_evict_loop n ?r"
    have step: "slru_evict_loop (Suc n) c = ?e" using True by (subst slru_evict_loop_step) simp
    obtain dropped where d: "slru_wf ?e" "slru_frame ?r ?e" "slru_all ?e = keep_fit (s_maxBytes c) (butlast (slru_all c))"
      "slru_prot ?e = take (length (slru_all ?e)) (slru_prot ?r)" "butlast (slru_all c) = slru_all ?e @ dropped"
      "s_evicted ?e = s_evicted ?r @ (if s_onEvicted c then map (\<lambda>kv. (e_key kv, e_value kv)) (rev dropped) else [])"
      using Suc.IH [OF _ rwf len, unfolded slru_removeElement_frame V(2)] by blast
    have keep: "slru_all ?e = keep_fit (s_maxBytes c) (slru_all c)"
      using d(3) take_fit_butlast [of "slru_all c" entry_cost "s_maxBytes c"] True B(1) by (simp add: keep_fit_def)
    have split: "slru_all c = slru_all ?e @ (dropped @ [?last])"
      using d(5) append_butlast_last_id [OF ne] by simp
    have prot: "slru_prot ?e = take (length (slru_all ?e)) (slru_prot c)"
      using d(4) V(3) arg_cong [OF d(5), of length] by (simp add: min_def)
    have "s_evicted ?r = s_evicted c @ (if s_onEvicted c then [(e_key ?last, e_value ?last)] else [])"
      by (simp add: slru_removeElement_def V(4) [symmetric])
    then have ev: "s_evicted ?e = s_evicted c @
        (if s_onEvicted c then map (\<lambda>kv. (e_key kv, e_value kv)) (rev (dropped @ [?last])) else [])"
      using d(6) by simp
    show ?thesis
      using Suc.prems(1) [of "dropped @ [?last]", unfolded step]
        d(1) slru_frame_trans [OF slru_frame_steps(3) d(2)] keep prot split ev by blast
  qed
qed

lemma slru_all_length: "length (slru_all c) = length (s_probation c) + length (s_protected c)"
  by (simp add: slru_all_def slru_prot_def slru_prob_def)

text \<open>The loop of the source, one iteration at a time: the bound of the model is never reached.\<close>

lemma slru_enforceTotalLimit_unfold:
  assumes wf: "slru_wf c"
  shows "slru_enforceTotalLimit c =
    (if s_maxBytes c \<noteq> 0 \<and> s_curbytes c > s_maxBytes c then
       (case list_Back (s_probation c) of
          Some ele \<Rightarrow> slru_enforceTotalLimit (slru_removeElement ele True c)
        | None \<Rightarrow>
            (case list_Back (s_protected c) of
               Some ele \<Rightarrow> slru_enforceTotalLimit (slru_removeElement ele True c)
             | None \<Rightarrow> c))
     else c)"
proof (cases "slru_all c = []")
  case True
  then show ?thesis
    using slru_evict_loop_empty [OF True] slru_notempty [of c] by (simp add: slru_enforceTotalLimit_def)
next
  case False
  let ?r = "slru_removeElement (slru_victim c) True c"
  have "length (slru_all ?r) = length (slru_all c) - 1" by (simp add: slru_victim_removed(2) [OF wf False])
  then have "slru_enforceTotalLimit c =
    (if s_maxBytes c \<noteq> 0 \<and> s_curbytes c > s_maxBytes c then slru_enforceTotalLimit ?r else c)"
    using False slru_evict_loop_step [of "length (slru_all c) - 1" c]
    by (simp add: slru_enforceTotalLimit_def slru_all_length [symmetric] Suc_diff_1 length_greater_0_conv
        del: slru_evict_loop.simps length_greater_0_conv) auto
  then show ?thesis using False by (auto simp: slru_victim_def slru_notempty list_Back_def)
qed

lemma slru_enforceTotalLimit_props:
  assumes "slru_wf c"
  obtains dropped where "slru_wf (slru_enforceTotalLimit c)" and "slru_frame c (slru_enforceTotalLimit c)"
    and "slru_all (slru_enforceTotalLimit c) = keep_fit (s_maxBytes c) (slru_all c)"
    and "slru_prot (slru_enforceTotalLimit c) = take (length (slru_all (slru_enforceTotalLimit c))) (slru_prot c)"
    and "slru_all c = slru_all (slru_enforceTotalLimit c) @ dropped"
    and "s_evicted (slru_enforceTotalLimit c) = s_evicted c @
      (if s_onEvicted c then map (\<lambda>kv. (e_key kv, e_value kv)) (rev dropped) else [])"
  using slru_evict_loop_props [OF assms order_refl] unfolding slru_enforceTotalLimit_def slru_all_length by blast

lemma keep_fit_bound: "0 \<le> b \<Longrightarrow> b \<noteq> 0 \<Longrightarrow> sum_of entry_cost (keep_fit b es) \<le> b"
  by (simp add: keep_fit_def take_fit_total)

lemma slru_total_ok:
  assumes wf: "slru_wf c" and max: "0 \<le> s_maxBytes c"
    and prot: "s_maxBytes c \<noteq> 0 \<Longrightarrow> sum_of entry_cost (slru_prot c) \<le> slru_protectedMaxBytes c"
  shows "slru_ok (slru_enforceTotalLimit c)"
proof (rule slru_enforceTotalLimit_props [OF wf])
  let ?c = "slru_enforceTotalLimit c"
  fix dropped
  assume c': "slru_wf ?c" "slru_frame c ?c" "slru_all ?c = keep_fit (s_maxBytes c) (slru_all c)"
    "slru_prot ?c = take (length (slru_all ?c)) (slru_prot c)"
  have "sum_of entry_cost (slru_prot ?c) \<le> sum_of entry_cost (slru_prot c)"
    unfolding c'(4) by (rule total_take_le) simp
  then show ?thesis
    using c' max prot keep_fit_bound [of "s_maxBytes c" "slru_all c"] slru_frame_protectedMax [OF c'(2)] slru_wf_bytes [OF c'(1)]
    unfolding slru_ok_def by (auto simp: slru_frame_def)
qed

lemma slru_limits_ok:
  assumes wf: "slru_wf c" and max: "0 \<le> s_maxBytes c"
  shows "slru_ok (slru_enforceTotalLimit (slru_enforceProtectedLimit c))"
proof (rule slru_total_ok)
  note P = slru_enforceProtectedLimit_props [OF wf]
  show "slru_wf (slru_enforceProtectedLimit c)" by (rule P)
  show "0 \<le> s_maxBytes (slru_enforceProtectedLimit c)" using max P(4) by (simp add: slru_frame_def)
  show "sum_of entry_cost (slru_prot (slru_enforceProtectedLimit c)) \<le> slru_protectedMaxBytes (slru_enforceProtectedLimit c)"
    if "s_maxBytes (slru_enforceProtectedLimit c) \<noteq> 0"
    using that max P(3,4) slru_frame_protectedMax [OF P(4)] slru_protectedMaxBytes_pos [of c]
    by (auto simp: slru_frame_def intro!: take_fit_total)
qed

section \<open>Inserting and updating\<close>

lemma slru_frame_store [simp]:
  "slru_frame c (slru_insert k v x c)" "slru_frame c (slru_update e v x c)"
  "s_evicted (slru_insert k v x c) = s_evicted c" "s_evicted (slru_update e v x c) = s_evicted c"
  by (simp_all add: slru_frame_def slru_insert_def slru_update_def)

lemma slru_insert_props:
  assumes wf: "slru_wf c" and miss: "s_cache c k = None" and fits: "slru_size c + item_cost k v < 2 ^ 63"
  shows "slru_wf (slru_insert k v x c)" and "slru_prot (slru_insert k v x c) = slru_prot c"
    and "slru_prob (slru_insert k v x c) = \<lparr>e_key = k, e_value = v, e_expireAt = x\<rparr> # slru_prob c"
proof -
  let ?c = "slru_insert k v x c"
  have ix: "slru_index_ok c" and bt: "slru_bytes_ok c" using wf by (simp_all add: slru_wf_def)
  note D = slru_indexD [OF ix]
  have fresh: "s_next c \<notin> set (s_probation c)" "s_next c \<notin> set (s_protected c)" using D(4,5) by blast+
  have old: "map (\<lambda>e. f (s_heap ?c e)) l = map (\<lambda>e. f (s_heap c e)) l" if "s_next c \<notin> set l" for f l
    using that by (intro map_cong) (auto simp: slru_insert_def)
  show prot: "slru_prot ?c = slru_prot c"
    using fresh old [of "s_protected c" se_entry] by (simp add: slru_prot_def slru_insert_def)
  show prob: "slru_prob ?c = \<lparr>e_key = k, e_value = v, e_expireAt = x\<rparr> # slru_prob c"
    using fresh old [of "s_probation c" se_entry]
    by (simp add: slru_prob_def slru_insert_def list_PushFront_def se_entry_def)
  have key: "e \<in> set (s_probation c) \<Longrightarrow> se_key (s_heap c e) \<noteq> k"
    "e \<in> set (s_protected c) \<Longrightarrow> se_key (s_heap c e) \<noteq> k" for e
    using D(6) [of k e] miss by auto
  have "slru_index_ok ?c"
    using D(1-5,7,8) fresh D(6)
    unfolding slru_index_ok_def by (auto simp: slru_insert_def list_PushFront_def less_Suc_eq dest: key)
  moreover have "slru_bytes_ok ?c"
  proof -
    have c: "entry_cost \<lparr>e_key = k, e_value = v, e_expireAt = x\<rparr> = item_cost k v" by (simp add: entry_cost_def)
    have "0 \<le> sum_of entry_cost (slru_prot c)" "0 \<le> sum_of entry_cost (slru_prob c)" by (simp_all add: total_nonneg)
    moreover have "slru_cost \<lparr>se_key = k, se_value = v, se_expireAt = x, se_seg = segProbation\<rparr> = i64 (item_cost k v)"
      by (simp add: slru_cost_def item_cost_def)
    ultimately show ?thesis
      using bt fits item_cost_nonneg [of k v] unfolding slru_bytes_ok_def slru_sum_entries slru_all_def prot prob
      by (simp add: slru_insert_def c i64_nat_range del: item_cost_nonneg)
  qed
  ultimately show "slru_wf ?c" by (simp add: slru_wf_def)
qed

lemma slru_update_fields:
  fixes v :: ByteView and x :: expiry
  assumes ix: "slru_index_ok c" and e: "e \<in> set (s_probation c) \<union> set (s_protected c)"
  defines "new \<equiv> (s_heap c e)\<lparr>se_value := v, se_expireAt := x\<rparr>"
  defines "delta \<equiv> i64 (slru_cost new - slru_cost (s_heap c e))"
  shows "s_heap (slru_update e v x c) = (s_heap c)(e := new)"
    and "s_cache (slru_update e v x c) = s_cache c" and "s_next (slru_update e v x c) = s_next c"
    and "s_curbytes (slru_update e v x c) = i64 (s_curbytes c + delta)"
    and "s_probation (slru_update e v x c) =
      (if e \<in> set (s_probation c) then list_MoveToFront e (s_probation c) else s_probation c)"
    and "s_protected (slru_update e v x c) =
      (if e \<in> set (s_protected c) then list_MoveToFront e (s_protected c) else s_protected c)"
    and "s_probationBytes (slru_update e v x c) =
      (if e \<in> set (s_probation c) then i64 (s_probationBytes c + delta) else s_probationBytes c)"
    and "s_protectedBytes (slru_update e v x c) =
      (if e \<in> set (s_protected c) then i64 (s_protectedBytes c + delta) else s_protectedBytes c)"
proof -
  note D = slru_indexD [OF ix]
  consider "e \<in> set (s_probation c)" "e \<notin> set (s_protected c)" "se_seg (s_heap c e) = segProbation"
    | "e \<in> set (s_protected c)" "e \<notin> set (s_probation c)" "se_seg (s_heap c e) = segProtected"
    using e D(3,7,8) by blast
  then show "s_heap (slru_update e v x c) = (s_heap c)(e := new)"
    and "s_cache (slru_update e v x c) = s_cache c" and "s_next (slru_update e v x c) = s_next c"
    and "s_curbytes (slru_update e v x c) = i64 (s_curbytes c + delta)"
    and "s_probation (slru_update e v x c) =
      (if e \<in> set (s_probation c) then list_MoveToFront e (s_probation c) else s_probation c)"
    and "s_protected (slru_update e v x c) =
      (if e \<in> set (s_protected c) then list_MoveToFront e (s_protected c) else s_protected c)"
    and "s_probationBytes (slru_update e v x c) =
      (if e \<in> set (s_probation c) then i64 (s_probationBytes c + delta) else s_probationBytes c)"
    and "s_protectedBytes (slru_update e v x c) =
      (if e \<in> set (s_protected c) then i64 (s_protectedBytes c + delta) else s_protectedBytes c)"
    by (cases; simp add: slru_update_def new_def delta_def list_MoveToFront_front [OF D(1)] list_MoveToFront_front [OF D(2)])+
qed

lemma slru_update_sums:
  fixes v :: ByteView and x :: expiry
  assumes ix: "slru_index_ok c" and hit: "s_cache c k = Some e"
    and l: "l = s_probation c \<or> l = s_protected c"
  defines "new \<equiv> \<lparr>e_key = k, e_value = v, e_expireAt = x\<rparr>"
  shows "map (\<lambda>e'. se_entry (s_heap (slru_update e v x c) e')) (if e \<in> set l then list_MoveToFront e l else l) =
    (if e \<in> set l then [new] else []) @ drop_key k (map (\<lambda>e. se_entry (s_heap c e)) l)"
    and "sum_of entry_cost ((if e \<in> set l then [new] else []) @ drop_key k (map (\<lambda>e. se_entry (s_heap c e)) l)) =
      slru_sum c l + (if e \<in> set l then item_cost k v - scost (s_heap c e) else 0)"
proof -
  have e: "e \<in> set (s_probation c) \<union> set (s_protected c)" "se_key (s_heap c e) = k"
    using slru_indexD(6) [OF ix] hit by auto
  have dl: "distinct l" using l slru_indexD(1,2) [OF ix] by auto
  have sub: "set l \<subseteq> set (s_probation c) \<union> set (s_protected c)" using l by auto
  note drop = slru_drop_entries [OF ix e(1) sub, unfolded e(2)]
  have old: "map (\<lambda>e'. se_entry (s_heap (slru_update e v x c) e')) (list_Remove e l) =
      map (\<lambda>e. se_entry (s_heap c e)) (list_Remove e l)"
    by (intro map_cong) (auto simp: slru_update_fields(1) [OF ix e(1)] golist_simps)
  have "se_entry (s_heap (slru_update e v x c) e) = new"
    using e(2) by (simp add: slru_update_fields(1) [OF ix e(1)] new_def se_entry_def)
  then show "map (\<lambda>e'. se_entry (s_heap (slru_update e v x c) e')) (if e \<in> set l then list_MoveToFront e l else l) =
    (if e \<in> set l then [new] else []) @ drop_key k (map (\<lambda>e. se_entry (s_heap c e)) l)"
    using trans [OF old drop] list_Remove_notin [of e l]
    by (cases "e \<in> set l") (simp_all only: list_MoveToFront_def list_Remove_def if_True if_False list.map append.simps simp_thms)
  have "sum_of entry_cost (drop_key k (map (\<lambda>e. se_entry (s_heap c e)) l)) =
      slru_sum c l - (if e \<in> set l then scost (s_heap c e) else 0)"
    using dl slru_sum_Remove [OF dl, of e c] list_Remove_notin [of e l]
    unfolding drop [symmetric] by (auto simp: slru_sum_def o_def)
  then show "sum_of entry_cost ((if e \<in> set l then [new] else []) @ drop_key k (map (\<lambda>e. se_entry (s_heap c e)) l)) =
      slru_sum c l + (if e \<in> set l then item_cost k v - scost (s_heap c e) else 0)"
    by (simp add: new_def entry_cost_def)
qed

lemma slru_update_props:
  fixes x :: expiry
  assumes wf: "slru_wf c" and hit: "s_cache c k = Some e" and fits: "slru_size c + item_cost k v < 2 ^ 63"
  defines "new \<equiv> \<lparr>e_key = k, e_value = v, e_expireAt = x\<rparr>"
  shows "slru_wf (slru_update e v x c)"
    and "slru_prot (slru_update e v x c) = (if e \<in> set (s_protected c) then [new] else []) @ drop_key k (slru_prot c)"
    and "slru_prob (slru_update e v x c) = (if e \<in> set (s_probation c) then [new] else []) @ drop_key k (slru_prob c)"
proof -
  let ?c = "slru_update e v x c"
  have ix: "slru_index_ok c" and bt: "slru_bytes_ok c" using wf by (simp_all add: slru_wf_def)
  note D = slru_indexD [OF ix]
  have e: "e \<in> set (s_probation c) \<union> set (s_protected c)" "se_key (s_heap c e) = k" using D(6) hit by auto
  note F = slru_update_fields [OF ix e(1)]
  note S1 = slru_update_sums [OF ix hit disjI1 [OF refl], where v = v and x = x, folded slru_prob_def new_def]
    and S2 = slru_update_sums [OF ix hit disjI2 [OF refl], where v = v and x = x, folded slru_prot_def new_def]
  show prot: "slru_prot ?c = (if e \<in> set (s_protected c) then [new] else []) @ drop_key k (slru_prot c)"
    using S2(1) by (simp add: slru_prot_def [of ?c] F)
  show prob: "slru_prob ?c = (if e \<in> set (s_probation c) then [new] else []) @ drop_key k (slru_prob c)"
    using S1(1) by (simp add: slru_prob_def [of ?c] F)
  have "slru_index_ok ?c"
    using D(1-5,7,8) D(6) e(2) unfolding slru_index_ok_def by (auto simp: F golist_simps)
  moreover have "slru_bytes_ok ?c"
  proof -
    have sums: "slru_sum ?c (s_protected ?c) = slru_sum c (s_protected c) + (if e \<in> set (s_protected c) then item_cost k v - scost (s_heap c e) else 0)"
      "slru_sum ?c (s_probation ?c) = slru_sum c (s_probation c) + (if e \<in> set (s_probation c) then item_cost k v - scost (s_heap c e) else 0)"
      unfolding slru_sum_entries(1,2) [of ?c] prot prob by (rule S2(2) S1(2))+
    have size: "slru_size ?c = slru_size c + item_cost k v - scost (s_heap c e)"
      using e(1) D(3) unfolding slru_size_def sums by auto
    have pos: "0 \<le> slru_sum ?c (s_protected ?c)" "0 \<le> slru_sum ?c (s_probation ?c)" "0 \<le> slru_size ?c" by simp_all
    have bound: "slru_size ?c < 2 ^ 63" using fits scost_nonneg [of "s_heap c e"] unfolding size by linarith
    then have le: "slru_sum ?c (s_protected ?c) < 2 ^ 63" "slru_sum ?c (s_probation ?c) < 2 ^ 63"
      using pos unfolding slru_size_def by linarith+
    have cost: "slru_cost ((s_heap c e)\<lparr>se_value := v, se_expireAt := x\<rparr>) = item_cost k v"
      "slru_cost (s_heap c e) = scost (s_heap c e)"
      using slru_cost_exact [OF wf e(1)] e(2) fits slru_size_nonneg [of c] item_cost_nonneg [of k v]
      by (simp_all add: slru_cost_def item_cost_def [symmetric] i64_nat_range del: slru_size_nonneg item_cost_nonneg)
    consider "e \<in> set (s_probation c)" "e \<notin> set (s_protected c)" | "e \<notin> set (s_probation c)" "e \<in> set (s_protected c)"
      using e(1) D(3) by blast
    then show ?thesis
      using bt pos le bound unfolding slru_bytes_ok_def sums size F(4,7,8) cost
      by cases (simp_all add: i64_nat_range algebra_simps)
  qed
  ultimately show "slru_wf ?c" by (simp add: slru_wf_def)
qed

lemma slru_to_protected_entries:
  assumes wf: "slru_wf c" and e: "e \<in> set (s_probation c)"
  shows "slru_prot (slru_to_protected e c) = se_entry (s_heap c e) # slru_prot c"
    and "slru_prob (slru_to_protected e c) = drop_key (se_key (s_heap c e)) (slru_prob c)"
proof -
  let ?c = "slru_to_protected e c"
  note D = slru_indexD [OF slru_wf_index [OF wf]]
  have old: "map (\<lambda>e. se_entry (s_heap ?c e)) l = map (\<lambda>e. se_entry (s_heap c e)) l"
    if "set l \<subseteq> set (s_probation c) \<union> set (s_protected c)" for l
    using that D(4,5) by (intro map_cong) auto
  show "slru_prot ?c = se_entry (s_heap c e) # slru_prot c"
    using old [of "s_protected c"] by (simp add: slru_prot_def)
  have "slru_prob ?c = map (\<lambda>e. se_entry (s_heap c e)) (list_Remove e (s_probation c))"
    using old [of "list_Remove e (s_probation c)"] by (simp add: slru_prob_def golist_simps subset_iff)
  also have "\<dots> = drop_key (se_key (s_heap c e)) (slru_prob c)"
    using slru_drop_entries [OF slru_wf_index [OF wf], of e "s_probation c"] e by (simp add: slru_prob_def)
  finally show "slru_prob ?c = drop_key (se_key (s_heap c e)) (slru_prob c)" .
qed

section \<open>The operations on lookups\<close>

definition slru_admits :: "slruCache \<Rightarrow> string \<Rightarrow> ByteView \<Rightarrow> bool" where
  "slru_admits c k v \<longleftrightarrow> s_maxBytes c = 0 \<or>
     item_cost k v + sum_of entry_cost (drop_key k (slru_prot c)) \<le> s_maxBytes c"

lemma slru_key_absent:
  assumes "slru_wf c" and "s_cache c k = None"
  shows "drop_key k (slru_prot c) = slru_prot c" and "drop_key k (slru_prob c) = slru_prob c"
  using slru_indexD(6) [OF slru_wf_index [OF assms(1)], of k] assms(2)
  by (auto simp: slru_prot_def slru_prob_def intro!: drop_key_notin) blast+

text \<open>
  Where an insertion puts the pair in the eviction order before the limits are enforced: at the
  front of its segment.
\<close>

definition slru_front_of :: "string \<Rightarrow> slruCache \<Rightarrow> entry list" where
  "slru_front_of k c =
     (case s_cache c k of
        Some e \<Rightarrow> if e \<in> set (s_protected c) then [] else drop_key k (slru_prot c)
      | None \<Rightarrow> drop_key k (slru_prot c))"

definition slru_rest_of :: "string \<Rightarrow> slruCache \<Rightarrow> entry list" where
  "slru_rest_of k c =
     (case s_cache c k of
        Some e \<Rightarrow> (if e \<in> set (s_protected c) then drop_key k (slru_prot c) else []) @ drop_key k (slru_prob c)
      | None \<Rightarrow> drop_key k (slru_prob c))"

lemma drop_key_append [simp]: "drop_key k (xs @ ys) = drop_key k xs @ drop_key k ys"
  by (simp add: drop_key_def)

lemma slru_front_rest: "slru_front_of k c @ slru_rest_of k c = drop_key k (slru_all c)"
  by (simp add: slru_front_of_def slru_rest_of_def slru_all_def split: option.splits)

lemma slru_AddWithTTL_spec:
  assumes ok: "slru_ok c" and fits: "slru_size c + item_cost k v < 2 ^ 63"
  obtains dropped where "slru_ok (slru_AddWithTTL now k v ttl c)" and "slru_frame c (slru_AddWithTTL now k v ttl c)"
    and "slru_all (slru_AddWithTTL now k v ttl c) = keep_fit (s_maxBytes c)
      (slru_front_of k c @ \<lparr>e_key = k, e_value = v, e_expireAt = expiry_of now ttl\<rparr> # slru_rest_of k c)"
    and "slru_front_of k c @ \<lparr>e_key = k, e_value = v, e_expireAt = expiry_of now ttl\<rparr> # slru_rest_of k c =
      slru_all (slru_AddWithTTL now k v ttl c) @ dropped"
    and "s_evicted (slru_AddWithTTL now k v ttl c) = s_evicted c @
      (if s_onEvicted c then map (\<lambda>kv. (e_key kv, e_value kv)) (rev dropped) else [])"
proof -
  let ?x = "if ttl > 0 then Some (now + ttl) else None"
  have wf: "slru_wf c" and max: "0 \<le> s_maxBytes c" using ok by (auto simp: slru_ok_def)
  obtain m where m: "slru_AddWithTTL now k v ttl c = slru_enforceTotalLimit m" "slru_wf m" "slru_frame c m"
    "slru_ok (slru_enforceTotalLimit m)" "s_evicted m = s_evicted c"
    "slru_all m = slru_front_of k c @ \<lparr>e_key = k, e_value = v, e_expireAt = expiry_of now ttl\<rparr> # slru_rest_of k c"
  proof (cases "s_cache c k")
    case None
    note I = slru_insert_props [OF wf None fits, of ?x]
    have "sum_of entry_cost (slru_prot (slru_insert k v ?x c)) \<le> slru_protectedMaxBytes (slru_insert k v ?x c)"
      if "s_maxBytes (slru_insert k v ?x c) \<noteq> 0"
      using that ok slru_wf_bytes(2) [OF wf] slru_frame_store(1) [of c k v ?x]
      unfolding I slru_frame_protectedMax [OF slru_frame_store(1)] by (auto simp: slru_ok_def slru_frame_def)
    then have "slru_ok (slru_enforceTotalLimit (slru_insert k v ?x c))"
      using I(1) max slru_frame_store(1) [of c k v ?x] by (intro slru_total_ok) (auto simp: slru_frame_def)
    then show ?thesis
      using I None by (intro that [of "slru_insert k v ?x c"])
        (simp_all add: slru_AddWithTTL_def slru_all_def slru_front_of_def slru_rest_of_def slru_key_absent [OF wf None] expiry_of_def)
  next
    case (Some e)
    let ?u = "slru_update e v ?x c"
    note U = slru_update_props [OF wf Some fits, of ?x]
    note P = slru_enforceProtectedLimit_props [OF U(1)]
    have "e \<in> set (s_probation c) \<longleftrightarrow> e \<notin> set (s_protected c)"
      using Some slru_indexD(3,6) [OF slru_wf_index [OF wf]] by blast
    then have "slru_all ?u = slru_front_of k c @ \<lparr>e_key = k, e_value = v, e_expireAt = expiry_of now ttl\<rparr> # slru_rest_of k c"
      using Some by (simp add: slru_all_def U slru_front_of_def slru_rest_of_def expiry_of_def)
    moreover have "slru_ok (slru_enforceTotalLimit (slru_enforceProtectedLimit ?u))"
      using U(1) max slru_frame_store(2) [of c e v ?x] by (intro slru_limits_ok) (simp_all add: slru_frame_def)
    ultimately show ?thesis
      using P Some slru_frame_trans [OF slru_frame_store(2) P(4)]
      by (intro that [of "slru_enforceProtectedLimit ?u"]) (simp_all add: slru_AddWithTTL_def)
  qed
  show ?thesis
    by (rule slru_enforceTotalLimit_props [OF m(2)], rule that)
      (use m slru_frame_trans [OF m(3)] in \<open>simp_all add: slru_frame_def\<close>)
qed

lemma find_key_drop_None [simp]: "find_key k (drop_key k es) = None"
  by simp

lemma slru_front_of_find [simp]: "find_key k (slru_front_of k c) = None"
  by (simp add: slru_front_of_def find_key_def split: option.splits) (simp flip: find_key_def)

lemma find_key_insert_mid:
  assumes "find_key k xs = None" and "xs @ ys = drop_key k zs" and "e_key kv = k"
  shows "find_key k' (xs @ kv # ys) = (if k' = k then Some kv else find_key k' zs)"
proof (cases "k' = k")
  case False
  have "find_key k' (xs @ kv # ys) = find_key k' (xs @ ys)" using False assms(3) by (auto simp: find_key_append split: option.splits)
  also have "\<dots> = find_key k' zs" using False by (simp add: assms(2))
  finally show ?thesis using False by simp
qed (use assms in \<open>simp add: find_key_append\<close>)

lemma slru_front_of_sum: "sum_of entry_cost (slru_front_of k c) \<le> sum_of entry_cost (drop_key k (slru_prot c))"
  by (auto simp: slru_front_of_def intro: total_nonneg split: option.splits)

lemma slru_AddWithTTL_lookup:
  fixes now :: time and ttl :: duration
  assumes ok: "slru_ok c" and fits: "slru_size c + item_cost k v < 2 ^ 63"
  defines "c' \<equiv> slru_AddWithTTL now k v ttl c"
  shows "slru_ok c'" and "s_maxBytes c' = s_maxBytes c"
    and "slru_lookup c' \<subseteq>\<^sub>m (slru_lookup c)(k \<mapsto> (v, expiry_of now ttl))"
    and "slru_admits c k v \<Longrightarrow> slru_lookup c' k = Some (v, expiry_of now ttl)"
    and "s_maxBytes c = 0 \<Longrightarrow> slru_lookup c' = (slru_lookup c)(k \<mapsto> (v, expiry_of now ttl))"
proof -
  let ?new = "\<lparr>e_key = k, e_value = v, e_expireAt = expiry_of now ttl\<rparr>"
  let ?order = "slru_front_of k c @ ?new # slru_rest_of k c"
  obtain dropped where c': "slru_ok c'" "slru_frame c c'" and all: "slru_all c' = keep_fit (s_maxBytes c) ?order"
    and split: "?order = slru_all c' @ dropped"
    using slru_AddWithTTL_spec [OF ok fits, of now ttl] unfolding c'_def by blast
  show "slru_ok c'" by (rule c')
  show "s_maxBytes c' = s_maxBytes c" using c'(2) by (simp add: slru_frame_def)
  have wf: "slru_wf c" "slru_wf c'" using ok c' by (auto simp: slru_ok_def)
  note L = slru_lookup_entries [OF wf(1)] slru_lookup_entries [OF wf(2)]
  have order: "find_key k' ?order = (if k' = k then Some ?new else find_key k' (slru_all c))" for k'
    by (rule find_key_insert_mid [OF slru_front_of_find slru_front_rest]) simp
  then have put: "map_option entry_pair (find_key k' ?order) = ((slru_lookup c)(k \<mapsto> (v, expiry_of now ttl))) k'" for k'
    by (simp add: L entry_pair_def)
  show "slru_lookup c' \<subseteq>\<^sub>m (slru_lookup c)(k \<mapsto> (v, expiry_of now ttl))"
  proof (rule map_leI)
    fix k' x assume "slru_lookup c' k' = Some x"
    then have "map_option entry_pair (find_key k' ?order) = Some x" unfolding split by (auto simp: L find_key_append)
    then show "((slru_lookup c)(k \<mapsto> (v, expiry_of now ttl))) k' = Some x" unfolding put .
  qed
  show "slru_lookup c' k = Some (v, expiry_of now ttl)" if "slru_admits c k v"
  proof -
    have "s_maxBytes c = 0 \<or> sum_of entry_cost (slru_front_of k c) + entry_cost ?new \<le> s_maxBytes c"
      using that slru_front_of_sum [of k c] by (auto simp: slru_admits_def entry_cost_def)
    then have "\<exists>ys. keep_fit (s_maxBytes c) ?order = slru_front_of k c @ ?new # ys"
      using take_fit_keeps [of "slru_front_of k c" entry_cost ?new "s_maxBytes c" "slru_rest_of k c"]
      by (auto simp: keep_fit_def)
    then obtain ys where "slru_all c' = slru_front_of k c @ ?new # ys" unfolding all by blast
    then show ?thesis by (simp add: L find_key_append entry_pair_def)
  qed
  show "slru_lookup c' = (slru_lookup c)(k \<mapsto> (v, expiry_of now ttl))" if "s_maxBytes c = 0"
    using that put by (auto simp: L all keep_fit_def)
qed

lemma slru_removeElement_ok:
  assumes ok: "slru_ok c" and e: "e \<in> set (s_probation c) \<union> set (s_protected c)"
  shows "slru_ok (slru_removeElement e b c)"
proof -
  have wf: "slru_wf c" using ok by (simp add: slru_ok_def)
  note R = slru_removeElement_wf [OF wf e, of b]
  have "s_protectedBytes (slru_removeElement e b c) \<le> s_protectedBytes c"
    unfolding slru_wf_bytes(2) [OF wf] slru_wf_bytes(2) [OF R(1)] slru_all_removeElement [OF wf e]
    by (rule sum_of_drop_key_le)
  moreover have "s_curbytes (slru_removeElement e b c) \<le> s_curbytes c"
    using R(2) slru_wf_bytes(1) [OF wf] slru_wf_bytes(1) [OF R(1)] by (simp add: slru_sum_entries)
  ultimately show ?thesis
    using ok R(1) slru_frame_protectedMax [OF slru_frame_steps(3)] by (auto simp: slru_ok_def)
qed

lemma slru_Remove_props:
  assumes "slru_ok c"
  shows "slru_ok (slru_Remove k c)" and "slru_frame c (slru_Remove k c)"
    and "slru_lookup (slru_Remove k c) = (slru_lookup c)(k := None)" and "slru_size (slru_Remove k c) \<le> slru_size c"
proof -
  have wf: "slru_wf c" using assms by (simp add: slru_ok_def)
  have e: "e \<in> set (s_probation c) \<union> set (s_protected c)" "se_key (s_heap c e) = k" if "s_cache c k = Some e" for e
    using that slru_indexD(6) [OF slru_wf_index [OF wf]] by auto
  show "slru_ok (slru_Remove k c)" and "slru_frame c (slru_Remove k c)"
    and "slru_size (slru_Remove k c) \<le> slru_size c"
    using e slru_removeElement_ok [OF assms] slru_removeElement_wf(2) [OF wf] assms
    by (auto simp: slru_Remove_def split: option.splits)
  show "slru_lookup (slru_Remove k c) = (slru_lookup c)(k := None)"
    using e slru_removeElement_wf(3) [OF wf]
    by (auto simp: slru_Remove_def slru_lookup_def split: option.splits)
qed

lemma slru_touch_props:
  assumes ok: "slru_ok c" and hit: "s_cache c k = Some e" and e: "e \<in> set (s_protected c)"
  defines "c' \<equiv> c\<lparr>s_protected := list_MoveToFront e (s_protected c)\<rparr>"
  shows "slru_ok c'" and "slru_prot c' = se_entry (s_heap c e) # drop_key k (slru_prot c)" and "slru_size c' = slru_size c"
proof -
  have wf: "slru_wf c" using ok by (simp add: slru_ok_def)
  note D = slru_indexD [OF slru_wf_index [OF wf]]
  have k: "se_key (s_heap c e) = k" using hit D(6) by auto
  have sum: "slru_sum c' l = slru_sum c l" for l by (simp add: slru_sum_def c'_def)
  have sums: "slru_sum c' (s_protected c') = slru_sum c (s_protected c)" "slru_sum c' (s_probation c') = slru_sum c (s_probation c)"
    using slru_sum_Move [OF D(2)] by (simp_all add: sum) (simp_all add: c'_def)
  show "slru_size c' = slru_size c" by (simp add: slru_size_def sums)
  show "slru_prot c' = se_entry (s_heap c e) # drop_key k (slru_prot c)"
    using slru_drop_entries [OF slru_wf_index [OF wf], of e "s_protected c"] e k
    by (simp add: slru_prot_def c'_def list_MoveToFront_def list_Remove_def)
  have "slru_index_ok c'"
    using slru_wf_index [OF wf] D(2,3) unfolding slru_index_ok_def by (auto simp: c'_def golist_simps)
  moreover have "slru_bytes_ok c'"
    using wf unfolding slru_wf_def slru_bytes_ok_def slru_size_def sums by (simp add: c'_def)
  moreover have "slru_protectedMaxBytes c' = slru_protectedMaxBytes c"
    by (simp add: slru_protectedMaxBytes_def c'_def)
  ultimately show "slru_ok c'" using ok by (auto simp: slru_ok_def slru_wf_def) (simp_all add: c'_def)
qed

lemma sum_drop_key_take: "sum_of entry_cost (drop_key k (take n es)) \<le> sum_of entry_cost (drop_key k es)"
proof -
  have "sum_of entry_cost (drop_key k es) =
      sum_of entry_cost (drop_key k (take n es)) + sum_of entry_cost (drop_key k (drop n es))"
    by (metis append_take_drop_id drop_key_append map_append sum_list_append)
  moreover have "0 \<le> sum_of entry_cost (drop_key k (drop n es))" by (rule total_nonneg) simp
  ultimately show ?thesis by linarith
qed

lemma slru_promote_props:
  assumes ok: "slru_ok c" and hit: "s_cache c k = Some e" and e: "e \<in> set (s_probation c)"
  shows "slru_ok (slru_promote e c)" and "slru_frame c (slru_promote e c)"
    and "slru_all (slru_promote e c) = se_entry (s_heap c e) # slru_prot c @ drop_key k (slru_prob c)"
    and "\<exists>n. slru_prot (slru_promote e c) = take n (se_entry (s_heap c e) # slru_prot c)"
    and "slru_size (slru_promote e c) = slru_size c"
proof -
  let ?p = "slru_to_protected e c"
  let ?m = "slru_enforceProtectedLimit ?p"
  have wf: "slru_wf c" and max: "0 \<le> s_maxBytes c" using ok by (auto simp: slru_ok_def)
  have k: "se_key (s_heap c e) = k" using hit slru_indexD(6) [OF slru_wf_index [OF wf]] by auto
  note T = slru_to_protected_wf [OF wf e] and E = slru_to_protected_entries [OF wf e]
  note P = slru_enforceProtectedLimit_props [OF T(1)]
  have mframe: "slru_frame c ?m" by (rule slru_frame_trans [OF slru_frame_steps(2) P(4)])
  have msize: "sum_of entry_cost (slru_all ?m) = slru_size c" using P(2) T(2) by (simp add: slru_sum_entries)
  have mall: "slru_all ?m = se_entry (s_heap c e) # slru_prot c @ drop_key k (slru_prob c)"
    using P(2) E k by (simp add: slru_all_def)
  show "slru_ok (slru_promote e c)"
    unfolding slru_promote_def using T(1) max by (intro slru_limits_ok) simp_all
  obtain dropped where d: "slru_wf (slru_promote e c)" "slru_frame ?m (slru_promote e c)"
    "slru_all (slru_promote e c) = keep_fit (s_maxBytes ?m) (slru_all ?m)"
    "slru_prot (slru_promote e c) = take (length (slru_all (slru_promote e c))) (slru_prot ?m)"
    using slru_enforceTotalLimit_props [OF P(1)] unfolding slru_promote_def by blast
  show "slru_frame c (slru_promote e c)" by (rule slru_frame_trans [OF mframe d(2)])
  have "keep_fit (s_maxBytes ?m) (slru_all ?m) = slru_all ?m"
    using ok mframe msize slru_wf_bytes(1) [OF wf] take_fit_all [of "slru_all ?m" entry_cost]
    by (auto simp: keep_fit_def slru_ok_def slru_frame_def slru_sum_entries)
  then show all: "slru_all (slru_promote e c) = se_entry (s_heap c e) # slru_prot c @ drop_key k (slru_prob c)"
    using d(3) mall by simp
  show "slru_size (slru_promote e c) = slru_size c"
    using msize all mall by (simp add: slru_sum_entries(3))
  obtain n where "slru_prot ?m = take n (slru_prot ?p)"
    using P(3) take_fit_take [of "slru_protectedMaxBytes ?p" entry_cost "slru_prot ?p"]
    by (cases "s_maxBytes ?p \<le> 0") (auto intro: that [of "length (slru_prot ?p)"])
  then show "\<exists>n. slru_prot (slru_promote e c) = take n (se_entry (s_heap c e) # slru_prot c)"
    using d(4) E(1) by (metis take_take)
qed

lemma slru_Get_props:
  assumes ok: "slru_ok c"
  shows "slru_ok (snd (slru_Get now k c))" and "slru_frame c (snd (slru_Get now k c))"
    and "fst (slru_Get now k c) = live now (slru_lookup c k)"
    and "slru_lookup (snd (slru_Get now k c)) =
      (if live now (slru_lookup c k) = None then (slru_lookup c)(k := None) else slru_lookup c)"
    and "slru_size (snd (slru_Get now k c)) \<le> slru_size c"
    and "sum_of entry_cost (drop_key k (slru_prot (snd (slru_Get now k c)))) \<le> sum_of entry_cost (drop_key k (slru_prot c))"
proof -
  have wf: "slru_wf c" using ok by (simp add: slru_ok_def)
  note D = slru_indexD [OF slru_wf_index [OF wf]] and L = slru_lookup_entries
  have "slru_ok (snd (slru_Get now k c)) \<and> slru_frame c (snd (slru_Get now k c))
    \<and> fst (slru_Get now k c) = live now (slru_lookup c k)
    \<and> slru_lookup (snd (slru_Get now k c)) =
        (if live now (slru_lookup c k) = None then (slru_lookup c)(k := None) else slru_lookup c)
    \<and> slru_size (snd (slru_Get now k c)) \<le> slru_size c
    \<and> sum_of entry_cost (drop_key k (slru_prot (snd (slru_Get now k c)))) \<le> sum_of entry_cost (drop_key k (slru_prot c))"
  proof (cases "s_cache c k")
    case None
    then show ?thesis using ok by (auto simp: slru_Get_def slru_lookup_def)
  next
    case (Some e)
    then have e: "e \<in> set (s_probation c) \<union> set (s_protected c)" "se_key (s_heap c e) = k" using D(6) by auto
    have find: "find_key k (slru_all c) = Some (se_entry (s_heap c e))" using slru_find_key [OF wf] Some by simp
    have look: "slru_lookup c k = Some (se_value (s_heap c e), se_expireAt (s_heap c e))"
      using Some by (simp add: slru_lookup_def)
    consider (expired) "expired now (se_expireAt (s_heap c e))"
      | (touch) "\<not> expired now (se_expireAt (s_heap c e))" "e \<in> set (s_protected c)" "se_seg (s_heap c e) = segProtected"
      | (promote) "\<not> expired now (se_expireAt (s_heap c e))" "e \<in> set (s_probation c)" "se_seg (s_heap c e) = segProbation"
      using e D(7,8) by blast
    then show ?thesis
    proof cases
      case expired
      then have eq: "slru_Get now k c = (None, slru_removeElement e True c)" using Some by (simp add: slru_Get_def)
      show ?thesis
        using expired slru_removeElement_ok [OF ok e(1)] slru_removeElement_wf(2,3) [OF wf e(1)] e(2) look
          sum_of_drop_key_le [of k "drop_key k (slru_prot c)"]
        by (simp add: eq slru_all_removeElement [OF wf e(1)])
    next
      case touch
      let ?t = "c\<lparr>s_protected := list_MoveToFront e (s_protected c)\<rparr>"
      note T = slru_touch_props [OF ok Some touch(2)]
      have eq: "slru_Get now k c = (Some (se_value (s_heap c e)), ?t)"
        using Some touch list_MoveToFront_front [OF D(2)] by (auto simp: slru_Get_def)
      have "slru_lookup ?t = slru_lookup c" by (rule ext) (simp add: slru_lookup_def)
      moreover have "drop_key k (slru_prot ?t) = drop_key k (slru_prot c)"
        using e(2) by (simp add: T(2)) (simp add: drop_key_def)
      ultimately show ?thesis using touch T look by (simp add: eq slru_frame_def)
    next
      case promote
      note P = slru_promote_props [OF ok Some promote(2)]
      have eq: "slru_Get now k c = (Some (se_value (s_heap c e)), slru_promote e c)"
        using Some promote by (simp add: slru_Get_def)
      have prot: "find_key k (slru_prot c) = None"
      proof -
        have "se_key (s_heap c x) \<noteq> k" if "x \<in> set (s_protected c)" for x
          using slru_key_inj [OF slru_wf_index [OF wf] e(1), of x] that e(2) promote(2) D(3) by blast
        then show ?thesis by (auto simp: find_key_def find_None_iff slru_prot_def)
      qed
      have "find_key k' (slru_all (slru_promote e c)) = find_key k' (slru_all c)" for k'
        using e(2) find prot unfolding P(3) slru_all_def [of c]
        by (cases "k' = k") (auto simp: find_key_append split: option.splits)
      then have "slru_lookup (slru_promote e c) = slru_lookup c"
        using P(1) wf by (auto simp: L slru_ok_def)
      moreover obtain n where "slru_prot (slru_promote e c) = take n (se_entry (s_heap c e) # slru_prot c)"
        using P(4) by blast
      moreover have "drop_key k (se_entry (s_heap c e) # slru_prot c) = drop_key k (slru_prot c)"
        using e(2) by (simp add: drop_key_def)
      ultimately show ?thesis
        using promote P(1,2,5) look sum_drop_key_take [of k n "se_entry (s_heap c e) # slru_prot c"] by (simp add: eq)
    qed
  qed
  then show "slru_ok (snd (slru_Get now k c))" and "slru_frame c (snd (slru_Get now k c))"
    and "fst (slru_Get now k c) = live now (slru_lookup c k)"
    and "slru_lookup (snd (slru_Get now k c)) =
      (if live now (slru_lookup c k) = None then (slru_lookup c)(k := None) else slru_lookup c)"
    and "slru_size (snd (slru_Get now k c)) \<le> slru_size c"
    and "sum_of entry_cost (drop_key k (slru_prot (snd (slru_Get now k c)))) \<le> sum_of entry_cost (drop_key k (slru_prot c))"
    by blast+
qed

lemma slru_expire_walk_props:
  assumes "slru_ok c" and "distinct es" and "set es \<subseteq> set (s_probation c) \<union> set (s_protected c)"
  shows "slru_ok (slru_expire_walk now es c) \<and> slru_frame c (slru_expire_walk now es c)
    \<and> s_heap (slru_expire_walk now es c) = s_heap c
    \<and> slru_size (slru_expire_walk now es c) \<le> slru_size c
    \<and> (set es \<subseteq> set (s_probation c) \<longrightarrow> s_protected (slru_expire_walk now es c) = s_protected c)
    \<and> (\<forall>k. s_cache (slru_expire_walk now es c) k =
        (case s_cache c k of None \<Rightarrow> None
         | Some e \<Rightarrow> if e \<in> set es \<and> expired now (se_expireAt (s_heap c e)) then None else Some e))"
  using assms
proof (induction es arbitrary: c)
  case (Cons e es)
  let ?x = "expired now (se_expireAt (s_heap c e))"
  let ?c = "if ?x then slru_removeElement e True c else c"
  have wf: "slru_wf c" using Cons.prems by (simp add: slru_ok_def)
  have ix: "slru_index_ok c" using wf by (simp add: slru_wf_def)
  have e: "e \<in> set (s_probation c) \<union> set (s_protected c)" using Cons.prems(3) by auto
  note L = slru_removeElement_lists [OF ix e, of True]
  have ok: "slru_ok ?c" using Cons.prems(1) slru_removeElement_ok [OF Cons.prems(1) e] by simp
  have sub: "set es \<subseteq> set (s_probation ?c) \<union> set (s_protected ?c)"
    using Cons.prems(2,3) by (auto simp: L golist_simps)
  have key: "s_cache c k = Some e \<longleftrightarrow> k = se_key (s_heap c e)" for k
    using slru_indexD(6) [OF ix, of k e] e by auto
  have prot: "s_protected ?c = s_protected c" "set es \<subseteq> set (s_probation ?c)" if "set (e # es) \<subseteq> set (s_probation c)"
    using that slru_indexD(3) [OF ix] Cons.prems(2) by (auto simp: L golist_simps intro!: list_Remove_notin)
  have size: "slru_size ?c \<le> slru_size c" using slru_removeElement_wf(2) [OF wf e, of True] by simp
  note IH = Cons.IH [OF ok _ sub]
  have "s_cache (slru_expire_walk now (e # es) c) k =
      (case s_cache c k of None \<Rightarrow> None
       | Some e' \<Rightarrow> if e' \<in> set (e # es) \<and> expired now (se_expireAt (s_heap c e')) then None else Some e')" for k
    using IH Cons.prems(2) key [of k] by (auto split: option.splits)
  then show ?case
    using IH Cons.prems(2) size prot slru_frame_trans [OF slru_frame_steps(3)] by auto
qed (simp split: option.splits)

lemma slru_RemoveExpired_props:
  assumes ok: "slru_ok c"
  shows "slru_ok (slru_RemoveExpired now c)" and "slru_frame c (slru_RemoveExpired now c)"
    and "slru_size (slru_RemoveExpired now c) \<le> slru_size c"
    and "slru_lookup (slru_RemoveExpired now c) k =
      (case slru_lookup c k of None \<Rightarrow> None | Some (v, x) \<Rightarrow> if expired now x then None else Some (v, x))"
proof -
  let ?c1 = "slru_expire_walk now (rev (s_probation c)) c"
  let ?c2 = "slru_RemoveExpired now c"
  have wf: "slru_wf c" using ok by (simp add: slru_ok_def)
  note D = slru_indexD [OF slru_wf_index [OF wf]]
  have W1: "slru_ok ?c1" "slru_frame c ?c1" "s_heap ?c1 = s_heap c" "slru_size ?c1 \<le> slru_size c"
    "s_protected ?c1 = s_protected c"
    "\<And>k. s_cache ?c1 k = (case s_cache c k of None \<Rightarrow> None
       | Some e \<Rightarrow> if e \<in> set (s_probation c) \<and> expired now (se_expireAt (s_heap c e)) then None else Some e)"
    using slru_expire_walk_props [OF ok, of "rev (s_probation c)" now] D(1) by (auto split: option.splits)
  have W2: "slru_ok ?c2" "slru_frame ?c1 ?c2" "s_heap ?c2 = s_heap c" "slru_size ?c2 \<le> slru_size ?c1"
    "\<And>k. s_cache ?c2 k = (case s_cache ?c1 k of None \<Rightarrow> None
       | Some e \<Rightarrow> if e \<in> set (s_protected c) \<and> expired now (se_expireAt (s_heap c e)) then None else Some e)"
    using slru_expire_walk_props [OF W1(1), of "rev (s_protected c)" now] D(2) W1(3,5)
    by (auto simp: slru_RemoveExpired_def split: option.splits)
  show "slru_ok ?c2" by (rule W2)
  show "slru_frame c ?c2" by (rule slru_frame_trans [OF W1(2) W2(2)])
  show "slru_size ?c2 \<le> slru_size c" using W1(4) W2(4) by simp
  show "slru_lookup ?c2 k =
      (case slru_lookup c k of None \<Rightarrow> None | Some (v, x) \<Rightarrow> if expired now x then None else Some (v, x))"
  proof (cases "s_cache c k")
    case (Some e)
    then have "e \<in> set (s_probation c) \<or> e \<in> set (s_protected c)" using D(6) by blast
    then show ?thesis using Some by (auto simp: slru_lookup_def W1 W2)
  qed (simp add: slru_lookup_def W1 W2)
qed

section \<open>The segmented cache as a local store\<close>

interpretation slru: local_store slru_ok slru_lookup slru_size s_maxBytes slru_admits
  "\<lambda>now k v ttl c. Some (slru_AddWithTTL now k v ttl c)" slru_Get slru_Remove
  "\<lambda>clk. slru_RemoveExpired (clk 0)"
proof (unfold_locales, goal_cases)
  case (1 c)
  then show ?case using slru_wf_bytes(1) [of c] by (auto simp: slru_ok_def slru_sum_entries)
next
  case (9 c now k)
  then show ?case using slru_Get_props(1,2) by (simp add: slru_frame_def)
next
  case (11 c k v now)
  then show ?case
    using slru_Get_props(2,6) [where c = c and now = now and k = k] by (auto simp: slru_admits_def slru_frame_def)
next
  case (12 c k)
  then show ?case using slru_Remove_props(1,2) by (simp add: slru_frame_def)
next
  case (15 c clk)
  then show ?case using slru_RemoveExpired_props(1,2) by (simp add: slru_frame_def)
next
  case (17 c clk)
  then show ?case
    by (intro map_leI) (auto simp: slru_RemoveExpired_props(4) split: option.splits if_splits)
next
  case (18 c k v x clk)
  then show ?case by (simp add: slru_RemoveExpired_props(4))
next
  case (19 c clk k v x)
  then show ?case by (auto simp: slru_RemoveExpired_props(4) split: option.splits if_splits)
qed (auto simp: slru_AddWithTTL_lookup slru_Get_props slru_Remove_props slru_RemoveExpired_props)

lemma slru_AddWithTTL_frame:
  assumes "slru_ok c" and "slru_size c + item_cost k v < 2 ^ 63"
  shows "slru_frame c (slru_AddWithTTL now k v ttl c)"
  by (rule slru_AddWithTTL_spec [OF assms])

lemma slru_reserve_admits:
  assumes "slru_ok c" and "s_maxBytes c \<noteq> 0" and "item_cost k v + slru_protectedMaxBytes c \<le> s_maxBytes c"
  shows "slru_admits c k v"
proof -
  have "sum_of entry_cost (drop_key k (slru_prot c)) \<le> s_protectedBytes c"
    using sum_of_drop_key_le slru_wf_bytes(2) [of c] assms(1) by (simp add: slru_ok_def)
  then show ?thesis using assms by (simp add: slru_admits_def slru_ok_def)
qed

interpretation slru_bounded: bounded_store slru_ok slru_lookup slru_size s_maxBytes slru_admits
  "\<lambda>now k v ttl c. Some (slru_AddWithTTL now k v ttl c)" slru_Get slru_Remove
  "\<lambda>clk. slru_RemoveExpired (clk 0)" slru_protectedMaxBytes
  by unfold_locales
    (auto simp: slru_reserve_admits intro!: slru_frame_protectedMax slru_AddWithTTL_frame
      slru_Get_props(2) slru_Remove_props(2) slru_RemoveExpired_props(2))

section \<open>Reachable caches\<close>

inductive slru_reachable :: "int \<Rightarrow> float64 \<Rightarrow> bool \<Rightarrow> slruCache \<Rightarrow> bool" for maxBytes ratio onEvicted where
  slru_start: "slru_reachable maxBytes ratio onEvicted (slru_New maxBytes ratio onEvicted)"
| slru_step_add: "slru_reachable maxBytes ratio onEvicted c \<Longrightarrow> slru_size c + item_cost k v < 2 ^ 63 \<Longrightarrow>
    slru_reachable maxBytes ratio onEvicted (slru_AddWithTTL now k v ttl c)"
| slru_step_get: "slru_reachable maxBytes ratio onEvicted c \<Longrightarrow>
    slru_reachable maxBytes ratio onEvicted (snd (slru_Get now k c))"
| slru_step_remove: "slru_reachable maxBytes ratio onEvicted c \<Longrightarrow>
    slru_reachable maxBytes ratio onEvicted (slru_Remove k c)"
| slru_step_oldest: "slru_reachable maxBytes ratio onEvicted c \<Longrightarrow>
    slru_reachable maxBytes ratio onEvicted (slru_RemoveOldest c)"
| slru_step_purge: "slru_reachable maxBytes ratio onEvicted c \<Longrightarrow>
    slru_reachable maxBytes ratio onEvicted (slru_RemoveExpired now c)"

lemma slru_New_ok: "0 \<le> m \<Longrightarrow> slru_ok (slru_New m r b)"
  using slru_protectedMaxBytes_pos [of "slru_New m r b"]
  by (simp add: slru_ok_def slru_wf_def slru_index_ok_def slru_bytes_ok_def slru_size_def slru_New_def)

lemma slru_RemoveOldest_ok: "slru_ok c \<Longrightarrow> slru_ok (slru_RemoveOldest c) \<and> slru_frame c (slru_RemoveOldest c)"
  by (auto simp: slru_RemoveOldest_def list_Back_def intro!: slru_removeElement_ok)

lemma slru_reachable_ok: "slru_reachable m r b c \<Longrightarrow> 0 \<le> m \<Longrightarrow> slru_ok c \<and> s_maxBytes c = m"
proof (induction rule: slru_reachable.induct)
  case slru_start
  then show ?case by (simp add: slru_New_ok) (simp add: slru_New_def)
next
  case (slru_step_oldest c)
  then show ?case using slru_RemoveOldest_ok [of c] by (simp add: slru_frame_def)
next
  case (slru_step_add c k v now ttl)
  then show ?case using slru_AddWithTTL_lookup(1,2) by simp
next
  case (slru_step_get c now k)
  then show ?case using slru.get_ok by simp
next
  case (slru_step_remove c k)
  then show ?case using slru.remove_ok by simp
next
  case (slru_step_purge c now)
  then show ?case using slru.purge_ok [of c "\<lambda>_. now"] by simp
qed

section \<open>Scans\<close>

text \<open>A scan: a sequence of insertions.\<close>

primrec slru_scan :: "time \<Rightarrow> duration \<Rightarrow> (string \<times> ByteView) list \<Rightarrow> slruCache \<Rightarrow> slruCache" where
  "slru_scan now ttl [] c = c"
| "slru_scan now ttl (p # ps) c = slru_scan now ttl ps (slru_AddWithTTL now (fst p) (snd p) ttl c)"

lemma slru_store_prot:
  assumes ok: "slru_ok c" and k: "k \<notin> e_key ` set (slru_prot c)"
    and room: "item_cost k v + s_protectedBytes c \<le> s_maxBytes c"
    and fits: "slru_size c + item_cost k v < 2 ^ 63" and pos: "0 < s_maxBytes c"
  shows "slru_prot (slru_AddWithTTL now k v ttl c) = slru_prot c"
proof -
  let ?x = "if ttl > 0 then Some (now + ttl) else None" and ?new = "\<lparr>e_key = k, e_value = v, e_expireAt = expiry_of now ttl\<rparr>"
  have wf: "slru_wf c" using ok by (simp add: slru_ok_def)
  have dk: "drop_key k (slru_prot c) = slru_prot c" using k by (rule drop_key_notin)
  have pm: "sum_of entry_cost (slru_prot c) \<le> slru_protectedMaxBytes c"
    using ok pos slru_wf_bytes(2) [OF wf] by (auto simp: slru_ok_def)
  obtain m where m: "slru_AddWithTTL now k v ttl c = slru_enforceTotalLimit m" "slru_wf m" "slru_frame c m"
    "slru_prot m = slru_prot c" "\<exists>ys. slru_all m = slru_prot c @ ?new # ys"
  proof (cases "s_cache c k")
    case None
    show ?thesis
      using slru_insert_props [OF wf None fits, of ?x] None
      by (intro that [of "slru_insert k v ?x c"]) (simp_all add: slru_AddWithTTL_def slru_all_def expiry_of_def)
  next
    case (Some e)
    let ?u = "slru_update e v ?x c"
    note D = slru_indexD [OF slru_wf_index [OF wf]]
    have e: "se_key (s_heap c e) = k" using Some D(6) by blast
    then have np: "e \<notin> set (s_protected c)" using k by (force simp: slru_prot_def)
    then have "e \<in> set (s_probation c)" using Some D(6) by blast
    note U = slru_update_props [OF wf Some fits, of ?x]
    note P = slru_enforceProtectedLimit_props [OF U(1)]
    have "slru_prot ?u = slru_prot c" using U(2) np dk by simp
    moreover have "take_fit (slru_protectedMaxBytes ?u) entry_cost (slru_prot c) = slru_prot c"
      using pm by (intro take_fit_all) (auto simp: slru_frame_protectedMax [OF slru_frame_store(2)])
    ultimately have "slru_prot (slru_enforceProtectedLimit ?u) = slru_prot c" using P(3) by simp
    moreover have "slru_all (slru_enforceProtectedLimit ?u) = slru_prot c @ ?new # drop_key k (slru_prob c)"
      using P(2) U np dk \<open>e \<in> set (s_probation c)\<close> by (simp add: slru_all_def expiry_of_def)
    ultimately show ?thesis
      using P Some slru_frame_trans [OF slru_frame_store(2) P(4)]
      by (intro that [of "slru_enforceProtectedLimit ?u"]) (simp_all add: slru_AddWithTTL_def)
  qed
  obtain ys where ys: "slru_all m = slru_prot c @ ?new # ys" using m(5) by blast
  have "sum_of entry_cost (slru_prot c) + entry_cost ?new \<le> s_maxBytes m"
    using room slru_wf_bytes(2) [OF wf] m(3) by (simp add: entry_cost_def slru_frame_def)
  from take_fit_keeps [OF _ _ this, of ys] obtain zs where
    "keep_fit (s_maxBytes m) (slru_all m) = slru_prot c @ ?new # zs"
    using pos m(3) unfolding ys by (auto simp: keep_fit_def slru_frame_def)
  moreover obtain dropped where "slru_all (slru_enforceTotalLimit m) = keep_fit (s_maxBytes m) (slru_all m)"
    "slru_prot (slru_enforceTotalLimit m) = take (length (slru_all (slru_enforceTotalLimit m))) (slru_prot m)"
    using slru_enforceTotalLimit_props [OF m(2)] by blast
  ultimately show ?thesis using m(1,4) by simp
qed

lemma slru_scan_keeps:
  assumes "slru_ok c" and "0 < s_maxBytes c" and "s_maxBytes c < 2 ^ 62"
    and "\<forall>(k, v) \<in> set kvs. k \<notin> e_key ` set (slru_prot c) \<and> item_cost k v + s_protectedBytes c \<le> s_maxBytes c"
  shows "slru_ok (slru_scan now ttl kvs c) \<and> slru_prot (slru_scan now ttl kvs c) = slru_prot c"
  using assms
proof (induction kvs arbitrary: c)
  case (Cons p kvs)
  obtain k v where p: "p = (k, v)" by force
  let ?c = "slru_AddWithTTL now k v ttl c"
  have wf: "slru_wf c" using Cons.prems(1) by (simp add: slru_ok_def)
  have kv: "k \<notin> e_key ` set (slru_prot c)" "item_cost k v + s_protectedBytes c \<le> s_maxBytes c"
    using Cons.prems(4) by (auto simp: p)
  have "0 \<le> s_protectedBytes c" using slru_wf_bytes(2) [OF wf] by (simp add: total_nonneg)
  then have fits: "slru_size c + item_cost k v < 2 ^ 63"
    using slru.used_bound [OF Cons.prems(1)] Cons.prems(2,3) kv(2) by simp
  note A = slru_AddWithTTL_lookup(1,2) [OF Cons.prems(1) fits, of now ttl]
  have prot: "slru_prot ?c = slru_prot c" by (rule slru_store_prot [OF Cons.prems(1) kv fits Cons.prems(2)])
  have "s_protectedBytes ?c = s_protectedBytes c"
    using slru_wf_bytes(2) [OF wf] slru_wf_bytes(2) [of ?c] A(1) prot by (simp add: slru_ok_def)
  then have "\<forall>(k, v) \<in> set kvs. k \<notin> e_key ` set (slru_prot ?c) \<and> item_cost k v + s_protectedBytes ?c \<le> s_maxBytes ?c"
    using Cons.prems(4) by (auto simp: prot A(2))
  then show ?case using Cons.IH [of ?c] A Cons.prems(2,3) prot by (simp add: p)
qed simp

text \<open>An entry that fits the protected share stays in the protected segment it is promoted to.\<close>

lemma slru_promote_front:
  assumes ok: "slru_ok c" and hit: "s_cache c k = Some e" and e: "e \<in> set (s_probation c)"
    and pos: "0 < s_maxBytes c" and share: "scost (s_heap c e) \<le> slru_protectedMaxBytes c"
  shows "se_entry (s_heap c e) \<in> set (slru_prot (slru_promote e c))"
proof -
  let ?p = "slru_to_protected e c"
  let ?m = "slru_enforceProtectedLimit ?p"
  have wf: "slru_wf c" using ok by (simp add: slru_ok_def)
  note T = slru_to_protected_wf [OF wf e] and E = slru_to_protected_entries [OF wf e]
  note P = slru_enforceProtectedLimit_props [OF T(1)]
  have "slru_protectedMaxBytes ?p = slru_protectedMaxBytes c" by (rule slru_frame_protectedMax) simp
  then have "\<exists>ys. slru_prot ?m = se_entry (s_heap c e) # ys" using P(3) E(1) pos share by simp
  moreover obtain d where "slru_prot (slru_promote e c) = take (length (slru_all (slru_promote e c))) (slru_prot ?m)"
    using slru_enforceTotalLimit_props [OF P(1)] unfolding slru_promote_def by blast
  ultimately show ?thesis using slru_promote_props(3) [OF ok hit e] by auto
qed

section \<open>Properties\<close>

text \<open>
  C4. \<open>AddWithTTL\<close> of the segmented cache leaves it well-formed and evicts only from the end of
  the eviction order (protected entries before probation ones, each most recent first): the pair is
  placed at the front of its segment, and what remains is the longest prefix that fits the limit.
  The callback is called exactly once for every dropped entry, in the order of eviction.
\<close>

theorem slru_add_evicts_in_order:
  assumes "slru_ok c" and "slru_size c + item_cost k v < 2 ^ 63"
  shows "\<exists>dropped. slru_ok (slru_AddWithTTL now k v ttl c)
    \<and> slru_all (slru_AddWithTTL now k v ttl c) = keep_fit (s_maxBytes c)
        (slru_front_of k c @ \<lparr>e_key = k, e_value = v, e_expireAt = expiry_of now ttl\<rparr> # slru_rest_of k c)
    \<and> slru_front_of k c @ \<lparr>e_key = k, e_value = v, e_expireAt = expiry_of now ttl\<rparr> # slru_rest_of k c =
        slru_all (slru_AddWithTTL now k v ttl c) @ dropped
    \<and> s_evicted (slru_AddWithTTL now k v ttl c) = s_evicted c @
        (if s_onEvicted c then map (\<lambda>kv. (e_key kv, e_value kv)) (rev dropped) else [])"
  using slru_AddWithTTL_spec [OF assms, of now ttl] by blast

theorem slru_add_evicts_in_order_witness:
  "slru_ok (slru_New 10 (Fin (1/2)) True) \<and>
   slru_all (slru_AddWithTTL 5 ''a'' (bytes_view ''xyz'') 7 (slru_New 10 (Fin (1/2)) True)) =
     [\<lparr>e_key = ''a'', e_value = bytes_view ''xyz'', e_expireAt = Some 12\<rparr>]"
proof -
  let ?c = "slru_New 10 (Fin (1/2)) True"
  have ok: "slru_ok ?c" by (simp add: slru_New_ok)
  have "slru_size ?c + item_cost ''a'' (bytes_view ''xyz'') < 2 ^ 63"
    by (simp add: slru_size_def slru_New_def item_cost_def ByteView_Len_def)
  from slru_add_evicts_in_order [OF ok this, of 5 7] ok show ?thesis
    by (simp add: slru_New_def slru_front_of_def slru_rest_of_def slru_prot_def slru_prob_def drop_key_def
        keep_fit_def entry_cost_def item_cost_def ByteView_Len_def expiry_of_def)
qed

text \<open>
  C23. Scan resistance: inserting any sequence of pairs whose keys are not in the protected segment,
  each small enough to fit beside it, leaves the protected segment untouched, entry by entry and in
  the same order.
\<close>

theorem slru_scan_resistant:
  assumes "slru_ok c" and "0 < s_maxBytes c" and "s_maxBytes c < 2 ^ 62"
    and "\<forall>(k, v) \<in> set kvs. k \<notin> e_key ` set (slru_prot c) \<and> item_cost k v + s_protectedBytes c \<le> s_maxBytes c"
  shows "slru_ok (slru_scan now ttl kvs c) \<and> slru_prot (slru_scan now ttl kvs c) = slru_prot c"
  by (rule slru_scan_keeps [OF assms])

definition slru_example :: slruCache where
  "slru_example = snd (slru_Get 1 ''h'' (slru_Add 0 ''h'' (bytes_view ''9'') (slru_New 6 (Fin (1/2)) True)))"

lemma slru_example_ok: "slru_ok slru_example"
proof -
  have "slru_size (slru_New 6 (Fin (1/2)) True) + item_cost ''h'' (bytes_view ''9'') < 2 ^ 63"
    by (simp add: slru_size_def slru_New_def item_cost_def ByteView_Len_def)
  then show ?thesis unfolding slru_example_def slru_Add_def
    by (intro slru_Get_props(1) slru_AddWithTTL_lookup(1) slru_New_ok) simp_all
qed

lemma slru_protectedMax_half:
  "s_maxBytes c = 6 \<Longrightarrow> s_protectedRatio c = Fin (1/2) \<Longrightarrow> slru_protectedMaxBytes c = 3"
  using f64_of_int_exact [of 6] f64_of_int_exact [of 3]
  by (simp add: slru_protectedMaxBytes_def f64_mul_def f64_to_i64_def rat_trunc_def in_i64_def f64_of_int_def)

lemmas slru_run = slru_Get_def slru_Add_def slru_AddWithTTL_def slru_New_def slru_insert_def slru_promote_def
  slru_to_protected_def slru_enforceProtectedLimit_def slru_enforceTotalLimit_def slru_demote_loop.simps
  slru_protectedMax_half slru_cost_def slru_removeElement_def f64_le_def list_PushFront_def list_Remove_def
  ByteView_Len_def i64_nat_range

lemma slru_example_prot:
  "slru_prot slru_example = [\<lparr>e_key = ''h'', e_value = bytes_view ''9'', e_expireAt = None\<rparr>]"
  "s_maxBytes slru_example = 6" "s_protectedBytes slru_example = 2"
  by (simp_all add: slru_example_def slru_run slru_prot_def se_entry_def)

theorem slru_scan_resistant_witness:
  "slru_prot (slru_scan 2 0 [(''a'', bytes_view ''1''), (''b'', bytes_view ''2''), (''c'', bytes_view ''3'')] slru_example)
     = [\<lparr>e_key = ''h'', e_value = bytes_view ''9'', e_expireAt = None\<rparr>]"
  unfolding slru_example_prot(1) [symmetric]
  by (rule conjunct2 [OF slru_scan_resistant [OF slru_example_ok]])
    (simp_all add: slru_example_prot item_cost_def ByteView_Len_def)

text \<open>
  A second access protects: a lookup that finds a live entry in probation returns its value and
  puts it at the front of the eviction order; with a positive limit the protected segment becomes
  the longest prefix, the entry first, that fits the protected share, and nothing is evicted.
\<close>

theorem slru_second_access_promotes:
  assumes "slru_ok c" and "s_cache c k = Some e" and "e \<in> set (s_probation c)"
    and "\<not> expired now (se_expireAt (s_heap c e))"
  shows "fst (slru_Get now k c) = Some (se_value (s_heap c e))
    \<and> slru_all (snd (slru_Get now k c)) = se_entry (s_heap c e) # slru_prot c @ drop_key k (slru_prob c)
    \<and> (0 < s_maxBytes c \<longrightarrow> scost (s_heap c e) \<le> slru_protectedMaxBytes c \<longrightarrow>
         se_entry (s_heap c e) \<in> set (slru_prot (snd (slru_Get now k c))))"
proof -
  have wf: "slru_wf c" and max: "0 \<le> s_maxBytes c" using assms(1) by (auto simp: slru_ok_def)
  have "se_seg (s_heap c e) = segProbation" using slru_indexD(7) [OF slru_wf_index [OF wf]] assms(3) by blast
  then have eq: "slru_Get now k c = (Some (se_value (s_heap c e)), slru_promote e c)"
    using assms(2,4) by (simp add: slru_Get_def)
  note P = slru_promote_props [OF assms(1-3)]
  have "se_entry (s_heap c e) \<in> set (slru_prot (slru_promote e c))"
    if "0 < s_maxBytes c" "scost (s_heap c e) \<le> slru_protectedMaxBytes c"
    using slru_promote_front [OF assms(1-3) that] .
  then show ?thesis using P(3) by (simp add: eq)
qed

theorem slru_second_access_promotes_witness:
  "let c = slru_Add 0 ''h'' (bytes_view ''9'') (slru_New 6 (Fin (1/2)) True)
   in fst (slru_Get 1 ''h'' c) = Some (bytes_view ''9'')
      \<and> \<lparr>e_key = ''h'', e_value = bytes_view ''9'', e_expireAt = None\<rparr> \<in> set (slru_prot (snd (slru_Get 1 ''h'' c)))"
proof -
  let ?c = "slru_Add 0 ''h'' (bytes_view ''9'') (slru_New 6 (Fin (1/2)) True)"
  have ok: "slru_ok ?c" unfolding slru_Add_def
    by (rule slru_AddWithTTL_lookup(1) [OF slru_New_ok])
      (simp_all add: slru_size_def slru_New_def item_cost_def ByteView_Len_def)
  have c: "s_cache ?c ''h'' = Some 0" "0 \<in> set (s_probation ?c)" "\<not> expired 1 (se_expireAt (s_heap ?c 0))"
    "se_value (s_heap ?c 0) = bytes_view ''9''" "0 < s_maxBytes ?c" "slru_protectedMaxBytes ?c = 3"
    "scost (s_heap ?c 0) = 2" "se_entry (s_heap ?c 0) = \<lparr>e_key = ''h'', e_value = bytes_view ''9'', e_expireAt = None\<rparr>"
    by (simp_all add: slru_run scost_def item_cost_def se_entry_def)
  show ?thesis using slru_second_access_promotes [OF ok c(1-3)] c(4-8) by simp
qed

text \<open>
  C22. In every reachable state of the segmented cache the index, the two lists and the segment tags
  agree, the three byte counters are the true totals, and, unless the limit is \<open>0\<close>, the total is
  within the limit and the protected segment within its share.
\<close>

theorem slru_reachable_within_capacity:
  assumes "slru_reachable maxBytes ratio onEvicted c" and "0 \<le> maxBytes"
  shows "slru_wf c \<and> s_curbytes c = s_probationBytes c + s_protectedBytes c
    \<and> s_curbytes c = sum_of entry_cost (slru_all c)
    \<and> (maxBytes \<noteq> 0 \<longrightarrow> s_curbytes c \<le> maxBytes \<and> s_protectedBytes c \<le> slru_protectedMaxBytes c)"
  using slru_reachable_ok [OF assms] slru_wf_bytes [of c] by (auto simp: slru_ok_def slru_all_def)

theorem slru_reachable_within_capacity_witness:
  "slru_reachable 6 (Fin (1/2)) True slru_example \<and> s_curbytes slru_example \<le> 6 \<and> s_protectedBytes slru_example = 2"
proof -
  have r: "slru_reachable 6 (Fin (1/2)) True slru_example"
    unfolding slru_example_def slru_Add_def
    by (intro slru_step_get slru_step_add slru_start)
      (simp add: slru_size_def slru_New_def item_cost_def ByteView_Len_def)
  then show ?thesis using slru_reachable_within_capacity [OF r] slru_example_prot by simp
qed

text \<open>
  The protected share is at least one byte and, for a limit up to \<open>2 ^ 53\<close> and a ratio between
  \<open>0\<close> and \<open>1\<close>, never more than the limit: the two roundings of the floating-point product do not
  push it over.
\<close>

theorem slru_protectedMaxBytes_bounds:
  assumes "0 < s_maxBytes c" and "s_maxBytes c \<le> 2 ^ 53" and "s_protectedRatio c = Fin r" and "0 < r" and "r < 1"
  shows "1 \<le> slru_protectedMaxBytes c \<and> slru_protectedMaxBytes c \<le> s_maxBytes c"
proof -
  let ?m = "s_maxBytes c"
  have exact: "f64_of_int ?m = Fin (of_int ?m)" by (rule f64_of_int_exact [OF assms(1,2)])
  have "0 < of_int ?m * r" using assms(1,4) by simp
  moreover have "of_int ?m * r \<le> of_int ?m" using assms(1,5) by (simp add: mult_left_le)
  ultimately obtain q where q: "f64_round (of_int ?m * r) = Fin q" "0 \<le> q" "q \<le> of_int ?m"
    using f64_round_le [of "of_int ?m * r" ?m] assms(2) by blast
  have floor: "\<lfloor>q\<rfloor> \<le> ?m" "0 \<le> \<lfloor>q\<rfloor>" using q(2,3) by (simp_all add: floor_le_iff)
  then have "in_i64 \<lfloor>q\<rfloor>" using in_i64_below [of "\<lfloor>q\<rfloor>" ?m] assms(2) by simp
  then have "f64_to_i64 (f64_mul (f64_of_int ?m) (s_protectedRatio c)) = \<lfloor>q\<rfloor>"
    using q floor by (simp add: exact assms(3) f64_mul_def f64_to_i64_def rat_trunc_def)
  then show ?thesis using floor assms(1) by (simp add: slru_protectedMaxBytes_def)
qed

theorem slru_protectedMaxBytes_bounds_witness:
  "1 \<le> slru_protectedMaxBytes (slru_New 2048 (Fin (4/5)) False) \<and> slru_protectedMaxBytes (slru_New 2048 (Fin (4/5)) False) \<le> 2048"
  using slru_protectedMaxBytes_bounds [of "slru_New 2048 (Fin (4/5)) False" "4/5"]
  by (simp add: slru_New_def f64_le_def)

end
