(* ===== verification/Stats.thy ===== *)
theory Stats
  imports Go_Float
begin

text \<open>
  \<^verbatim>\<open>stats.go\<close>: the process-wide counters, which are \<open>uint64\<close> words and wrap around, the
  windows of latency samples, the sampling of observations and the periodic summary. The atomic
  operations of the code are single updates of the record.
\<close>

section \<open>Latency windows\<close>

definition defaultLatencySampleCap :: int where
  "defaultLatencySampleCap = 8192"

record latencyWindow =
  w_samples :: "uint32 list"
  w_cap :: int

definition zero_window :: latencyWindow where
  "zero_window = \<lparr>w_samples = [], w_cap = 0\<rparr>"

definition window_observe :: "uint64 \<Rightarrow> latencyWindow \<Rightarrow> latencyWindow" where
  "window_observe us w =
     (let w = (if w_cap w \<le> 0 then w\<lparr>w_cap := defaultLatencySampleCap\<rparr> else w);
          top = ucast (- 1 :: uint32) :: uint64;
          us = (if us > top then top else us);
          v = ucast us :: uint32
      in if int (length (w_samples w)) < w_cap w then w\<lparr>w_samples := w_samples w @ [v]\<rparr>
         else let moved = tl (w_samples w) @ [last (w_samples w)]
              in w\<lparr>w_samples := moved[nat (w_cap w - 1) := v]\<rparr>)"

definition percentileIndex :: "int \<Rightarrow> float64 \<Rightarrow> int" where
  "percentileIndex n p =
     (let idx = i64 (f64_to_i64 (f64_ceil (f64_mul (f64_of_int n) p)) - 1);
          idx = (if idx < 0 then 0 else idx)
      in if idx \<ge> n then i64 (n - 1) else idx)"

text \<open>The constants \<open>0.95\<close> and \<open>0.99\<close> as \<open>float64\<close>.\<close>

definition p95_ratio :: float64 where
  "p95_ratio = f64_round (95 / 100)"

definition p99_ratio :: float64 where
  "p99_ratio = f64_round (99 / 100)"

definition p95p99AndReset :: "latencyWindow \<Rightarrow> (uint64 \<times> uint64 \<times> bool) \<times> latencyWindow" where
  "p95p99AndReset w =
     (let n = int (length (w_samples w)) in
      if n = 0 then ((0, 0, False), w)
      else
        let buf = sort (w_samples w);
            p95 = ucast (buf ! nat (percentileIndex n p95_ratio));
            p99 = ucast (buf ! nat (percentileIndex n p99_ratio))
        in ((p95, p99, True), w\<lparr>w_samples := []\<rparr>))"

section \<open>Counters\<close>

record MetricsSnapshot =
  APIRequests :: uint64
  APIErrors :: uint64
  APILatencyCount :: uint64
  APILatencyTotalMicros :: uint64
  APILastP95Micros :: uint64
  APILastP99Micros :: uint64
  GroupGets :: uint64
  GroupGetLatencyCount :: uint64
  GroupGetTotalMicros :: uint64
  GroupGetLastP95Micros :: uint64
  GroupGetLastP99Micros :: uint64
  CacheHits :: uint64
  CacheMisses :: uint64
  CacheGetLatencyCount :: uint64
  CacheGetTotalMicros :: uint64
  CacheGetLastP95Micros :: uint64
  CacheGetLastP99Micros :: uint64
  PeerLoads :: uint64
  LocalLoads :: uint64
  PeerHTTPRequests :: uint64
  FilterMisses :: uint64

record Metrics = MetricsSnapshot +
  latencySamplingEnabled :: bool
  latencySampleEvery :: uint64
  apiLatencySamples :: uint64
  groupGetLatencySamples :: uint64
  cacheGetLatencySamples :: uint64
  apiLatencyWindow :: latencyWindow
  groupGetLatencyWindow :: latencyWindow
  cacheGetLatencyWindow :: latencyWindow

definition newMetrics :: Metrics where
  "newMetrics =
     \<lparr>APIRequests = 0, APIErrors = 0, APILatencyCount = 0, APILatencyTotalMicros = 0,
      APILastP95Micros = 0, APILastP99Micros = 0, GroupGets = 0, GroupGetLatencyCount = 0,
      GroupGetTotalMicros = 0, GroupGetLastP95Micros = 0, GroupGetLastP99Micros = 0,
      CacheHits = 0, CacheMisses = 0, CacheGetLatencyCount = 0, CacheGetTotalMicros = 0,
      CacheGetLastP95Micros = 0, CacheGetLastP99Micros = 0, PeerLoads = 0, LocalLoads = 0,
      PeerHTTPRequests = 0, FilterMisses = 0, latencySamplingEnabled = True,
      latencySampleEvery = 1, apiLatencySamples = 0, groupGetLatencySamples = 0,
      cacheGetLatencySamples = 0, apiLatencyWindow = zero_window,
      groupGetLatencyWindow = zero_window, cacheGetLatencyWindow = zero_window\<rparr>"

definition Metrics_Snapshot :: "Metrics \<Rightarrow> MetricsSnapshot" where
  "Metrics_Snapshot m =
     \<lparr>APIRequests = APIRequests m, APIErrors = APIErrors m, APILatencyCount = APILatencyCount m,
      APILatencyTotalMicros = APILatencyTotalMicros m, APILastP95Micros = APILastP95Micros m,
      APILastP99Micros = APILastP99Micros m, GroupGets = GroupGets m,
      GroupGetLatencyCount = GroupGetLatencyCount m, GroupGetTotalMicros = GroupGetTotalMicros m,
      GroupGetLastP95Micros = GroupGetLastP95Micros m,
      GroupGetLastP99Micros = GroupGetLastP99Micros m, CacheHits = CacheHits m,
      CacheMisses = CacheMisses m, CacheGetLatencyCount = CacheGetLatencyCount m,
      CacheGetTotalMicros = CacheGetTotalMicros m,
      CacheGetLastP95Micros = CacheGetLastP95Micros m,
      CacheGetLastP99Micros = CacheGetLastP99Micros m, PeerLoads = PeerLoads m,
      LocalLoads = LocalLoads m, PeerHTTPRequests = PeerHTTPRequests m,
      FilterMisses = FilterMisses m\<rparr>"

definition IncAPIRequests :: "Metrics \<Rightarrow> Metrics" where
  "IncAPIRequests m = m\<lparr>APIRequests := APIRequests m + 1\<rparr>"

definition IncAPIErrors :: "Metrics \<Rightarrow> Metrics" where
  "IncAPIErrors m = m\<lparr>APIErrors := APIErrors m + 1\<rparr>"

definition IncGroupGets :: "Metrics \<Rightarrow> Metrics" where
  "IncGroupGets m = m\<lparr>GroupGets := GroupGets m + 1\<rparr>"

definition IncCacheHits :: "Metrics \<Rightarrow> Metrics" where
  "IncCacheHits m = m\<lparr>CacheHits := CacheHits m + 1\<rparr>"

definition IncCacheMisses :: "Metrics \<Rightarrow> Metrics" where
  "IncCacheMisses m = m\<lparr>CacheMisses := CacheMisses m + 1\<rparr>"

definition IncPeerLoads :: "Metrics \<Rightarrow> Metrics" where
  "IncPeerLoads m = m\<lparr>PeerLoads := PeerLoads m + 1\<rparr>"

definition IncLocalLoads :: "Metrics \<Rightarrow> Metrics" where
  "IncLocalLoads m = m\<lparr>LocalLoads := LocalLoads m + 1\<rparr>"

definition IncPeerHTTPRequests :: "Metrics \<Rightarrow> Metrics" where
  "IncPeerHTTPRequests m = m\<lparr>PeerHTTPRequests := PeerHTTPRequests m + 1\<rparr>"

definition IncFilterMisses :: "Metrics \<Rightarrow> Metrics" where
  "IncFilterMisses m = m\<lparr>FilterMisses := FilterMisses m + 1\<rparr>"

section \<open>Sampling and recording\<close>

definition SetLatencySamplingEnabled :: "bool \<Rightarrow> Metrics \<Rightarrow> Metrics" where
  "SetLatencySamplingEnabled enabled m = m\<lparr>latencySamplingEnabled := enabled\<rparr>"

text \<open>
  The conversion \<open>uint64(f)\<close>; what it gives for NaN and for values that do not fit is left to
  the implementation by the language, so it is an argument.
\<close>

definition f64_to_u64 :: "uint64 \<Rightarrow> float64 \<Rightarrow> uint64" where
  "f64_to_u64 unspecified a = (case a of
     Fin x \<Rightarrow> if 0 \<le> rat_trunc x \<and> rat_trunc x < 2 ^ 64 then of_int (rat_trunc x) else unspecified
   | _ \<Rightarrow> unspecified)"

definition SetLatencySampleRate :: "uint64 \<Rightarrow> float64 \<Rightarrow> Metrics \<Rightarrow> Metrics" where
  "SetLatencySampleRate unspecified rate m =
     (if f64_le rate (Fin 0) then m\<lparr>latencySamplingEnabled := False\<rparr>
      else
        let m = m\<lparr>latencySamplingEnabled := True\<rparr> in
        if f64_le (Fin 1) rate then m\<lparr>latencySampleEvery := 1\<rparr>
        else
          let every = f64_to_u64 unspecified (f64_div (Fin 1) rate);
              every = (if every = 0 then 1 else every)
          in m\<lparr>latencySampleEvery := every\<rparr>)"

text \<open>The result and the new value of the counter the argument points to.\<close>

definition shouldSampleLatency :: "uint64 \<Rightarrow> Metrics \<Rightarrow> bool \<times> uint64" where
  "shouldSampleLatency counter m =
     (if \<not> latencySamplingEnabled m then (False, counter)
      else
        let every = latencySampleEvery m in
        if every \<le> 1 then (True, counter)
        else ((counter + 1) mod every = 0, counter + 1))"

definition RecordAPILatency :: "duration \<Rightarrow> Metrics \<Rightarrow> Metrics" where
  "RecordAPILatency d m =
     (if d < 0 then m
      else
        let us = of_int (d div 1000) :: uint64;
            m = m\<lparr>APILatencyCount := APILatencyCount m + 1\<rparr>;
            m = m\<lparr>APILatencyTotalMicros := APILatencyTotalMicros m + us\<rparr>;
            (sample, counter) = shouldSampleLatency (apiLatencySamples m) m;
            m = m\<lparr>apiLatencySamples := counter\<rparr>
        in if sample then m\<lparr>apiLatencyWindow := window_observe us (apiLatencyWindow m)\<rparr> else m)"

definition RecordGroupGetLatency :: "duration \<Rightarrow> Metrics \<Rightarrow> Metrics" where
  "RecordGroupGetLatency d m =
     (if d < 0 then m
      else
        let us = of_int (d div 1000) :: uint64;
            m = m\<lparr>GroupGetLatencyCount := GroupGetLatencyCount m + 1\<rparr>;
            m = m\<lparr>GroupGetTotalMicros := GroupGetTotalMicros m + us\<rparr>;
            (sample, counter) = shouldSampleLatency (groupGetLatencySamples m) m;
            m = m\<lparr>groupGetLatencySamples := counter\<rparr>
        in if sample then m\<lparr>groupGetLatencyWindow := window_observe us (groupGetLatencyWindow m)\<rparr> else m)"

definition RecordCacheGetLatency :: "duration \<Rightarrow> Metrics \<Rightarrow> Metrics" where
  "RecordCacheGetLatency d m =
     (if d < 0 then m
      else
        let us = of_int (d div 1000) :: uint64;
            m = m\<lparr>CacheGetLatencyCount := CacheGetLatencyCount m + 1\<rparr>;
            m = m\<lparr>CacheGetTotalMicros := CacheGetTotalMicros m + us\<rparr>;
            (sample, counter) = shouldSampleLatency (cacheGetLatencySamples m) m;
            m = m\<lparr>cacheGetLatencySamples := counter\<rparr>
        in if sample then m\<lparr>cacheGetLatencyWindow := window_observe us (cacheGetLatencyWindow m)\<rparr> else m)"

section \<open>The periodic summary\<close>

record statsReport =
  r_apiQPS :: float64
  r_peerQPS :: float64
  r_hitRate :: float64
  r_apiAvgMs :: float64
  r_apiP95Ms :: float64
  r_apiP99Ms :: float64
  r_groupAvgMs :: float64
  r_groupP95Ms :: float64
  r_groupP99Ms :: float64
  r_cacheAvgMs :: float64
  r_cacheP95Ms :: float64
  r_cacheP99Ms :: float64

definition f64_of_u64 :: "uint64 \<Rightarrow> float64" where
  "f64_of_u64 w = f64_of_int (uint w)"

text \<open>\<open>time.Duration.Seconds\<close> of a non-negative duration.\<close>

definition duration_Seconds :: "duration \<Rightarrow> float64" where
  "duration_Seconds d =
     f64_add (f64_of_int (d div 1000000000)) (f64_div (f64_of_int (d mod 1000000000)) (Fin 1000000000))"

definition logger_interval :: "duration \<Rightarrow> duration" where
  "logger_interval interval = (if interval \<le> 0 then 5 * 1000000000 else interval)"

text \<open>The first half of the body of \<open>StartLogger\<close>'s loop: the percentiles are moved into the counters.\<close>

definition logger_collect :: "Metrics \<Rightarrow> Metrics" where
  "logger_collect m =
     (let ((apiP95, apiP99, apiOK), apiW) = p95p99AndReset (apiLatencyWindow m);
          m = m\<lparr>apiLatencyWindow := apiW\<rparr>;
          ((groupP95, groupP99, groupOK), groupW) = p95p99AndReset (groupGetLatencyWindow m);
          m = m\<lparr>groupGetLatencyWindow := groupW\<rparr>;
          ((cacheP95, cacheP99, cacheOK), cacheW) = p95p99AndReset (cacheGetLatencyWindow m);
          m = m\<lparr>cacheGetLatencyWindow := cacheW\<rparr>;
          m = (if apiOK then m\<lparr>APILastP95Micros := apiP95, APILastP99Micros := apiP99\<rparr> else m);
          m = (if groupOK then m\<lparr>GroupGetLastP95Micros := groupP95, GroupGetLastP99Micros := groupP99\<rparr> else m)
      in if cacheOK then m\<lparr>CacheGetLastP95Micros := cacheP95, CacheGetLastP99Micros := cacheP99\<rparr> else m)"

definition avg_ms :: "uint64 \<Rightarrow> uint64 \<Rightarrow> float64" where
  "avg_ms micros count =
     (if count > 0 then f64_div (f64_div (f64_of_u64 micros) (f64_of_u64 count)) (Fin 1000) else Fin 0)"

definition micros_ms :: "uint64 \<Rightarrow> float64" where
  "micros_ms micros = f64_div (f64_of_u64 micros) (Fin 1000)"

definition logger_report :: "duration \<Rightarrow> MetricsSnapshot \<Rightarrow> MetricsSnapshot \<Rightarrow> statsReport" where
  "logger_report interval prev current =
     (let seconds = duration_Seconds interval;
          seconds = (if f64_le seconds (Fin 0) then Fin 1 else seconds)
      in \<lparr>r_apiQPS = f64_div (f64_of_u64 (APIRequests current - APIRequests prev)) seconds,
          r_peerQPS = f64_div (f64_of_u64 (PeerHTTPRequests current - PeerHTTPRequests prev)) seconds,
          r_hitRate = (if GroupGets current > 0
             then f64_mul (f64_div (f64_of_u64 (CacheHits current)) (f64_of_u64 (GroupGets current))) (Fin 100)
             else Fin 0),
          r_apiAvgMs = avg_ms (APILatencyTotalMicros current) (APILatencyCount current),
          r_apiP95Ms = micros_ms (APILastP95Micros current), r_apiP99Ms = micros_ms (APILastP99Micros current),
          r_groupAvgMs = avg_ms (GroupGetTotalMicros current) (GroupGetLatencyCount current),
          r_groupP95Ms = micros_ms (GroupGetLastP95Micros current), r_groupP99Ms = micros_ms (GroupGetLastP99Micros current),
          r_cacheAvgMs = avg_ms (CacheGetTotalMicros current) (CacheGetLatencyCount current),
          r_cacheP95Ms = micros_ms (CacheGetLastP95Micros current), r_cacheP99Ms = micros_ms (CacheGetLastP99Micros current)\<rparr>)"

text \<open>One tick: the new metrics, the snapshot kept as \<open>prev\<close>, and the numbers that are logged.\<close>

definition logger_tick ::
  "duration \<Rightarrow> MetricsSnapshot \<times> Metrics \<Rightarrow> statsReport \<times> MetricsSnapshot \<times> Metrics" where
  "logger_tick interval pm =
     (let (prev, m) = pm;
          m = logger_collect m;
          current = Metrics_Snapshot m
      in (logger_report (logger_interval interval) prev current, current, m))"

section \<open>Windows keep the latest samples\<close>

definition clamp_us :: "uint64 \<Rightarrow> uint32" where
  "clamp_us us = (if us > ucast (- 1 :: uint32) then - 1 else ucast us)"

definition window_ok :: "latencyWindow \<Rightarrow> bool" where
  "window_ok w \<longleftrightarrow> (w_samples w = [] \<and> w_cap w = 0)
     \<or> w_cap w = defaultLatencySampleCap \<and> int (length (w_samples w)) \<le> defaultLatencySampleCap"

lemma u32_top: "ucast (ucast (- 1 :: uint32) :: uint64) = (- 1 :: uint32)"
  by code_simp

lemma window_observe_samples:
  assumes "window_ok w"
  shows "w_samples (window_observe us w) =
     drop (Suc (length (w_samples w)) - 8192) (w_samples w @ [clamp_us us])"
    and "window_ok (window_observe us w)"
proof -
  have v: "(if us > ucast (- 1 :: uint32) then ucast (ucast (- 1 :: uint32) :: uint64) else ucast us) = clamp_us us"
    by (simp add: clamp_us_def u32_top)
  show "w_samples (window_observe us w) =
     drop (Suc (length (w_samples w)) - 8192) (w_samples w @ [clamp_us us])"
  proof (cases "length (w_samples w) < 8192")
    case True
    then show ?thesis using assms v
      by (auto simp: window_ok_def window_observe_def defaultLatencySampleCap_def if_distrib [of ucast] split: if_splits)
  next
    case False
    then have "length (w_samples w) = 8192" and "w_cap w = 8192"
      using assms by (auto simp: window_ok_def defaultLatencySampleCap_def)
    moreover from this obtain x xs where "w_samples w = x # xs" by (cases "w_samples w") auto
    ultimately show ?thesis using v
      by (auto simp: window_observe_def list_update_append clamp_us_def)
  qed
  then show "window_ok (window_observe us w)"
    using assms by (auto simp: window_ok_def window_observe_def defaultLatencySampleCap_def)
qed

lemma window_fold_ok: "window_ok (fold window_observe us zero_window)"
  by (induction us rule: rev_induct)
    (simp add: window_ok_def zero_window_def, simp add: window_observe_samples(2))

section \<open>Percentiles are nearest ranks\<close>

lemma p95_ratio_value: "p95_ratio = Fin (8556839292003942 / 2 ^ 53)"
  using f64_round_at [of "-1" "95/100" 8556839292003942] by (simp add: p95_ratio_def power_int_minus)

lemma p99_ratio_value: "p99_ratio = Fin (8917127262193582 / 2 ^ 53)"
  using f64_round_at [of "-1" "99/100" 8917127262193582] by (simp add: p99_ratio_def power_int_minus)

lemma percentileIndex_rank:
  assumes n: "1 \<le> n" "n \<le> 2 ^ 20" and p: "1 / 2 \<le> p" "p \<le> of_int a / 100" "of_int a / 100 - p \<le> 1 / 2 ^ 53"
    and a: "a \<le> 100"
  shows "percentileIndex n (Fin p) = \<lceil>of_int (n * a) / (100 :: rat)\<rceil> - 1"
proof -
  define k where "k = \<lceil>of_int (n * a) / (100 :: rat)\<rceil>"
  let ?x = "of_int n * p"
  have "of_int k - 1 < of_int (n * a) / (100 :: rat)" and "of_int (n * a) / (100 :: rat) \<le> of_int k"
    using ceiling_correct [of "of_int (n * a) / (100 :: rat)"] by (simp_all only: k_def)
  then have k: "of_int (n * a) \<le> (100 * of_int k :: rat)" "100 * (of_int k - 1) < (of_int (n * a) :: rat)"
    by (simp_all add: field_simps)
  have "(of_int (n * a) :: rat) \<le> of_int (100 * k)" and "(of_int (100 * (k - 1)) :: rat) < of_int (n * a)"
    using k by simp_all
  then have ki: "n * a \<le> 100 * k" "100 * (k - 1) + 1 \<le> n * a"
    by (simp_all only: of_int_le_iff of_int_less_iff)
  have nr: "1 \<le> (of_int n :: rat)" "(of_int n :: rat) \<le> 2 ^ 20"
    using n by simp_all
  have a50: "50 \<le> a" using p(1,2) by linarith
  have kb: "1 \<le> k" "k \<le> n"
  proof -
    have "0 < n * a" using n(1) a50 by simp
    then show "1 \<le> k" using ki(1) by linarith
    have "n * a \<le> n * 100" using a n(1) by (intro mult_left_mono) auto
    then have "100 * k \<le> n * 100 + 99" using ki(2) by (simp add: algebra_simps)
    then show "k \<le> n" by linarith
  qed
  have lo: "of_int (n * a) / 100 - of_int n / 2 ^ 53 \<le> ?x"
  proof -
    have "of_int n * (of_int a / 100 - p) \<le> of_int n * (1 / 2 ^ 53)"
      using p(3) nr(1) by (intro mult_left_mono) auto
    then show ?thesis by (simp add: algebra_simps)
  qed
  have hi: "?x \<le> of_int n" using p(2) a nr(1) by (intro mult_left_le) (auto intro: order_trans)
  have up: "?x \<le> of_int k"
  proof -
    have "?x \<le> of_int n * (of_int a / 100)" using p(2) nr(1) by (intro mult_left_mono) auto
    then show ?thesis using k(1) by simp
  qed
  have half: "1 / 2 \<le> ?x" using mult_mono [of 1 "of_int n" "1 / 2" p] nr(1) p(1) by simp
  obtain r where r: "f64_round ?x = Fin r" "r \<le> of_int k"
    using f64_round_le [of ?x k] half up kb n(2) by (auto intro: less_le_trans)
  have "\<bar>r - ?x\<bar> \<le> of_int n / 2 ^ 53"
    using f64_round_error [OF half r(1)] hi by (meson divide_right_mono order_trans zero_le_numeral zero_le_power)
  then have "of_int (n * a) / 100 - 2 * (of_int n / 2 ^ 53) \<le> r" using lo by linarith
  moreover have "(of_int n :: rat) / 2 ^ 53 < 1 / 1000" using nr(2) by simp
  moreover have "of_int k - 1 + 1 / 100 \<le> (of_int (n * a) :: rat) / 100"
  proof -
    have "(of_int (100 * (k - 1) + 1) :: rat) \<le> of_int (n * a)" using ki(2) by (simp only: of_int_le_iff)
    then show ?thesis by simp
  qed
  ultimately have "of_int k - 1 < r" by linarith
  then have ceil: "\<lceil>r\<rceil> = k" using r(2) by linarith
  have exact: "f64_of_int n = Fin (of_int n)" using f64_of_int_exact [of n] n by simp
  have "in_i64 k" and "in_i64 (k - 1)" using kb n by (simp_all add: in_i64_def)
  then have "percentileIndex n (Fin p) = k - 1"
    using kb by (simp add: percentileIndex_def exact f64_mul_def r(1) f64_ceil_def f64_to_i64_def
        rat_trunc_def ceil i64_id)
  then show ?thesis by (simp only: k_def)
qed

lemma percentileIndex_95: "1 \<le> n \<Longrightarrow> n \<le> 2 ^ 20 \<Longrightarrow> percentileIndex n p95_ratio = \<lceil>of_int (n * 95) / (100 :: rat)\<rceil> - 1"
  unfolding p95_ratio_value by (rule percentileIndex_rank) simp_all

lemma percentileIndex_99: "1 \<le> n \<Longrightarrow> n \<le> 2 ^ 20 \<Longrightarrow> percentileIndex n p99_ratio = \<lceil>of_int (n * 99) / (100 :: rat)\<rceil> - 1"
  unfolding p99_ratio_value by (rule percentileIndex_rank) simp_all

text \<open>How many samples lie below, and not above, the value at a rank of the sorted window.\<close>

lemma sorted_rank:
  assumes "i < length xs"
  shows "i < length (filter (\<lambda>s. s \<le> sort xs ! i) xs)"
    and "length (filter (\<lambda>s. s < sort xs ! i) xs) \<le> i"
proof -
  let ?ys = "sort xs"
  have len: "length (filter P xs) = card {j. j < length ?ys \<and> P (?ys ! j)}" for P
    using length_filter_conv_card [of P ?ys] by (metis filter_sort length_sort)
  have i: "i < length ?ys" using assms by simp
  have "{..i} \<subseteq> {j. j < length ?ys \<and> ?ys ! j \<le> ?ys ! i}"
    using i by (auto intro: sorted_nth_mono)
  then have "card {..i} \<le> card {j. j < length ?ys \<and> ?ys ! j \<le> ?ys ! i}" by (intro card_mono) auto
  then show "i < length (filter (\<lambda>s. s \<le> ?ys ! i) xs)" by (simp only: len) simp
  have "{j. j < length ?ys \<and> ?ys ! j < ?ys ! i} \<subseteq> {..<i}"
    using i by (auto simp: not_le [symmetric] intro: sorted_nth_mono)
  then have "card {j. j < length ?ys \<and> ?ys ! j < ?ys ! i} \<le> card {..<i}" by (intro card_mono) auto
  then show "length (filter (\<lambda>s. s < ?ys ! i) xs) \<le> i" by (simp only: len) simp
qed

lemma nearest_rank:
  assumes "xs \<noteq> []" and "length xs \<le> 2 ^ 20" and "0 < a" and "a \<le> 100"
    and "idx = \<lceil>of_int (int (length xs) * a) / (100 :: rat)\<rceil> - 1"
  shows "nat idx < length xs"
    and "int (length xs) * a \<le> 100 * int (length (filter (\<lambda>s. s \<le> sort xs ! nat idx) xs))"
    and "100 * int (length (filter (\<lambda>s. s < sort xs ! nat idx) xs)) < int (length xs) * a"
proof -
  let ?n = "int (length xs)"
  define k where "k = \<lceil>of_int (?n * a) / (100 :: rat)\<rceil>"
  have "of_int k - 1 < of_int (?n * a) / (100 :: rat)" and "of_int (?n * a) / (100 :: rat) \<le> of_int k"
    using ceiling_correct [of "of_int (?n * a) / (100 :: rat)"] by (simp_all only: k_def)
  then have "(of_int (?n * a) :: rat) \<le> of_int (100 * k)" and "(of_int (100 * (k - 1)) :: rat) < of_int (?n * a)"
    by (simp_all add: field_simps)
  then have k: "?n * a \<le> 100 * k" "100 * (k - 1) < ?n * a" by (simp_all only: of_int_le_iff of_int_less_iff)
  have pos: "0 < ?n * a" using assms(1,3) by simp
  have le: "?n * a \<le> ?n * 100" using assms(4) by (intro mult_left_mono) auto
  have "100 * k < ?n * 100 + 100" using k(2) le by (simp add: algebra_simps)
  then have kb: "1 \<le> k" "k \<le> ?n" using k(1) pos by linarith+
  have idx: "idx = k - 1" using assms(5) by (simp only: k_def)
  show lt: "nat idx < length xs" using kb by (simp add: idx nat_less_iff)
  have "k \<le> int (length (filter (\<lambda>s. s \<le> sort xs ! nat idx) xs))"
    using sorted_rank(1) [OF lt] kb(1) by (simp add: idx)
  then show "?n * a \<le> 100 * int (length (filter (\<lambda>s. s \<le> sort xs ! nat idx) xs))" using k(1) by linarith
  have "int (length (filter (\<lambda>s. s < sort xs ! nat idx) xs)) \<le> k - 1"
    using sorted_rank(2) [OF lt] kb(1) by (simp add: idx)
  then have "100 * int (length (filter (\<lambda>s. s < sort xs ! nat idx) xs)) \<le> 100 * (k - 1)" by simp
  then show "100 * int (length (filter (\<lambda>s. s < sort xs ! nat idx) xs)) < ?n * a" using k(2) by (rule le_less_trans)
qed

section \<open>Properties\<close>

text \<open>
  Whatever is observed, a latency window holds the latest \<open>8192\<close> observations in order, each
  capped at the largest \<open>uint32\<close>.
\<close>

theorem window_keeps_latest:
  "w_samples (fold window_observe us zero_window) = drop (length us - 8192) (map clamp_us us)"
proof (induction us rule: rev_induct)
  case (snoc u us)
  then show ?case
    using window_observe_samples(1) [OF window_fold_ok [of us], of u] 
    by (cases "length us < 8192") (auto simp: Suc_diff_le [symmetric])
qed (simp add: zero_window_def)

text \<open>
  C35. The percentiles of a window are nearest ranks, in spite of the two floating-point roundings:
  at least \<open>95%\<close> of the samples are not above the reported 95th percentile and fewer than
  \<open>95%\<close> are below it, the same holds for \<open>99%\<close>, and the window is empty afterwards.
\<close>

theorem percentiles_are_nearest_ranks:
  assumes "w_samples w \<noteq> []" and "length (w_samples w) \<le> 2 ^ 20"
    and "p95p99AndReset w = ((p95, p99, ready), w')"
  shows "ready \<and> w_samples w' = []
    \<and> 95 * length (w_samples w) \<le> 100 * length (filter (\<lambda>s. ucast s \<le> p95) (w_samples w))
    \<and> 100 * length (filter (\<lambda>s. ucast s < p95) (w_samples w)) < 95 * length (w_samples w)
    \<and> 99 * length (w_samples w) \<le> 100 * length (filter (\<lambda>s. ucast s \<le> p99) (w_samples w))
    \<and> 100 * length (filter (\<lambda>s. ucast s < p99) (w_samples w)) < 99 * length (w_samples w)"
proof -
  let ?xs = "w_samples w" and ?n = "int (length (w_samples w))"
  have n: "1 \<le> ?n" "?n \<le> 2 ^ 20" using assms(1,2) by (simp_all add: Suc_le_eq)
  have "unat (ucast s :: uint64) = unat s" for s :: uint32
  proof -
    have "unat s < 2 ^ 32" using unsigned_less [of s, where 'a = nat] by simp
    then show ?thesis by (simp add: unsigned_ucast_eq take_bit_nat_eq_self)
  qed
  then have cmp: "(ucast s \<le> (ucast t :: uint64)) = (s \<le> t)" "(ucast s < (ucast t :: uint64)) = (s < t)" for s t :: uint32
    by (simp_all add: word_le_nat_alt word_less_nat_alt)
  have p: "p95 = ucast (sort ?xs ! nat (percentileIndex ?n p95_ratio))"
    "p99 = ucast (sort ?xs ! nat (percentileIndex ?n p99_ratio))" and "ready" "w_samples w' = []"
    using assms(1,3) by (auto simp: p95p99AndReset_def)
  then show ?thesis
    using nearest_rank [OF assms(1,2) _ _ percentileIndex_95 [OF n]]
      nearest_rank [OF assms(1,2) _ _ percentileIndex_99 [OF n]] by (simp add: cmp mult.commute)
qed

lemma p95_of_one: "percentileIndex 1 p95_ratio = 0" "percentileIndex 1 p99_ratio = 0"
  by (simp_all add: percentileIndex_95 percentileIndex_99 ceiling_eq_iff)

theorem percentiles_are_nearest_ranks_witness:
  "p95p99AndReset \<lparr>w_samples = [7], w_cap = 8192\<rparr> = ((7, 7, True), \<lparr>w_samples = [], w_cap = 8192\<rparr>)
   \<and> 95 * length [7 :: uint32] \<le> 100 * length (filter (\<lambda>s. ucast s \<le> (7 :: uint64)) [7 :: uint32])"
proof -
  have run: "p95p99AndReset \<lparr>w_samples = [7], w_cap = 8192\<rparr> = ((7, 7, True), \<lparr>w_samples = [], w_cap = 8192\<rparr>)"
    by (simp add: p95p99AndReset_def p95_of_one)
  then show ?thesis
    using percentiles_are_nearest_ranks [OF _ _ run] by simp
qed

text \<open>The observations that are sampled when \<open>n\<close> of them arrive one after the other.\<close>

primrec sample_run :: "nat \<Rightarrow> uint64 \<Rightarrow> Metrics \<Rightarrow> bool list" where
  "sample_run 0 counter m = []"
| "sample_run (Suc n) counter m =
     (let (sample, counter') = shouldSampleLatency counter m in sample # sample_run n counter' m)"

lemma sample_run_nth:
  assumes "latencySamplingEnabled m" and "1 < latencySampleEvery m" and "unat counter + n < 2 ^ 64" and "i < n"
  shows "sample_run n counter m ! i \<longleftrightarrow> (unat counter + i + 1) mod unat (latencySampleEvery m) = 0"
  using assms
proof (induction n arbitrary: counter i)
  case (Suc n)
  have every: "\<not> latencySampleEvery m \<le> 1" using Suc.prems(2) by simp
  have inc: "unat (counter + 1) = unat counter + 1"
    using Suc.prems(3) by (simp add: unat_word_ariths)
  have head: "shouldSampleLatency counter m = ((unat counter + 1) mod unat (latencySampleEvery m) = 0, counter + 1)"
    using Suc.prems(1) every inc by (simp add: shouldSampleLatency_def unat_mod flip: unat_eq_0)
  show ?case
  proof (cases i)
    case (Suc j)
    then show ?thesis using Suc.IH [of "counter + 1" j] Suc.prems head inc by simp
  qed (simp add: head)
qed simp

text \<open>
  With sampling every \<open>k > 1\<close> observations, exactly the observations whose number is a
  multiple of \<open>k\<close> are sampled.
\<close>

theorem sampling_takes_every_kth:
  assumes "latencySamplingEnabled m" and "1 < latencySampleEvery m" and "n < 2 ^ 64" and "i < n"
  shows "sample_run n 0 m ! i \<longleftrightarrow> unat (latencySampleEvery m) dvd i + 1"
  using sample_run_nth [OF assms(1,2) _ assms(4), of 0] assms(3) by (simp add: dvd_eq_mod_eq_0)

theorem sampling_takes_every_kth_witness:
  "sample_run 5 0 (newMetrics\<lparr>latencySampleEvery := 2\<rparr>) ! 3 \<and> \<not> sample_run 5 0 (newMetrics\<lparr>latencySampleEvery := 2\<rparr>) ! 4"
  using sampling_takes_every_kth [of "newMetrics\<lparr>latencySampleEvery := 2\<rparr>" 5 3]
    sampling_takes_every_kth [of "newMetrics\<lparr>latencySampleEvery := 2\<rparr>" 5 4]
  by (simp add: newMetrics_def)

end
