(* ===== verification/Local_Cache.thy ===== *)
theory Local_Cache
  imports Slru Stats Go_Error
begin

text \<open>
  \<^verbatim>\<open>cache.go\<close>: the mutex-protected local cache, which creates its LRU or SLRU store on first
  use, and its numeric increment. Every method holds the mutex for its whole body, so a method
  is one step. The store laws are those of the locale \<open>local_store\<close>; this theory lifts them to
  the interface \<open>Cache\<close>, the locale \<open>group_cache\<close> below, which a \<open>Group\<close> relies on.
\<close>

section \<open>The store behind a cache\<close>

datatype localCache = LruStore lruCache | SlruStore slruCache

primrec store_AddWithTTL :: "time \<Rightarrow> string \<Rightarrow> ByteView \<Rightarrow> duration \<Rightarrow> localCache \<Rightarrow> localCache option" where
  "store_AddWithTTL now k v ttl (LruStore c) = map_option LruStore (lru_AddWithTTL now k v ttl c)"
| "store_AddWithTTL now k v ttl (SlruStore c) = Some (SlruStore (slru_AddWithTTL now k v ttl c))"

primrec store_Add :: "time \<Rightarrow> string \<Rightarrow> ByteView \<Rightarrow> localCache \<Rightarrow> localCache option" where
  "store_Add now k v (LruStore c) = map_option LruStore (lru_Add now k v c)"
| "store_Add now k v (SlruStore c) = Some (SlruStore (slru_Add now k v c))"

primrec store_Get :: "time \<Rightarrow> string \<Rightarrow> localCache \<Rightarrow> ByteView option \<times> localCache" where
  "store_Get now k (LruStore c) = (let (r, c') = lru_Get now k c in (r, LruStore c'))"
| "store_Get now k (SlruStore c) = (let (r, c') = slru_Get now k c in (r, SlruStore c'))"

primrec store_Remove :: "string \<Rightarrow> localCache \<Rightarrow> localCache" where
  "store_Remove k (LruStore c) = LruStore (lru_Remove k c)"
| "store_Remove k (SlruStore c) = SlruStore (slru_Remove k c)"

primrec store_RemoveExpired :: "clock \<Rightarrow> localCache \<Rightarrow> localCache" where
  "store_RemoveExpired clk (LruStore c) = LruStore (lru_RemoveExpired clk c)"
| "store_RemoveExpired clk (SlruStore c) = SlruStore (slru_RemoveExpired (clk 0) c)"

section \<open>The cache\<close>

record cache =
  c_store :: "localCache option"
  c_cacheBytes :: int
  c_onEvicted :: bool
  c_useSLRU :: bool
  c_slruProtectedRatio :: float64

definition new_cache :: "int \<Rightarrow> bool \<Rightarrow> bool \<Rightarrow> float64 \<Rightarrow> cache" where
  "new_cache cacheBytes onEvicted useSLRU ratio =
     \<lparr>c_store = None, c_cacheBytes = cacheBytes, c_onEvicted = onEvicted, c_useSLRU = useSLRU,
      c_slruProtectedRatio = ratio\<rparr>"

text \<open>
  The store always gets a callback; that callback calls \<open>onEvicted\<close> only when the latter is
  not nil, so the calls of \<open>onEvicted\<close> are \<open>cache_evictions\<close>.
\<close>

definition ensureStore :: "cache \<Rightarrow> localCache" where
  "ensureStore c = (case c_store c of
     Some s \<Rightarrow> s
   | None \<Rightarrow>
       if c_useSLRU c then SlruStore (slru_New (c_cacheBytes c) (c_slruProtectedRatio c) True)
       else LruStore (lru_New (c_cacheBytes c) True))"

definition cache_evictions :: "cache \<Rightarrow> (string \<times> ByteView) list" where
  "cache_evictions c =
     (if c_onEvicted c
      then case c_store c of
             None \<Rightarrow> [] | Some (LruStore s) \<Rightarrow> l_evicted s | Some (SlruStore s) \<Rightarrow> s_evicted s
      else [])"

text \<open>\<open>None\<close> is a call that does not return, which the LRU store allows.\<close>

definition cache_add :: "time \<Rightarrow> string \<Rightarrow> ByteView \<Rightarrow> cache \<Rightarrow> cache option" where
  "cache_add now key value c =
     map_option (\<lambda>s. c\<lparr>c_store := Some s\<rparr>) (store_Add now key value (ensureStore c))"

definition cache_addWithTTL :: "time \<Rightarrow> string \<Rightarrow> ByteView \<Rightarrow> duration \<Rightarrow> cache \<Rightarrow> cache option" where
  "cache_addWithTTL now key value ttl c =
     map_option (\<lambda>s. c\<lparr>c_store := Some s\<rparr>) (store_AddWithTTL now key value ttl (ensureStore c))"

definition cache_lookup :: "time \<Rightarrow> string \<Rightarrow> cache \<Rightarrow> ByteView option \<times> cache" where
  "cache_lookup now key c = (case c_store c of
     None \<Rightarrow> (None, c)
   | Some s \<Rightarrow> (case store_Get now key s of
       (Some v, s') \<Rightarrow> (Some v, c\<lparr>c_store := Some s'\<rparr>)
     | (None, s') \<Rightarrow> (None, c\<lparr>c_store := Some s'\<rparr>)))"

text \<open>
  \<open>get\<close> reads the clock at its start, in the store, and in its deferred function, which records
  the latency.
\<close>

definition cache_get ::
  "time \<Rightarrow> time \<Rightarrow> time \<Rightarrow> string \<Rightarrow> cache \<Rightarrow> Metrics \<Rightarrow> ByteView option \<times> cache \<times> Metrics" where
  "cache_get start now done key c m =
     (let (r, c') = cache_lookup now key c
      in (r, c', RecordCacheGetLatency (done - start) m))"

definition parseNumericValue :: "bytes \<Rightarrow> int result" where
  "parseNumericValue raw = (case ParseInt (TrimSpace raw) of
     None \<Rightarrow> Inl ErrNonNumericValue
   | Some n \<Rightarrow> Inr n)"

definition current_number :: "ByteView option \<Rightarrow> int result" where
  "current_number r = (case r of
     Some view \<Rightarrow>
       if \<not> isNotFound view \<and> length (bv_b view) > 0 then parseNumericValue (bv_b view) else Inr 0
   | None \<Rightarrow> Inr 0)"

definition cache_increment ::
  "time \<Rightarrow> time \<Rightarrow> string \<Rightarrow> int \<Rightarrow> duration \<Rightarrow> (bytes \<Rightarrow> ByteView) option \<Rightarrow> cache
    \<Rightarrow> (int result \<times> cache) option" where
  "cache_increment now1 now2 key delta ttl makeValue c =
     (let (r, s) = store_Get now1 key (ensureStore c);
          c = c\<lparr>c_store := Some s\<rparr>
      in case current_number r of
           Inl err \<Rightarrow> Some (Inl err, c)
         | Inr current \<Rightarrow>
             let nxt = i64 (current + delta);
                 raw = FormatInt nxt;
                 value = (case makeValue of None \<Rightarrow> bytes_view raw | Some f \<Rightarrow> f raw)
             in map_option (\<lambda>s. (Inr nxt, c\<lparr>c_store := Some s\<rparr>)) (store_AddWithTTL now2 key value ttl s))"

definition cache_remove :: "string \<Rightarrow> cache \<Rightarrow> cache" where
  "cache_remove key c = (case c_store c of
     None \<Rightarrow> c
   | Some s \<Rightarrow> c\<lparr>c_store := Some (store_Remove key s)\<rparr>)"

definition cache_clearupExpired :: "clock \<Rightarrow> cache \<Rightarrow> cache" where
  "cache_clearupExpired clk c = (case c_store c of
     None \<Rightarrow> c
   | Some s \<Rightarrow> c\<lparr>c_store := Some (store_RemoveExpired clk s)\<rparr>)"

section \<open>The two stores provide one interface\<close>

primrec store_ok :: "localCache \<Rightarrow> bool" where
  "store_ok (LruStore c) = lru_ok c"
| "store_ok (SlruStore c) = slru_ok c"

primrec store_look :: "localCache \<Rightarrow> string \<Rightarrow> (ByteView \<times> expiry) option" where
  "store_look (LruStore c) = lru_lookup c"
| "store_look (SlruStore c) = slru_lookup c"

primrec store_used :: "localCache \<Rightarrow> int" where
  "store_used (LruStore c) = lru_size c"
| "store_used (SlruStore c) = slru_size c"

primrec store_limit :: "localCache \<Rightarrow> int" where
  "store_limit (LruStore c) = l_maxBytes c"
| "store_limit (SlruStore c) = s_maxBytes c"

primrec store_admits :: "localCache \<Rightarrow> string \<Rightarrow> ByteView \<Rightarrow> bool" where
  "store_admits (LruStore c) = lru_admits c"
| "store_admits (SlruStore c) = slru_admits c"

lemma store_Get_eq [simp]:
  "store_Get now k (LruStore c) = (fst (lru_Get now k c), LruStore (snd (lru_Get now k c)))"
  "store_Get now k (SlruStore s) = (fst (slru_Get now k s), SlruStore (snd (slru_Get now k s)))"
  by (simp_all add: case_prod_beta)

declare store_Get.simps [simp del]

text \<open>The part of the capacity that new pairs never get: the protected share of the SLRU store.\<close>

primrec store_reserve :: "localCache \<Rightarrow> int" where
  "store_reserve (LruStore c) = 0"
| "store_reserve (SlruStore c) = slru_protectedMaxBytes c"

interpretation store: local_store store_ok store_look store_used store_limit store_admits
  store_AddWithTTL store_Get store_Remove store_RemoveExpired
proof (unfold_locales, goal_cases)
  case (2 c k v now ttl)
  then show ?case by (cases c) (auto dest: lru.add_returns)
next
  case (5 c k v now ttl c')
  then show ?case by (cases c) (auto simp: lru.add_stores slru.add_stores)
next
  case (6 c k v now ttl c')
  then show ?case by (cases c) (auto simp: lru.add_unbounded slru.add_unbounded)
next
  case (18 c k v x clk)
  then show ?case by (cases c) (auto simp: lru.purge_keeps slru.purge_keeps)
next
  case (19 c clk k v x)
  then show ?case by (cases c) (auto dest: lru.purge_drops slru.purge_drops)
next
  case (3 c k v now ttl c')
  then show ?case by (cases c) (auto dest: lru.add_ok slru.add_ok)
next
  case (4 c k v now ttl c')
  then show ?case by (cases c) (auto simp: lru.add_look slru.add_look)
next
  case (8 c now k)
  then show ?case by (cases c) (simp_all add: lru.get_look slru.get_look)
next
  case (1 c)
  then show ?case by (cases c) (auto simp: lru.used_bound slru.used_bound)
next
  case (7 c now k)
  then show ?case by (cases c) (auto simp: lru.get_result slru.get_result)
next
  case (9 c now k)
  then show ?case by (cases c) (auto simp: lru.get_ok slru.get_ok)
next
  case (10 c now k)
  then show ?case by (cases c) (auto simp: lru.get_used slru.get_used)
next
  case (11 c k v now)
  then show ?case by (cases c) (auto simp: lru.get_admits slru.get_admits)
next
  case (12 c k)
  then show ?case by (cases c) (auto simp: lru.remove_ok slru.remove_ok)
next
  case (13 c k)
  then show ?case by (cases c) (auto simp: lru.remove_look slru.remove_look)
next
  case (14 c k)
  then show ?case by (cases c) (auto simp: lru.remove_used slru.remove_used)
next
  case (15 c clk)
  then show ?case by (cases c) (auto simp: lru.purge_ok slru.purge_ok)
next
  case (16 c clk)
  then show ?case by (cases c) (auto simp: lru.purge_used slru.purge_used)
next
  case (17 c clk)
  then show ?case by (cases c) (auto simp: lru.purge_look slru.purge_look)
qed

interpretation store_bounded: bounded_store store_ok store_look store_used store_limit store_admits
  store_AddWithTTL store_Get store_Remove store_RemoveExpired store_reserve
proof (unfold_locales, goal_cases)
  case (1 c k v)
  then show ?case by (cases c) (auto simp: lru_bounded.reserve_admits slru_bounded.reserve_admits)
next
  case (2 c k v now ttl c')
  then show ?case by (cases c) (auto simp: slru_bounded.add_reserve)
next
  case (3 c now k)
  then show ?case by (cases c) (auto simp: slru_bounded.get_reserve)
next
  case (4 c k)
  then show ?case by (cases c) (auto simp: slru_bounded.remove_reserve)
next
  case (5 c clk)
  then show ?case by (cases c) (auto simp: slru_bounded.purge_reserve)
qed

section \<open>The interface of a group's caches\<close>

text \<open>
  The interface \<open>Cache\<close>, with the laws a \<open>Group\<close> relies on. \<open>room\<close> says that the byte counters
  cannot overflow, \<open>admits\<close> that the next insertion keeps its pair, and \<open>fits\<close> that every
  insertion does, now and after any operation. \<open>None\<close> is a call that panics or never returns.
\<close>

definition number_view :: "(bytes \<Rightarrow> ByteView) option \<Rightarrow> int \<Rightarrow> ByteView" where
  "number_view makeValue n = (case makeValue of None \<Rightarrow> bytes_view (FormatInt n) | Some f \<Rightarrow> f (FormatInt n))"

text \<open>A constructor of values that neither changes the bytes nor marks the value as missing.\<close>

definition plain_view :: "(bytes \<Rightarrow> ByteView) option \<Rightarrow> bool" where
  "plain_view makeValue \<longleftrightarrow>
     (case makeValue of None \<Rightarrow> True | Some f \<Rightarrow> \<forall>b. bv_b (f b) = b \<and> \<not> isNotFound (f b))"

lemma current_number_view:
  assumes "plain_view mk" and "in_i64 n"
  shows "current_number (Some (number_view mk n)) = Inr n"
proof -
  have "bv_b (number_view mk n) = FormatInt n" "\<not> isNotFound (number_view mk n)"
    using assms(1) by (auto simp: number_view_def plain_view_def split: option.splits)
  then show ?thesis using assms(2)
    by (simp add: current_number_def parseNumericValue_def ParseInt_FormatInt)
qed

text \<open>
  A sequence of increments of one key without a TTL. The mutex serialises concurrent callers, so
  every interleaving of their calls is such a sequence.
\<close>

primrec increments ::
  "(time \<Rightarrow> time \<Rightarrow> string \<Rightarrow> int \<Rightarrow> duration \<Rightarrow> (bytes \<Rightarrow> ByteView) option \<Rightarrow> 'c \<Rightarrow> (int result \<times> 'c) option)
   \<Rightarrow> string \<Rightarrow> (bytes \<Rightarrow> ByteView) option \<Rightarrow> (time \<times> time \<times> int) list \<Rightarrow> 'c \<Rightarrow> (int result list \<times> 'c) option" where
  "increments inc k mk [] c = Some ([], c)"
| "increments inc k mk (x # xs) c = (case x of (now1, now2, delta) \<Rightarrow>
     (case inc now1 now2 k delta 0 mk c of None \<Rightarrow> None
      | Some (r, c') \<Rightarrow> map_option (\<lambda>(rs, c''). (r # rs, c'')) (increments inc k mk xs c')))"

definition increment_sum :: "(time \<times> time \<times> int) list \<Rightarrow> int" where
  "increment_sum xs = sum_list (map (\<lambda>(_, _, d). d) xs)"

locale group_cache =
  fixes ok :: "'c \<Rightarrow> bool"
    and look :: "'c \<Rightarrow> string \<Rightarrow> (ByteView \<times> expiry) option"
    and room admits fits :: "'c \<Rightarrow> string \<Rightarrow> ByteView \<Rightarrow> bool"
    and add :: "time \<Rightarrow> string \<Rightarrow> ByteView \<Rightarrow> duration \<Rightarrow> 'c \<Rightarrow> 'c option"
    and get :: "time \<Rightarrow> string \<Rightarrow> 'c \<Rightarrow> (ByteView option \<times> 'c) option"
    and increment :: "time \<Rightarrow> time \<Rightarrow> string \<Rightarrow> int \<Rightarrow> duration \<Rightarrow> (bytes \<Rightarrow> ByteView) option \<Rightarrow> 'c
      \<Rightarrow> (int result \<times> 'c) option"
    and remove :: "string \<Rightarrow> 'c \<Rightarrow> 'c option"
    and purge :: "(nat \<Rightarrow> clock) \<Rightarrow> 'c \<Rightarrow> 'c"
  assumes add_returns: "ok c \<Longrightarrow> room c k v \<Longrightarrow> \<exists>c'. add now k v ttl c = Some c'"
    and add_ok: "ok c \<Longrightarrow> room c k v \<Longrightarrow> add now k v ttl c = Some c' \<Longrightarrow> ok c'"
    and add_look: "ok c \<Longrightarrow> room c k v \<Longrightarrow> add now k v ttl c = Some c' \<Longrightarrow>
      look c' \<subseteq>\<^sub>m (look c)(k \<mapsto> (v, expiry_of now ttl))"
    and add_stores: "ok c \<Longrightarrow> room c k v \<Longrightarrow> add now k v ttl c = Some c' \<Longrightarrow> admits c k v \<Longrightarrow>
      look c' k = Some (v, expiry_of now ttl)"
    and get_returns: "ok c \<Longrightarrow> \<exists>c'. get now k c = Some (live now (look c k), c')"
    and get_ok: "ok c \<Longrightarrow> get now k c = Some (r, c') \<Longrightarrow> ok c'"
    and get_look: "ok c \<Longrightarrow> get now k c = Some (r, c') \<Longrightarrow>
      look c' = (if live now (look c k) = None then (look c)(k := None) else look c)"
    and get_room: "ok c \<Longrightarrow> get now k c = Some (r, c') \<Longrightarrow> room c k' v \<Longrightarrow> room c' k' v"
    and get_admits: "ok c \<Longrightarrow> get now k c = Some (r, c') \<Longrightarrow> admits c k v \<Longrightarrow> admits c' k v"
    and increment_eq: "ok c \<Longrightarrow> increment now1 now2 k delta ttl mk c =
      (case get now1 k c of None \<Rightarrow> None
       | Some (r, c1) \<Rightarrow> (case current_number r of
           Inl err \<Rightarrow> Some (Inl err, c1)
         | Inr n \<Rightarrow> map_option (Pair (Inr (i64 (n + delta)))) (add now2 k (number_view mk (i64 (n + delta))) ttl c1)))"
    and remove_ok: "ok c \<Longrightarrow> \<exists>c'. remove k c = Some c' \<and> ok c' \<and> look c' = (look c)(k := None)"
    and purge_ok: "ok c \<Longrightarrow> ok (purge clk c)"
    and purge_look: "ok c \<Longrightarrow> look (purge clk c) \<subseteq>\<^sub>m look c"
    and purge_keeps: "ok c \<Longrightarrow> look c k = Some (v, x) \<Longrightarrow> (\<And>i n. \<not> expired (clk i n) x) \<Longrightarrow>
      look (purge clk c) k = Some (v, x)"
    and fits_room: "ok c \<Longrightarrow> fits c k v \<Longrightarrow> room c k v \<and> admits c k v"
    and add_fits: "ok c \<Longrightarrow> room c k v \<Longrightarrow> add now k v ttl c = Some c' \<Longrightarrow> fits c' k' v' = fits c k' v'"
    and get_fits: "ok c \<Longrightarrow> get now k c = Some (r, c') \<Longrightarrow> fits c' k' v' = fits c k' v'"
    and remove_fits: "ok c \<Longrightarrow> remove k c = Some c' \<Longrightarrow> fits c' k' v' = fits c k' v'"
    and purge_fits: "ok c \<Longrightarrow> fits (purge clk c) k' v' = fits c k' v'"
begin

lemma get_value: "ok c \<Longrightarrow> get now k c = Some (r, c') \<Longrightarrow> r = live now (look c k)"
  using get_returns [of c now k] by auto

lemma add_then_get:
  assumes "ok c" and "room c k v" and "admits c k v"
  shows "\<exists>c' c''. add now k v ttl c = Some c'
    \<and> get t k c' = Some (if 0 < ttl \<and> now + ttl < t then None else Some v, c'')"
proof -
  obtain c' where c': "add now k v ttl c = Some c'" using add_returns [OF assms(1,2)] by blast
  have "look c' k = Some (v, expiry_of now ttl)" using add_stores [OF assms(1,2) c' assms(3)] .
  then show ?thesis using c' get_returns [OF add_ok [OF assms(1,2) c'], of t k] by auto
qed

lemma remove_then_get: "ok c \<Longrightarrow> \<exists>c' c''. remove k c = Some c' \<and> get t k c' = Some (None, c'')"
proof -
  assume "ok c"
  then obtain c' where "remove k c = Some c'" "ok c'" "look c' = (look c)(k := None)"
    using remove_ok [of c k] by blast
  then show ?thesis using get_returns [of c' t k] by auto
qed

text \<open>One increment of an unexpired number, and of a missing one.\<close>

lemma increment_number:
  assumes "ok c" and "current_number (live now1 (look c k)) = Inr n"
    and "fits c k (number_view mk (i64 (n + delta)))"
  obtains c' where "increment now1 now2 k delta ttl mk c = Some (Inr (i64 (n + delta)), c')" and "ok c'"
    and "look c' k = Some (number_view mk (i64 (n + delta)), expiry_of now2 ttl)"
    and "\<And>k' v. fits c' k' v = fits c k' v"
proof -
  let ?v = "number_view mk (i64 (n + delta))"
  obtain c1 where c1: "get now1 k c = Some (live now1 (look c k), c1)" using get_returns [OF assms(1)] by blast
  have 1: "ok c1" "fits c1 k ?v" using get_ok [OF assms(1) c1] get_fits [OF assms(1) c1] assms(3) by auto
  then obtain c' where c': "add now2 k ?v ttl c1 = Some c'" using add_returns fits_room by blast
  note room = fits_room [OF 1]
  show ?thesis
  proof
    show "increment now1 now2 k delta ttl mk c = Some (Inr (i64 (n + delta)), c')"
      using c1 c' assms by (simp add: increment_eq)
    show "ok c'" using add_ok [OF 1(1) _ c'] room by blast
    show "look c' k = Some (?v, expiry_of now2 ttl)" using add_stores [OF 1(1) _ c'] room by blast
    show "fits c' k' v = fits c k' v" for k' v
      using add_fits [OF 1(1) _ c'] room get_fits [OF assms(1) c1] by simp
  qed
qed

lemma increments_number:
  assumes "ok c" and "plain_view mk" and "\<And>n. in_i64 n \<Longrightarrow> fits c k (number_view mk n)"
    and "look c k = Some (number_view mk n, None)" and "in_i64 n"
  shows "\<exists>c'. increments increment k mk xs c =
      Some (map (\<lambda>i. Inr (i64 (n + increment_sum (take (Suc i) xs)))) [0..<length xs], c') \<and> ok c'
      \<and> look c' k = Some (number_view mk (i64 (n + increment_sum xs)), None)"
  using assms
proof (induction xs arbitrary: c n)
  case Nil
  then show ?case by (simp add: increment_sum_def i64_id)
next
  case (Cons x xs)
  obtain now1 now2 d where x: "x = (now1, now2, d)" by (cases x) auto
  have cur: "current_number (live now1 (look c k)) = Inr n"
    using Cons.prems(2,4,5) by (simp add: current_number_view)
  obtain c1 where c1: "increment now1 now2 k d 0 mk c = Some (Inr (i64 (n + d)), c1)" "ok c1"
    "look c1 k = Some (number_view mk (i64 (n + d)), None)" "\<And>k' v. fits c1 k' v = fits c k' v"
    using increment_number [OF Cons.prems(1) cur, of mk d now2 0] Cons.prems(3) by (auto simp: expiry_of_def)
  obtain c' where c': "increments increment k mk xs c1 =
      Some (map (\<lambda>i. Inr (i64 (i64 (n + d) + increment_sum (take (Suc i) xs)))) [0..<length xs], c')" "ok c'"
    "look c' k = Some (number_view mk (i64 (i64 (n + d) + increment_sum xs)), None)"
    using Cons.IH [OF c1(2) Cons.prems(2) _ c1(3)] Cons.prems(3) c1(4) by auto
  have E: "map (\<lambda>i. Inr (i64 (n + increment_sum (take (Suc i) (x # xs))))) [0..<length (x # xs)] =
    Inr (i64 (n + d)) # map (\<lambda>i. Inr (i64 (n + d + increment_sum (take (Suc i) xs)))) [0..<length xs]"
    by (simp add: x increment_sum_def upt_conv_Cons map_Suc_upt [symmetric] o_def add.assoc del: upt_Suc)
  show ?case unfolding E using c1 c' by (simp add: x increment_sum_def add.assoc)
qed

lemma increments_fresh:
  assumes "ok c" and "plain_view mk" and "\<And>n. in_i64 n \<Longrightarrow> fits c k (number_view mk n)"
    and "look c k = None" and "xs \<noteq> []"
  shows "\<exists>c'. increments increment k mk xs c =
      Some (map (\<lambda>i. Inr (i64 (increment_sum (take (Suc i) xs)))) [0..<length xs], c') \<and> ok c'
      \<and> look c' k = Some (number_view mk (i64 (increment_sum xs)), None)"
proof -
  obtain now1 now2 d ys where xs: "xs = (now1, now2, d) # ys" using assms(5) by (metis list.exhaust prod_cases3)
  have cur: "current_number (live now1 (look c k)) = Inr 0" using assms(4) by (simp add: current_number_def)
  obtain c1 where c1: "increment now1 now2 k d 0 mk c = Some (Inr (i64 d), c1)" "ok c1"
    "look c1 k = Some (number_view mk (i64 d), None)" "\<And>k' v. fits c1 k' v = fits c k' v"
    using increment_number [OF assms(1) cur, of mk d now2 0] assms(3) by (auto simp: expiry_of_def)
  obtain c' where c': "increments increment k mk ys c1 =
      Some (map (\<lambda>i. Inr (i64 (i64 d + increment_sum (take (Suc i) ys)))) [0..<length ys], c')" "ok c'"
    "look c' k = Some (number_view mk (i64 (i64 d + increment_sum ys)), None)"
    using increments_number [OF c1(2) assms(2) _ c1(3), of ys] assms(3) c1(4) by auto
  have E: "map (\<lambda>i. Inr (i64 (increment_sum (take (Suc i) xs)))) [0..<length xs] =
    Inr (i64 d) # map (\<lambda>i. Inr (i64 (d + increment_sum (take (Suc i) ys)))) [0..<length ys]"
    by (simp add: xs increment_sum_def upt_conv_Cons map_Suc_upt [symmetric] o_def del: upt_Suc)
  show ?thesis unfolding E using c1 c' by (simp add: xs increment_sum_def)
qed

lemma increment_rejected:
  assumes "ok c" and "current_number (live now1 (look c k)) = Inl err"
  obtains c' where "increment now1 now2 k delta ttl mk c = Some (Inl err, c')" and "ok c'" and "look c' k = look c k"
proof -
  obtain c1 where c1: "get now1 k c = Some (live now1 (look c k), c1)" using get_returns [OF assms(1)] by blast
  have "live now1 (look c k) \<noteq> None" using assms(2) by (auto simp: current_number_def split: option.splits)
  then have "look c1 k = look c k" using get_look [OF assms(1) c1] by auto
  then show ?thesis using that c1 assms get_ok [OF assms(1) c1] by (simp add: increment_eq)
qed

end

section \<open>The cache implements the interface\<close>

text \<open>
  \<open>ensureStore\<close> is the abstraction: a cache without a store behaves as one with a fresh store.
\<close>

definition cache_ok :: "cache \<Rightarrow> bool" where
  "cache_ok c = store_ok (ensureStore c)"

definition cache_look :: "cache \<Rightarrow> string \<Rightarrow> (ByteView \<times> expiry) option" where
  "cache_look c = store_look (ensureStore c)"

definition cache_room :: "cache \<Rightarrow> string \<Rightarrow> ByteView \<Rightarrow> bool" where
  "cache_room c k v \<longleftrightarrow> store_used (ensureStore c) + item_cost k v < 2 ^ 63"

definition cache_admits :: "cache \<Rightarrow> string \<Rightarrow> ByteView \<Rightarrow> bool" where
  "cache_admits c = store_admits (ensureStore c)"

definition cache_fits :: "cache \<Rightarrow> string \<Rightarrow> ByteView \<Rightarrow> bool" where
  "cache_fits c k v \<longleftrightarrow> (let s = ensureStore c in
     store_limit s \<noteq> 0 \<and> store_limit s + item_cost k v < 2 ^ 63
     \<and> item_cost k v + store_reserve s \<le> store_limit s)"

lemmas cache_abs_defs = cache_ok_def cache_look_def cache_room_def cache_admits_def cache_fits_def

lemma ensureStore_stored [simp]: "ensureStore (c\<lparr>c_store := Some s\<rparr>) = s"
  by (simp add: ensureStore_def)

text \<open>The operations on a fresh store change nothing a client can see.\<close>

lemma fresh_store [simp]:
  "lru_Get now k (lru_New b e) = (None, lru_New b e)" "lru_Remove k (lru_New b e) = lru_New b e"
  "lru_RemoveExpired clk (lru_New b e) = lru_New b e"
  "slru_Get now k (slru_New b r e) = (None, slru_New b r e)" "slru_Remove k (slru_New b r e) = slru_New b r e"
  "slru_RemoveExpired now (slru_New b r e) = slru_New b r e"
  by (simp_all add: lru_Get_def lru_Remove_def lru_RemoveExpired_def lru_New_def
      slru_Get_def slru_Remove_def slru_RemoveExpired_def slru_New_def)

lemma cache_lookup_store:
  "cache_lookup now k c = (fst (store_Get now k (ensureStore c)), snd (cache_lookup now k c))"
  "ensureStore (snd (cache_lookup now k c)) = snd (store_Get now k (ensureStore c))"
  by (auto simp: cache_lookup_def ensureStore_def split: option.splits prod.splits)

lemma cache_remove_store: "ensureStore (cache_remove k c) = store_Remove k (ensureStore c)"
  by (auto simp: cache_remove_def ensureStore_def split: option.splits)

lemma cache_purge_store: "ensureStore (cache_clearupExpired clk c) = store_RemoveExpired clk (ensureStore c)"
  by (auto simp: cache_clearupExpired_def ensureStore_def split: option.splits)

lemma cache_add_store:
  "cache_addWithTTL now k v ttl c = Some c' \<longleftrightarrow>
   (\<exists>s. store_AddWithTTL now k v ttl (ensureStore c) = Some s \<and> c' = c\<lparr>c_store := Some s\<rparr>)"
  by (auto simp: cache_addWithTTL_def)

lemma store_Add_TTL: "store_Add now k v s = store_AddWithTTL now k v 0 s"
  by (cases s) (simp_all add: lru_Add_def slru_Add_def)

lemma cache_add_TTL: "cache_add now k v c = cache_addWithTTL now k v 0 c"
  by (simp add: cache_add_def cache_addWithTTL_def store_Add_TTL)

lemma cache_store_update [simp]: "c\<lparr>c_store := x, c_store := y\<rparr> = c\<lparr>c_store := y\<rparr>"
  by simp

lemma cache_lookup_update: "(snd (cache_lookup now k c))\<lparr>c_store := s\<rparr> = c\<lparr>c_store := s\<rparr>"
  by (auto simp: cache_lookup_def split: option.splits prod.splits)

text \<open>
  \<open>increment\<close> calls the store directly; it is a lookup of the cache followed by an insertion.
\<close>

lemma cache_increment_steps:
  "cache_increment now1 now2 k delta ttl mk c =
     (case cache_lookup now1 k c of (r, c1) \<Rightarrow> (case current_number r of
        Inl err \<Rightarrow> Some (Inl err, c1)
      | Inr n \<Rightarrow> map_option (Pair (Inr (i64 (n + delta))))
          (cache_addWithTTL now2 k (number_view mk (i64 (n + delta))) ttl c1)))"
proof -
  obtain r s where g: "store_Get now1 k (ensureStore c) = (r, s)" by force
  obtain c1 where l: "cache_lookup now1 k c = (r, c1)" "ensureStore c1 = s"
    using cache_lookup_store [of now1 k c] g by (metis fst_conv snd_conv)
  have err: "c1 = c\<lparr>c_store := Some s\<rparr>" if "current_number r = Inl err" for err
  proof (cases "c_store c")
    case None
    then have "r = None" using g by (auto simp: ensureStore_def split: if_splits)
    then show ?thesis using that by (simp add: current_number_def)
  next
    case (Some st)
    then show ?thesis using g l by (auto simp: ensureStore_def cache_lookup_def split: prod.splits option.splits)
  qed
  have upd: "c1\<lparr>c_store := x\<rparr> = c\<lparr>c_store := x\<rparr>" for x
    using cache_lookup_update [where now = now1 and k = k and c = c and s = x] l(1) by simp
  show ?thesis
    using err by (auto simp: cache_increment_def g l cache_addWithTTL_def upd number_view_def option.map_comp o_def
        split: sum.splits)
qed

interpretation local: group_cache cache_ok cache_look cache_room cache_admits cache_fits cache_addWithTTL
  "\<lambda>now k c. Some (cache_lookup now k c)" cache_increment "\<lambda>k c. Some (cache_remove k c)"
  "\<lambda>clk. cache_clearupExpired (clk 0)"
proof (unfold_locales, goal_cases)
  case (1 c k v now ttl)
  then show ?case using store.add_returns by (auto simp: cache_abs_defs cache_addWithTTL_def)
next
  case (2 c k v now ttl c')
  then show ?case using store.add_ok by (auto simp: cache_abs_defs cache_add_store)
next
  case (3 c k v now ttl c')
  then show ?case using store.add_look by (auto simp: cache_abs_defs cache_add_store)
next
  case (4 c k v now ttl c')
  then show ?case using store.add_stores by (auto simp: cache_abs_defs cache_add_store)
next
  case (5 c now k)
  then show ?case
    using store.get_result cache_lookup_store(1) [of now k c] by (auto simp: cache_abs_defs)
next
  case (6 c now k r c')
  then show ?case
    using store.get_ok cache_lookup_store(2) [of now k c] by (auto simp: cache_abs_defs)
next
  case (7 c now k r c')
  then show ?case
    using store.get_look cache_lookup_store(2) [of now k c] by (auto simp: cache_abs_defs)
next
  case (8 c now k r c' k' v)
  then show ?case
    using store.get_used [of "ensureStore c" now k] cache_lookup_store(2) [of now k c] by (auto simp: cache_abs_defs)
next
  case (9 c now k r c' v)
  then show ?case
    using store.get_admits cache_lookup_store(2) [of now k c] by (auto simp: cache_abs_defs)
next
  case (10 c now1 now2 k delta ttl mk)
  then show ?case by (simp add: cache_increment_steps)
next
  case (11 c k)
  then show ?case using store.remove_ok store.remove_look by (auto simp: cache_abs_defs cache_remove_store)
next
  case (12 c clk)
  then show ?case using store.purge_ok by (auto simp: cache_abs_defs cache_purge_store)
next
  case (13 c clk)
  then show ?case using store.purge_look by (auto simp: cache_abs_defs cache_purge_store)
next
  case (14 c k v x clk)
  then show ?case using store.purge_keeps by (auto simp: cache_abs_defs cache_purge_store)
next
  case (15 c k v)
  then show ?case
    using store.used_bound [of "ensureStore c"] store_bounded.reserve_admits [of "ensureStore c" k v]
    by (auto simp: cache_abs_defs)
next
  case (16 c k v now ttl c' k' v')
  then show ?case
    using store.add_ok store_bounded.add_reserve by (auto simp: cache_abs_defs cache_add_store)
next
  case (17 c now k r c' k' v')
  then show ?case
    using store.get_ok store_bounded.get_reserve cache_lookup_store(2) [of now k c] by (auto simp: cache_abs_defs)
next
  case (18 c k c' k' v')
  then show ?case using store.remove_ok store_bounded.remove_reserve by (auto simp: cache_abs_defs cache_remove_store)
next
  case (19 c clk k' v')
  then show ?case using store.purge_ok store_bounded.purge_reserve by (simp add: cache_abs_defs cache_purge_store)
qed

end
