(* ===== verification/Sharded_Cache.thy ===== *)
theory Sharded_Cache
  imports Local_Cache
begin

text \<open>
  \<^verbatim>\<open>sharded.go\<close> and \<^verbatim>\<open>increment_locks.go\<close>: the cache split into shards by the DJB hash of the
  key, and the striped locks that use the same hash. The last part is the type of the values of
  the interface \<open>Cache\<close>: its methods are unexported, so the local and the sharded cache are its
  only implementations.
\<close>

unbundle bit_operations_syntax

section \<open>Hash and shards\<close>

primrec djb33_loop :: "string \<Rightarrow> uint32 \<Rightarrow> uint32" where
  "djb33_loop [] d = d"
| "djb33_loop (c # cs) d = djb33_loop cs ((d * 33) XOR of_nat (of_char c))"

definition djb33 :: "uint32 \<Rightarrow> string \<Rightarrow> uint32" where
  "djb33 seed k =
     (let d = djb33_loop k (5381 + seed + of_nat (length k)) in d XOR drop_bit 16 d)"

record ShardedCache =
  sh_seed :: uint32
  sh_m :: uint32
  sh_cs :: "cache list"

definition newShardedCache :: "uint32 \<Rightarrow> uint32 \<Rightarrow> int \<Rightarrow> bool \<Rightarrow> bool \<Rightarrow> float64 \<Rightarrow> ShardedCache" where
  "newShardedCache seed m cacheBytes onEvicted useSLRU ratio =
     \<lparr>sh_seed = seed, sh_m = m,
      sh_cs = map (\<lambda>_. new_cache cacheBytes onEvicted useSLRU ratio) [0..<unat m]\<rparr>"

text \<open>The index of a key's shard; \<open>None\<close> is the panic of a division by zero or of a slice index.\<close>

definition sharded_bucket :: "string \<Rightarrow> ShardedCache \<Rightarrow> nat option" where
  "sharded_bucket key sc =
     (if sh_m sc = 0 then None
      else let idx = unat (djb33 (sh_seed sc) key mod sh_m sc)
           in if idx < length (sh_cs sc) then Some idx else None)"

definition sharded_add :: "time \<Rightarrow> string \<Rightarrow> ByteView \<Rightarrow> ShardedCache \<Rightarrow> ShardedCache option" where
  "sharded_add now key value sc = (case sharded_bucket key sc of
     None \<Rightarrow> None
   | Some i \<Rightarrow> map_option (\<lambda>c. sc\<lparr>sh_cs := (sh_cs sc)[i := c]\<rparr>) (cache_add now key value (sh_cs sc ! i)))"

definition sharded_addWithTTL ::
  "time \<Rightarrow> string \<Rightarrow> ByteView \<Rightarrow> duration \<Rightarrow> ShardedCache \<Rightarrow> ShardedCache option" where
  "sharded_addWithTTL now key value ttl sc = (case sharded_bucket key sc of
     None \<Rightarrow> None
   | Some i \<Rightarrow> map_option (\<lambda>c. sc\<lparr>sh_cs := (sh_cs sc)[i := c]\<rparr>)
                (cache_addWithTTL now key value ttl (sh_cs sc ! i)))"

definition sharded_get ::
  "time \<Rightarrow> time \<Rightarrow> time \<Rightarrow> string \<Rightarrow> ShardedCache \<Rightarrow> Metrics \<Rightarrow> (ByteView option \<times> ShardedCache \<times> Metrics) option" where
  "sharded_get start now done key sc m = (case sharded_bucket key sc of
     None \<Rightarrow> None
   | Some i \<Rightarrow> (case cache_get start now done key (sh_cs sc ! i) m of
       (r, c, m') \<Rightarrow> Some (r, sc\<lparr>sh_cs := (sh_cs sc)[i := c]\<rparr>, m')))"

definition sharded_increment ::
  "time \<Rightarrow> time \<Rightarrow> string \<Rightarrow> int \<Rightarrow> duration \<Rightarrow> (bytes \<Rightarrow> ByteView) option \<Rightarrow> ShardedCache
    \<Rightarrow> (int result \<times> ShardedCache) option" where
  "sharded_increment now1 now2 key delta ttl makeValue sc = (case sharded_bucket key sc of
     None \<Rightarrow> None
   | Some i \<Rightarrow> map_option (\<lambda>(r, c). (r, sc\<lparr>sh_cs := (sh_cs sc)[i := c]\<rparr>))
                (cache_increment now1 now2 key delta ttl makeValue (sh_cs sc ! i)))"

definition sharded_remove :: "string \<Rightarrow> ShardedCache \<Rightarrow> ShardedCache option" where
  "sharded_remove key sc = (case sharded_bucket key sc of
     None \<Rightarrow> None
   | Some i \<Rightarrow> Some (sc\<lparr>sh_cs := (sh_cs sc)[i := cache_remove key (sh_cs sc ! i)]\<rparr>))"

text \<open>\<open>clk i\<close> are the readings of the clock while shard \<open>i\<close> is cleaned up.\<close>

definition sharded_clearupExpired :: "(nat \<Rightarrow> clock) \<Rightarrow> ShardedCache \<Rightarrow> ShardedCache" where
  "sharded_clearupExpired clk sc =
     sc\<lparr>sh_cs := map (\<lambda>i. cache_clearupExpired (clk i) (sh_cs sc ! i)) [0..<length (sh_cs sc)]\<rparr>"

section \<open>Striped locks\<close>

definition defaultIncrementLockStripes :: int where
  "defaultIncrementLockStripes = 256"

text \<open>The mutexes are told apart by their index; the value is their number.\<close>

definition newStripedLocks :: "int \<Rightarrow> nat" where
  "newStripedLocks stripes =
     nat (if stripes \<le> 0 then defaultIncrementLockStripes else stripes)"

text \<open>The index of the mutex that \<open>lock(key)\<close> takes; \<open>None\<close> when it takes none.\<close>

definition stripe_of :: "nat option \<Rightarrow> string \<Rightarrow> nat option" where
  "stripe_of l key = (case l of
     None \<Rightarrow> None
   | Some n \<Rightarrow> if n = 0 then None else Some (unat (djb33 0 key mod of_nat n)))"

lemma newStripedLocks_pos: "0 < newStripedLocks n"
  by (simp add: newStripedLocks_def defaultIncrementLockStripes_def)

section \<open>The sharded cache implements the interface\<close>

definition shard :: "string \<Rightarrow> ShardedCache \<Rightarrow> nat" where
  "shard k sc = unat (djb33 (sh_seed sc) k mod sh_m sc)"

definition sharded_ok :: "ShardedCache \<Rightarrow> bool" where
  "sharded_ok sc \<longleftrightarrow> sh_m sc \<noteq> 0 \<and> length (sh_cs sc) = unat (sh_m sc) \<and> (\<forall>c\<in>set (sh_cs sc). cache_ok c)"

definition on_shard :: "(cache \<Rightarrow> string \<Rightarrow> 'a) \<Rightarrow> ShardedCache \<Rightarrow> string \<Rightarrow> 'a" where
  "on_shard f sc k = f (sh_cs sc ! shard k sc) k"

abbreviation sharded_look :: "ShardedCache \<Rightarrow> string \<Rightarrow> (ByteView \<times> expiry) option" where
  "sharded_look \<equiv> on_shard cache_look"

definition sharded_lookup :: "time \<Rightarrow> string \<Rightarrow> ShardedCache \<Rightarrow> (ByteView option \<times> ShardedCache) option" where
  "sharded_lookup now key sc = (case sharded_bucket key sc of
     None \<Rightarrow> None
   | Some i \<Rightarrow> (case cache_lookup now key (sh_cs sc ! i) of
       (r, c) \<Rightarrow> Some (r, sc\<lparr>sh_cs := (sh_cs sc)[i := c]\<rparr>)))"

lemma sharded_get_lookup:
  "sharded_get start now done key sc m =
     map_option (\<lambda>(r, sc'). (r, sc', RecordCacheGetLatency (done - start) m)) (sharded_lookup now key sc)"
  by (simp add: sharded_get_def sharded_lookup_def cache_get_def split: option.splits prod.splits)

lemma shard_less: "sharded_ok sc \<Longrightarrow> shard k sc < length (sh_cs sc)"
proof -
  assume sc: "sharded_ok sc"
  then have "0 < unat (sh_m sc)" by (simp add: sharded_ok_def unat_gt_0)
  then show ?thesis using sc by (simp add: shard_def sharded_ok_def unat_mod)
qed

lemma sharded_bucket_ok: "sharded_ok sc \<Longrightarrow> sharded_bucket k sc = Some (shard k sc)"
  using shard_less [of sc k] by (simp add: sharded_bucket_def sharded_ok_def shard_def)

lemma shard_update [simp]: "shard k (sc\<lparr>sh_cs := cs\<rparr>) = shard k sc"
  by (simp add: shard_def)

lemma shard_ok: "sharded_ok sc \<Longrightarrow> cache_ok (sh_cs sc ! shard k sc)"
  using shard_less [of sc k] by (simp add: sharded_ok_def)

lemma sharded_ok_update: "sharded_ok sc \<Longrightarrow> cache_ok c \<Longrightarrow> sharded_ok (sc\<lparr>sh_cs := (sh_cs sc)[i := c]\<rparr>)"
  by (auto simp: sharded_ok_def dest: set_update_subset_insert [THEN subsetD])

lemma on_shard_update:
  "sharded_ok sc \<Longrightarrow> on_shard f (sc\<lparr>sh_cs := (sh_cs sc)[shard k sc := c]\<rparr>) k' =
     (if shard k' sc = shard k sc then f c k' else on_shard f sc k')"
  using shard_less [of sc k] by (auto simp: on_shard_def)

lemmas sharded_steps = sharded_bucket_ok sharded_addWithTTL_def sharded_lookup_def sharded_remove_def
  sharded_increment_def

lemma sharded_look_le:
  assumes "sharded_ok sc" and "cache_look c \<subseteq>\<^sub>m (cache_look (sh_cs sc ! shard k sc))(k \<mapsto> x)"
  shows "sharded_look (sc\<lparr>sh_cs := (sh_cs sc)[shard k sc := c]\<rparr>) \<subseteq>\<^sub>m (sharded_look sc)(k \<mapsto> x)"
proof (rule map_leI)
  fix k' y assume y: "sharded_look (sc\<lparr>sh_cs := (sh_cs sc)[shard k sc := c]\<rparr>) k' = Some y"
  show "((sharded_look sc)(k \<mapsto> x)) k' = Some y"
  proof (cases "shard k' sc = shard k sc")
    case True
    then have "cache_look c k' = Some y" using y by (simp add: on_shard_update [OF assms(1)])
    then have "((cache_look (sh_cs sc ! shard k sc))(k \<mapsto> x)) k' = Some y"
      using map_le_cases [OF assms(2), of k'] by auto
    then show ?thesis using True by (simp add: on_shard_def split: if_splits)
  next
    case False
    then show ?thesis using y by (auto simp: on_shard_update [OF assms(1)])
  qed
qed

lemma sharded_purge_nth:
  "sharded_ok sc \<Longrightarrow> on_shard f (sharded_clearupExpired clk sc) k =
     f (cache_clearupExpired (clk (shard k sc)) (sh_cs sc ! shard k sc)) k"
  using shard_less [of sc k] by (simp add: on_shard_def sharded_clearupExpired_def)

interpretation sharded: group_cache sharded_ok sharded_look "on_shard cache_room" "on_shard cache_admits"
  "on_shard cache_fits" sharded_addWithTTL sharded_lookup sharded_increment sharded_remove sharded_clearupExpired
proof (unfold_locales, goal_cases)
  case (1 c k v now ttl)
  then show ?case using local.add_returns [OF shard_ok [OF 1(1)]] by (fastforce simp: sharded_steps on_shard_def)
next
  case (2 c k v now ttl c')
  then show ?case using local.add_ok [OF shard_ok [OF 2(1)]]
    by (auto simp: sharded_steps on_shard_def intro!: sharded_ok_update)
next
  case (3 c k v now ttl c')
  then show ?case using local.add_look [OF shard_ok [OF 3(1)]]
    by (auto simp: sharded_steps on_shard_def [of cache_room] intro!: sharded_look_le)
next
  case (4 c k v now ttl c')
  then show ?case using local.add_stores [OF shard_ok [OF 4(1)]]
    by (auto simp: sharded_steps on_shard_update) (simp add: on_shard_def)
next
  case (5 c now k)
  then obtain c1 where "cache_lookup now k (sh_cs c ! shard k c) = (live now (sharded_look c k), c1)"
    using local.get_returns [OF shard_ok [OF 5(1), of k], of now k] by (auto simp: on_shard_def)
  then show ?case using 5 by (simp add: sharded_steps)
next
  case (6 c now k r c')
  then show ?case using local.get_ok [OF shard_ok [OF 6(1)]]
    by (auto simp: sharded_steps split: prod.splits intro!: sharded_ok_update)
next
  case (7 c now k r c')
  then obtain c1 where c1: "cache_lookup now k (sh_cs c ! shard k c) = (r, c1)" "c' = c\<lparr>sh_cs := (sh_cs c)[shard k c := c1]\<rparr>"
    by (auto simp: sharded_steps split: prod.splits)
  show ?case
    using local.get_look [OF shard_ok [OF 7(1), of k], of now k r c1] 7(1) c1 
    by (auto simp: fun_eq_iff on_shard_def nth_list_update shard_less)
next
  case (8 c now k r c' k' v)
  then show ?case using local.get_room [OF shard_ok [OF 8(1)]]
    by (auto simp: sharded_steps on_shard_update split: prod.splits) (auto simp: on_shard_def)
next
  case (9 c now k r c' v)
  then show ?case using local.get_admits [OF shard_ok [OF 9(1)]]
    by (auto simp: sharded_steps on_shard_update split: prod.splits) (auto simp: on_shard_def)
next
  case (10 c now1 now2 k delta ttl mk)
  obtain r c1 where c1: "cache_lookup now1 k (sh_cs c ! shard k c) = (r, c1)" by force
  let ?c = "c\<lparr>sh_cs := (sh_cs c)[shard k c := c1]\<rparr>"
  have ok: "sharded_ok ?c" using local.get_ok [OF shard_ok [OF 10]] c1 sharded_ok_update [OF 10] by blast
  have nth: "sh_cs ?c ! shard k c = c1" using shard_less [OF 10] by simp
  show ?case
    using 10 c1 ok nth shard_less [OF 10] local.increment_eq [OF shard_ok [OF 10, of k], of now1 now2 k delta ttl mk]
    by (simp add: sharded_steps option.map_comp o_def split: sum.splits)
next
  case (11 c k)
  then obtain c1 where "cache_remove k (sh_cs c ! shard k c) = c1" "cache_ok c1"
    "cache_look c1 = (cache_look (sh_cs c ! shard k c))(k := None)"
    using local.remove_ok [OF shard_ok [OF 11]] by blast
  then show ?case using 11 sharded_ok_update [OF 11]
    by (auto simp: sharded_steps on_shard_update fun_eq_iff) (auto simp: on_shard_def)
next
  case (12 c clk)
  have "cache_ok (cache_clearupExpired (clk i) c)" if "cache_ok c" for i c
    using local.purge_ok [OF that, of "\<lambda>_. clk i"] by simp
  then show ?case using 12 by (auto simp: sharded_ok_def sharded_clearupExpired_def)
next
  case (13 c clk)
  show ?case
  proof (rule map_leI)
    fix k x assume "sharded_look (sharded_clearupExpired clk c) k = Some x"
    then show "sharded_look c k = Some x"
      using map_le_cases [OF local.purge_look [OF shard_ok [OF 13, of k], of "\<lambda>_. clk (shard k c)"], of k]
      by (auto simp: sharded_purge_nth [OF 13]) (simp add: on_shard_def)
  qed
next
  case (14 c k v x clk)
  then show ?case
    using local.purge_keeps [OF shard_ok [OF 14(1), of k], of k v x "\<lambda>_. clk (shard k c)"]
    by (simp add: sharded_purge_nth) (simp add: on_shard_def)
next
  case (15 c k v)
  then show ?case using local.fits_room [OF shard_ok [OF 15(1)]] by (auto simp: on_shard_def)
next
  case (16 c k v now ttl c' k' v')
  then obtain c1 where c1: "cache_addWithTTL now k v ttl (sh_cs c ! shard k c) = Some c1"
    "c' = c\<lparr>sh_cs := (sh_cs c)[shard k c := c1]\<rparr>" "cache_room (sh_cs c ! shard k c) k v"
    by (auto simp: sharded_steps on_shard_def)
  then show ?case
    using local.add_fits [OF shard_ok [OF 16(1), of k] c1(3,1), of k' v'] 16(1)
    by (simp add: on_shard_def nth_list_update shard_less)
next
  case (17 c now k r c' k' v')
  then obtain c1 where c1: "cache_lookup now k (sh_cs c ! shard k c) = (r, c1)"
    "c' = c\<lparr>sh_cs := (sh_cs c)[shard k c := c1]\<rparr>"
    by (auto simp: sharded_steps split: prod.splits)
  then show ?case
    using local.get_fits [OF shard_ok [OF 17(1), of k], of now k r c1 k' v'] 17(1)
    by (simp add: on_shard_def nth_list_update shard_less)
next
  case (18 c k c' k' v')
  then show ?case
    using local.remove_fits [OF shard_ok [OF 18(1), of k], of k _ k' v']
    by (auto simp: sharded_steps on_shard_def nth_list_update shard_less split: if_splits)
next
  case (19 c clk k' v')
  then show ?case
    using local.purge_fits [OF shard_ok [OF 19(1), of k'], of "\<lambda>_. clk (shard k' c)" k' v']
    by (simp add: sharded_purge_nth) (simp add: on_shard_def)
qed

section \<open>The values of the interface\<close>

datatype Cache = LocalCache cache | ShardCache ShardedCache

primrec Cache_add :: "time \<Rightarrow> string \<Rightarrow> ByteView \<Rightarrow> Cache \<Rightarrow> Cache option" where
  "Cache_add now k v (LocalCache c) = map_option LocalCache (cache_add now k v c)"
| "Cache_add now k v (ShardCache c) = map_option ShardCache (sharded_add now k v c)"

primrec Cache_addWithTTL :: "time \<Rightarrow> string \<Rightarrow> ByteView \<Rightarrow> duration \<Rightarrow> Cache \<Rightarrow> Cache option" where
  "Cache_addWithTTL now k v ttl (LocalCache c) = map_option LocalCache (cache_addWithTTL now k v ttl c)"
| "Cache_addWithTTL now k v ttl (ShardCache c) = map_option ShardCache (sharded_addWithTTL now k v ttl c)"

primrec Cache_get ::
  "time \<Rightarrow> time \<Rightarrow> time \<Rightarrow> string \<Rightarrow> Cache \<Rightarrow> Metrics \<Rightarrow> (ByteView option \<times> Cache \<times> Metrics) option" where
  "Cache_get start now done k (LocalCache c) m =
     (case cache_get start now done k c m of (r, c', m') \<Rightarrow> Some (r, LocalCache c', m'))"
| "Cache_get start now done k (ShardCache c) m =
     map_option (\<lambda>(r, c', m'). (r, ShardCache c', m')) (sharded_get start now done k c m)"

primrec Cache_increment ::
  "time \<Rightarrow> time \<Rightarrow> string \<Rightarrow> int \<Rightarrow> duration \<Rightarrow> (bytes \<Rightarrow> ByteView) option \<Rightarrow> Cache \<Rightarrow> (int result \<times> Cache) option" where
  "Cache_increment now1 now2 k delta ttl mk (LocalCache c) =
     map_option (\<lambda>(r, c'). (r, LocalCache c')) (cache_increment now1 now2 k delta ttl mk c)"
| "Cache_increment now1 now2 k delta ttl mk (ShardCache c) =
     map_option (\<lambda>(r, c'). (r, ShardCache c')) (sharded_increment now1 now2 k delta ttl mk c)"

primrec Cache_remove :: "string \<Rightarrow> Cache \<Rightarrow> Cache option" where
  "Cache_remove k (LocalCache c) = Some (LocalCache (cache_remove k c))"
| "Cache_remove k (ShardCache c) = map_option ShardCache (sharded_remove k c)"

primrec Cache_clearupExpired :: "(nat \<Rightarrow> clock) \<Rightarrow> Cache \<Rightarrow> Cache" where
  "Cache_clearupExpired clk (LocalCache c) = LocalCache (cache_clearupExpired (clk 0) c)"
| "Cache_clearupExpired clk (ShardCache c) = ShardCache (sharded_clearupExpired clk c)"

text \<open>The abstraction, case by case.\<close>

primrec Cache_ok :: "Cache \<Rightarrow> bool" where
  "Cache_ok (LocalCache c) = cache_ok c"
| "Cache_ok (ShardCache c) = sharded_ok c"

primrec Cache_look :: "Cache \<Rightarrow> string \<Rightarrow> (ByteView \<times> expiry) option" where
  "Cache_look (LocalCache c) = cache_look c"
| "Cache_look (ShardCache c) = sharded_look c"

primrec Cache_room :: "Cache \<Rightarrow> string \<Rightarrow> ByteView \<Rightarrow> bool" where
  "Cache_room (LocalCache c) = cache_room c"
| "Cache_room (ShardCache c) = on_shard cache_room c"

primrec Cache_admits :: "Cache \<Rightarrow> string \<Rightarrow> ByteView \<Rightarrow> bool" where
  "Cache_admits (LocalCache c) = cache_admits c"
| "Cache_admits (ShardCache c) = on_shard cache_admits c"

primrec Cache_fits :: "Cache \<Rightarrow> string \<Rightarrow> ByteView \<Rightarrow> bool" where
  "Cache_fits (LocalCache c) = cache_fits c"
| "Cache_fits (ShardCache c) = on_shard cache_fits c"

primrec Cache_lookup :: "time \<Rightarrow> string \<Rightarrow> Cache \<Rightarrow> (ByteView option \<times> Cache) option" where
  "Cache_lookup now k (LocalCache c) = (case cache_lookup now k c of (r, c') \<Rightarrow> Some (r, LocalCache c'))"
| "Cache_lookup now k (ShardCache c) = map_option (\<lambda>(r, c'). (r, ShardCache c')) (sharded_lookup now k c)"

lemma Cache_get_lookup:
  "Cache_get start now done k c m =
     map_option (\<lambda>(r, c'). (r, c', RecordCacheGetLatency (done - start) m)) (Cache_lookup now k c)"
  by (cases c) (auto simp: cache_get_def sharded_get_lookup option.map_comp o_def case_prod_beta)

lemma Cache_add_TTL: "Cache_add now k v c = Cache_addWithTTL now k v 0 c"
  by (cases c) (simp_all add: cache_add_TTL sharded_add_def sharded_addWithTTL_def cong: option.case_cong)

interpretation caches: group_cache Cache_ok Cache_look Cache_room Cache_admits Cache_fits Cache_addWithTTL
  Cache_lookup Cache_increment Cache_remove Cache_clearupExpired
proof (unfold_locales, goal_cases)
  case (1 c k v now ttl)
  then show ?case by (cases c) (auto dest: local.add_returns sharded.add_returns)
next
  case (2 c k v now ttl c')
  then show ?case by (cases c) (auto intro: local.add_ok sharded.add_ok)
next
  case (3 c k v now ttl c')
  then show ?case by (cases c) (auto simp: local.add_look sharded.add_look)
next
  case (4 c k v now ttl c')
  then show ?case by (cases c) (auto simp: local.add_stores sharded.add_stores)
next
  case (5 c now k)
  then show ?case using local.get_returns [of _ now k] sharded.get_returns [of _ now k] by (cases c) force+
next
  case (6 c now k r c')
  then show ?case by (cases c) (auto split: prod.splits intro: local.get_ok sharded.get_ok)
next
  case (7 c now k r c')
  then show ?case using local.get_look sharded.get_look by (cases c) (auto split: prod.splits)
next
  case (8 c now k r c' k' v)
  then show ?case using local.get_room sharded.get_room by (cases c) (auto split: prod.splits)
next
  case (9 c now k r c' v)
  then show ?case using local.get_admits sharded.get_admits by (cases c) (auto split: prod.splits)
next
  case (10 c now1 now2 k delta ttl mk)
  then show ?case
    by (cases c) (auto simp: local.increment_eq sharded.increment_eq option.map_comp o_def split: sum.splits option.splits prod.splits)
next
  case (11 c k)
  then show ?case using local.remove_ok [of _ k] sharded.remove_ok [of _ k] by (cases c) force+
next
  case (12 c clk)
  then show ?case by (cases c) (simp_all add: local.purge_ok sharded.purge_ok)
next
  case (13 c clk)
  then show ?case using local.purge_look sharded.purge_look by (cases c) simp_all
next
  case (14 c k v x clk)
  then show ?case by (cases c) (simp_all add: local.purge_keeps sharded.purge_keeps)
next
  case (15 c k v)
  then show ?case using local.fits_room [of _ k v] sharded.fits_room [of _ k v] by (cases c) simp_all
next
  case (16 c k v now ttl c' k' v')
  then show ?case
    using local.add_fits [where k = k and v = v and now = now and ttl = ttl]
      sharded.add_fits [where k = k and v = v and now = now and ttl = ttl] by (cases c) force+
next
  case (17 c now k r c' k' v')
  then show ?case
    using local.get_fits [where k = k and now = now] sharded.get_fits [where k = k and now = now]
    by (cases c) (force split: prod.splits)+
next
  case (18 c k c' k' v')
  then show ?case using local.remove_fits [where k = k] sharded.remove_fits [where k = k] by (cases c) force+
next
  case (19 c clk k' v')
  then show ?case using local.purge_fits [of _ "\<lambda>_. clk 0" k' v'] by (cases c) (simp_all add: sharded.purge_fits)
qed

section \<open>Properties\<close>

text \<open>
  C24. For every implementation of \<open>Cache\<close>: a pair that is admitted is stored by \<open>addWithTTL\<close>, and
  a later \<open>get\<close> of its key returns exactly that value until the TTL has passed and nothing
  afterwards; a \<open>get\<close> of another key returns what it returned before, or nothing if the entry
  was evicted. Every \<open>get\<close> records its latency.
\<close>

theorem Cache_add_get_roundtrip:
  assumes "Cache_ok c" and "Cache_room c k v" and "Cache_admits c k v"
  shows "\<exists>c'. Cache_addWithTTL now k v ttl c = Some c' \<and> Cache_ok c'
    \<and> (\<forall>start t fin m. \<exists>c1. Cache_get start t fin k c' m =
         Some (if 0 < ttl \<and> now + ttl < t then None else Some v, c1, RecordCacheGetLatency (fin - start) m))
    \<and> (\<forall>start t fin m k'. k' \<noteq> k \<longrightarrow> (\<exists>r r' c0 c1.
         Cache_get start t fin k' c m = Some (r, c0, RecordCacheGetLatency (fin - start) m)
         \<and> Cache_get start t fin k' c' m = Some (r', c1, RecordCacheGetLatency (fin - start) m) \<and> r' \<in> {None, r}))"
proof -
  obtain c' where c': "Cache_addWithTTL now k v ttl c = Some c'" using caches.add_returns [OF assms(1,2)] by blast
  have ok: "Cache_ok c'" using caches.add_ok [OF assms(1,2) c'] .
  have "\<exists>c1. Cache_get start t fin k c' m =
      Some (if 0 < ttl \<and> now + ttl < t then None else Some v, c1, RecordCacheGetLatency (fin - start) m)" for start t fin m
    using caches.add_then_get [OF assms, of now ttl t] c' by (auto simp: Cache_get_lookup)
  moreover have "\<exists>r r' c0 c1. Cache_get start t fin k' c m = Some (r, c0, RecordCacheGetLatency (fin - start) m)
      \<and> Cache_get start t fin k' c' m = Some (r', c1, RecordCacheGetLatency (fin - start) m) \<and> r' \<in> {None, r}"
    if "k' \<noteq> k" for start t fin m k'
  proof -
    have "Cache_look c' k' = None \<or> Cache_look c' k' = Cache_look c k'"
      using map_le_cases [OF caches.add_look [OF assms(1,2) c'], of k'] that by auto
    moreover obtain c0 c1 where "Cache_lookup t k' c = Some (live t (Cache_look c k'), c0)"
      "Cache_lookup t k' c' = Some (live t (Cache_look c' k'), c1)"
      using caches.get_returns [OF assms(1)] caches.get_returns [OF ok] by metis
    ultimately show ?thesis by (auto simp: Cache_get_lookup)
  qed
  ultimately show ?thesis using c' ok by blast
qed

definition example_cache :: Cache where
  "example_cache = LocalCache (new_cache 100 False False (Fin 0))"

lemma example_store [simp]: "ensureStore (new_cache b e False r) = LruStore (lru_New b True)"
  by (simp add: ensureStore_def new_cache_def)

lemma lru_New_views [simp]: "lru_lookup (lru_New b e) k = None" "lru_size (lru_New b e) = 0" "l_maxBytes (lru_New b e) = b"
  by (simp_all add: lru_lookup_def lru_New_def lru_size_def lru_entries_def)

lemma example_cache_props:
  "Cache_ok example_cache" "Cache_look example_cache k = None"
  "item_cost k v \<le> 100 \<Longrightarrow> Cache_fits example_cache k v"
  by (simp_all add: example_cache_def cache_abs_defs lru_New_ok)

theorem Cache_add_get_roundtrip_witness:
  "\<exists>c' c1 c2. Cache_addWithTTL 5 ''k'' (bytes_view ''v'') 10 example_cache = Some c'
     \<and> Cache_get 14 15 17 ''k'' c' newMetrics = Some (Some (bytes_view ''v''), c1, RecordCacheGetLatency 3 newMetrics)
     \<and> Cache_get 16 16 16 ''k'' c' newMetrics = Some (None, c2, RecordCacheGetLatency 0 newMetrics)"
proof -
  have "Cache_fits example_cache ''k'' (bytes_view ''v'')"
    by (rule example_cache_props(3)) (simp add: item_cost_def ByteView_Len_def)
  then have "Cache_room example_cache ''k'' (bytes_view ''v'')" "Cache_admits example_cache ''k'' (bytes_view ''v'')"
    using caches.fits_room [OF example_cache_props(1)] by auto
  then obtain c' where c': "Cache_addWithTTL 5 ''k'' (bytes_view ''v'') 10 example_cache = Some c'"
    and g: "\<And>start t fin m. \<exists>c1. Cache_get start t fin ''k'' c' m =
      Some (if 0 < (10 :: int) \<and> 5 + 10 < t then None else Some (bytes_view ''v''), c1, RecordCacheGetLatency (fin - start) m)"
    using Cache_add_get_roundtrip [OF example_cache_props(1), of "''k''" "bytes_view ''v''" 5 10] by blast
  show ?thesis using c' g [of 14 15 17 newMetrics] g [of 16 16 16 newMetrics] by auto
qed

text \<open>
  C25. Increments never lose an update: for every implementation of \<open>Cache\<close>, any sequence of
  increments of a missing key returns the running sums of the deltas (with \<open>int64\<close> wrap-around)
  and leaves the decimal text of the total, whatever the order of the calls, in the cache.
\<close>

theorem Cache_increments_accumulate:
  assumes "Cache_ok c" and "plain_view mk" and "\<forall>n. in_i64 n \<longrightarrow> Cache_fits c k (number_view mk n)"
    and "Cache_look c k = None" and "xs \<noteq> []"
  shows "\<exists>c'. increments Cache_increment k mk xs c =
      Some (map (\<lambda>i. Inr (i64 (increment_sum (take (Suc i) xs)))) [0..<length xs], c') \<and> Cache_ok c'
      \<and> Cache_look c' k = Some (number_view mk (i64 (increment_sum xs)), None)"
  using caches.increments_fresh [OF assms(1,2) _ assms(4,5)] assms(3) by blast

theorem Cache_increments_accumulate_witness:
  "\<exists>c'. increments Cache_increment ''n'' None [(0, 0, 5), (1, 1, -2)] example_cache = Some ([Inr 5, Inr 3], c')
     \<and> Cache_look c' ''n'' = Some (bytes_view ''3'', None)"
proof -
  have fits: "\<forall>n. in_i64 n \<longrightarrow> Cache_fits example_cache ''n'' (number_view None n)"
    by (auto simp: number_view_def item_cost_def ByteView_Len_def intro!: example_cache_props(3) dest: FormatInt_length)
  have three: "FormatInt 3 = ''3''" by code_simp
  show ?thesis
    using Cache_increments_accumulate [OF example_cache_props(1) _ fits example_cache_props(2), of "[(0, 0, 5), (1, 1, -2)]"]
    by (auto simp: plain_view_def increment_sum_def i64_def number_view_def three simp del: increments.simps)
qed

text \<open>
  An increment of a key whose value is not a number fails with \<open>ErrNonNumericValue\<close> and leaves
  the value in place.
\<close>

theorem Cache_increment_non_numeric:
  assumes "Cache_ok c" and "Cache_look c k = Some (v, x)" and "\<not> expired now1 x"
    and "\<not> isNotFound v" and "bv_b v \<noteq> []" and "ParseInt (TrimSpace (bv_b v)) = None"
  shows "\<exists>c'. Cache_increment now1 now2 k delta ttl mk c = Some (Inl ErrNonNumericValue, c')
    \<and> Cache_ok c' \<and> Cache_look c' k = Some (v, x)"
proof -
  have "current_number (live now1 (Cache_look c k)) = Inl ErrNonNumericValue"
    using assms by (simp add: current_number_def parseNumericValue_def)
  then show ?thesis using caches.increment_rejected [OF assms(1)] assms(2) by metis
qed

theorem Cache_increment_non_numeric_witness:
  "\<exists>c c'. Cache_add 0 ''k'' (bytes_view ''x'') example_cache = Some c
     \<and> Cache_increment 1 1 ''k'' 1 0 None c = Some (Inl ErrNonNumericValue, c')"
proof -
  have "Cache_fits example_cache ''k'' (bytes_view ''x'')"
    by (rule example_cache_props(3)) (simp add: item_cost_def ByteView_Len_def)
  then have r: "Cache_room example_cache ''k'' (bytes_view ''x'')" "Cache_admits example_cache ''k'' (bytes_view ''x'')"
    using caches.fits_room [OF example_cache_props(1)] by auto
  obtain c where c: "Cache_addWithTTL 0 ''k'' (bytes_view ''x'') 0 example_cache = Some c"
    using caches.add_returns [OF example_cache_props(1) r(1)] by blast
  have look: "Cache_look c ''k'' = Some (bytes_view ''x'', None)"
    using caches.add_stores [OF example_cache_props(1) r(1) c r(2)] by (simp add: expiry_of_def)
  have trim: "TrimSpace ''x'' = ''x''" by (rule TrimSpace_id) (simp_all add: printable_def)
  have parse: "ParseInt ''x'' = None" by (simp add: ParseInt_def parse_uint_def digit_val_def)
  show ?thesis
    using Cache_increment_non_numeric [OF caches.add_ok [OF example_cache_props(1) r(1) c] look, of 1 1 1 0 None] c
    by (auto simp: trim parse Cache_add_TTL)
qed

end
