(* ===== verification/Go_Hash.thy ===== *)
theory Go_Hash
  imports Go_Strings
begin

text \<open>
  The two hash functions of the standard library that the program uses, \<^verbatim>\<open>hash/crc32\<close> with the
  IEEE polynomial and \<^verbatim>\<open>hash/fnv\<close>'s 32-bit FNV-1a, and \<^verbatim>\<open>sort.Search\<close>.
\<close>

unbundle bit_operations_syntax

section \<open>CRC-32 and FNV-1a\<close>

definition byte32 :: "char \<Rightarrow> uint32" where
  "byte32 c = of_nat (of_char c)"

definition crc32_bit :: "uint32 \<Rightarrow> uint32" where
  "crc32_bit crc = (if crc AND 1 = 1 then drop_bit 1 crc XOR 0xEDB88320 else drop_bit 1 crc)"

definition crc32_byte :: "char \<Rightarrow> uint32 \<Rightarrow> uint32" where
  "crc32_byte c crc = (crc32_bit ^^ 8) (crc XOR byte32 c)"

definition ChecksumIEEE :: "bytes \<Rightarrow> uint32" where
  "ChecksumIEEE data = NOT (fold crc32_byte data (NOT 0))"

definition fnv32a :: "bytes \<Rightarrow> uint32" where
  "fnv32a data = fold (\<lambda>c h. (h XOR byte32 c) * 16777619) data 2166136261"

text \<open>The published check values.\<close>

lemma ChecksumIEEE_check: "ChecksumIEEE ''a'' = 0xE8B7BE43"
  by code_simp

lemma fnv32a_check: "fnv32a ''a'' = 0xE40C292C" "fnv32a [] = 2166136261"
  by code_simp+

section \<open>Binary search\<close>

text \<open>The loop of \<open>sort.Search\<close> on the interval from \<open>i\<close> to \<open>j\<close>.\<close>

function search_loop :: "(nat \<Rightarrow> bool) \<Rightarrow> nat \<Rightarrow> nat \<Rightarrow> nat" where
  "search_loop f i j =
     (if i < j then
        let h = (i + j) div 2
        in if \<not> f h then search_loop f (h + 1) j else search_loop f i h
      else i)"
  by pat_completeness auto
termination by (relation "measure (\<lambda>(_, i, j). j - i)") auto

declare search_loop.simps [simp del]

definition sort_Search :: "nat \<Rightarrow> (nat \<Rightarrow> bool) \<Rightarrow> nat" where
  "sort_Search n f = search_loop f 0 n"

definition SearchInts :: "int list \<Rightarrow> int \<Rightarrow> nat" where
  "SearchInts a x = sort_Search (length a) (\<lambda>i. a ! i \<ge> x)"

text \<open>
  The documented contract: on a monotone predicate, the least index that satisfies it, or \<open>n\<close>.
\<close>

lemma search_loop_spec:
  assumes mono: "\<And>a b. a \<le> b \<Longrightarrow> b < n \<Longrightarrow> f a \<Longrightarrow> f b" and "j \<le> n" and "i \<le> j"
    and "\<And>x. x < i \<Longrightarrow> \<not> f x" and "\<And>x. j \<le> x \<Longrightarrow> x < n \<Longrightarrow> f x"
  shows "search_loop f i j \<le> n \<and> (\<forall>x < search_loop f i j. \<not> f x)
    \<and> (\<forall>x. search_loop f i j \<le> x \<longrightarrow> x < n \<longrightarrow> f x)"
  using assms(2-5)
proof (induction "j - i" arbitrary: i j rule: less_induct)
  case less
  show ?case
  proof (cases "i < j")
    case True
    let ?h = "(i + j) div 2"
    have h: "i \<le> ?h" "?h < j" "?h < n" using True less.prems(1) by auto
    show ?thesis
    proof (cases "f ?h")
      case fh: True
      have "f x" if "?h \<le> x" "x < n" for x using mono [OF that fh] .
      then have "search_loop f i ?h \<le> n \<and> (\<forall>x < search_loop f i ?h. \<not> f x)
          \<and> (\<forall>x. search_loop f i ?h \<le> x \<longrightarrow> x < n \<longrightarrow> f x)"
        using less.prems(3) h by (intro less.hyps) auto
      then show ?thesis using True fh by (simp add: search_loop.simps [of f i j])
    next
      case fh: False
      have "\<not> f x" if "x < ?h + 1" for x using mono [of x ?h] that h fh by auto
      then have "search_loop f (?h + 1) j \<le> n \<and> (\<forall>x < search_loop f (?h + 1) j. \<not> f x)
          \<and> (\<forall>x. search_loop f (?h + 1) j \<le> x \<longrightarrow> x < n \<longrightarrow> f x)"
        using less.prems h by (intro less.hyps) auto
      then show ?thesis using True fh by (simp add: search_loop.simps [of f i j])
    qed
  next
    case False
    then have "search_loop f i j = j" using less.prems(2) by (subst search_loop.simps) simp
    then show ?thesis using False less.prems by (auto simp: not_less)
  qed
qed

lemma SearchInts_spec:
  assumes "sorted a"
  shows "SearchInts a x \<le> length a" and "\<And>i. i < SearchInts a x \<Longrightarrow> a ! i < x"
    and "\<And>i. SearchInts a x \<le> i \<Longrightarrow> i < length a \<Longrightarrow> x \<le> a ! i"
proof -
  have "x \<le> a ! j" if "i \<le> j" "j < length a" "x \<le> a ! i" for i j
    using that(3) sorted_nth_mono [OF assms that(1,2)] by (rule order_trans)
  then have "SearchInts a x \<le> length a \<and> (\<forall>i < SearchInts a x. \<not> x \<le> a ! i)
    \<and> (\<forall>i. SearchInts a x \<le> i \<longrightarrow> i < length a \<longrightarrow> x \<le> a ! i)"
    unfolding SearchInts_def sort_Search_def by (rule search_loop_spec [where n = "length a"]) simp_all
  then show "SearchInts a x \<le> length a" and "\<And>i. i < SearchInts a x \<Longrightarrow> a ! i < x"
    and "\<And>i. SearchInts a x \<le> i \<Longrightarrow> i < length a \<Longrightarrow> x \<le> a ! i"
    by (simp_all add: not_le)
qed

end
