(* ===== verification/Bloom_Filter.thy ===== *)
theory Bloom_Filter
  imports Go_Hash
begin

text \<open>
  \<^verbatim>\<open>bloomfilter/bloomfilter.go\<close>, and the contract of a membership filter (\<open>Filter\<close> and
  \<open>ResettableFilter\<close> in \<^verbatim>\<open>groupcache_config.go\<close>) as a locale: what was added is reported as
  contained until the filter is reset. The Bloom filter and the map-based filter of
  \<^verbatim>\<open>cmd/cache-server/main_test_helpers.go\<close> are its two implementations. \<open>None\<close> is a panic.
\<close>

section \<open>Model\<close>

definition defaultBitsetSize :: int where
  "defaultBitsetSize = 1000"

definition defaultHashCount :: int where
  "defaultHashCount = 6"

record BloomFilter =
  bf_arr :: "uint32 list"
  bf_k :: uint32

definition bloom_New :: "int \<Rightarrow> int \<Rightarrow> BloomFilter" where
  "bloom_New m k =
     (let m = (if m \<le> 0 then defaultBitsetSize else m);
          k = (if k \<le> 0 then defaultHashCount else k)
      in \<lparr>bf_arr = replicate (nat m) 0, bf_k = of_int k\<rparr>)"

definition bloom_NewDefault :: BloomFilter where
  "bloom_NewDefault = bloom_New defaultBitsetSize defaultHashCount"

definition hash1 :: "string \<Rightarrow> uint32" where
  "hash1 s = fnv32a s"

definition hash2 :: "string \<Rightarrow> uint32" where
  "hash2 s = ChecksumIEEE s"

text \<open>The length is converted to \<open>uint32\<close>; a modulus of zero is a panic.\<close>

definition bloom_indexes :: "BloomFilter \<Rightarrow> string \<Rightarrow> nat list option" where
  "bloom_indexes bf item =
     (let m = of_nat (length (bf_arr bf)) :: uint32;
          h1 = hash1 item;
          h2 = hash2 item;
          h2 = (if h2 = 0 then 1 else h2)
      in if m = 0 \<and> bf_k bf \<noteq> 0 then None
         else Some (map (\<lambda>i. unat ((h1 + of_nat i * h2) mod m)) [0..<unat (bf_k bf)]))"

primrec set_bits :: "nat list \<Rightarrow> uint32 list \<Rightarrow> uint32 list" where
  "set_bits [] arr = arr"
| "set_bits (idx # rest) arr = set_bits rest (arr[idx := 1])"

definition bloom_Add :: "string \<Rightarrow> BloomFilter \<Rightarrow> BloomFilter option" where
  "bloom_Add item bf =
     (if length (bf_arr bf) = 0 then Some bf
      else case bloom_indexes bf item of
        None \<Rightarrow> None
      | Some ixs \<Rightarrow> Some (bf\<lparr>bf_arr := set_bits ixs (bf_arr bf)\<rparr>))"

primrec all_bits :: "nat list \<Rightarrow> uint32 list \<Rightarrow> bool" where
  "all_bits [] arr = True"
| "all_bits (idx # rest) arr = (if arr ! idx = 0 then False else all_bits rest arr)"

definition bloom_Contains :: "string \<Rightarrow> BloomFilter \<Rightarrow> bool option" where
  "bloom_Contains item bf =
     (if length (bf_arr bf) = 0 then Some False
      else case bloom_indexes bf item of
        None \<Rightarrow> None
      | Some ixs \<Rightarrow> Some (all_bits ixs (bf_arr bf)))"

definition bloom_Reset :: "BloomFilter \<Rightarrow> BloomFilter" where
  "bloom_Reset bf = bf\<lparr>bf_arr := map (\<lambda>_. 0) (bf_arr bf)\<rparr>"

text \<open>The map-based filter; it has no \<open>Reset\<close>.\<close>

type_synonym noopFilter = "string set"

definition newNoopFilter :: noopFilter where
  "newNoopFilter = {}"

definition noop_Add :: "string \<Rightarrow> noopFilter \<Rightarrow> noopFilter" where
  "noop_Add item f = insert item f"

definition noop_Contains :: "string \<Rightarrow> noopFilter \<Rightarrow> bool" where
  "noop_Contains item f \<longleftrightarrow> item \<in> f"

definition noop_Remove :: "string \<Rightarrow> noopFilter \<Rightarrow> noopFilter" where
  "noop_Remove item f = f - {item}"

section \<open>The contract of a filter\<close>

primrec add_all :: "(string \<Rightarrow> 'f \<Rightarrow> 'f option) \<Rightarrow> string list \<Rightarrow> 'f \<Rightarrow> 'f option" where
  "add_all add [] f = Some f"
| "add_all add (x # xs) f = Option.bind (add x f) (add_all add xs)"

locale membership_filter =
  fixes ok :: "'f \<Rightarrow> bool"
    and add :: "string \<Rightarrow> 'f \<Rightarrow> 'f option"
    and contains :: "string \<Rightarrow> 'f \<Rightarrow> bool option"
  assumes add_returns: "ok f \<Longrightarrow> \<exists>f'. add x f = Some f' \<and> ok f'"
    and contains_returns: "ok f \<Longrightarrow> \<exists>b. contains x f = Some b"
    and add_contains: "ok f \<Longrightarrow> add x f = Some f' \<Longrightarrow> contains x f' = Some True"
    and add_keeps: "ok f \<Longrightarrow> add x f = Some f' \<Longrightarrow> contains y f = Some True \<Longrightarrow> contains y f' = Some True"
begin

lemma add_all_contains:
  "ok f \<Longrightarrow> \<exists>f'. add_all add xs f = Some f' \<and> ok f' \<and> (\<forall>x \<in> set xs. contains x f' = Some True)
     \<and> (\<forall>y. contains y f = Some True \<longrightarrow> contains y f' = Some True)"
proof (induction xs arbitrary: f)
  case (Cons x xs)
  obtain f1 where f1: "add x f = Some f1" "ok f1" using add_returns [OF Cons.prems] by blast
  note one = add_contains [OF Cons.prems f1(1)] add_keeps [OF Cons.prems f1(1)]
  show ?case using Cons.IH [OF f1(2)] f1(1) one by auto
qed simp

end

locale resettable_filter = membership_filter +
  fixes reset :: "'a \<Rightarrow> 'a"
  assumes reset_ok: "ok f \<Longrightarrow> ok (reset f)"
    and reset_clears: "ok f \<Longrightarrow> contains x (reset f) = Some False"
begin

lemma rebuild: "ok f \<Longrightarrow> \<exists>f'. add_all add xs (reset f) = Some f' \<and> (\<forall>x \<in> set xs. contains x f' = Some True)"
  using add_all_contains [OF reset_ok] by blast

end

section \<open>The Bloom filter fulfils it\<close>

definition bloom_ok :: "BloomFilter \<Rightarrow> bool" where
  "bloom_ok bf \<longleftrightarrow> 0 < length (bf_arr bf) \<and> length (bf_arr bf) < 2 ^ 32 \<and> bf_k bf \<noteq> 0"

lemma set_bits_length [simp]: "length (set_bits ixs arr) = length arr"
  by (induction ixs arbitrary: arr) auto

lemma set_bits_nth:
  "(\<forall>i \<in> set ixs. i < length arr) \<Longrightarrow> j < length arr \<Longrightarrow>
   set_bits ixs arr ! j = (if j \<in> set ixs then 1 else arr ! j)"
  by (induction ixs arbitrary: arr) (auto simp: nth_list_update)

lemma all_bits_iff: "all_bits ixs arr \<longleftrightarrow> (\<forall>i \<in> set ixs. arr ! i \<noteq> 0)"
  by (induction ixs) auto

lemma bloom_indexes_ok:
  assumes "bloom_ok bf"
  obtains ixs where "bloom_indexes bf item = Some ixs" and "\<forall>i \<in> set ixs. i < length (bf_arr bf)" and "ixs \<noteq> []"
proof -
  let ?m = "of_nat (length (bf_arr bf)) :: uint32"
  have m: "unat ?m = length (bf_arr bf)"
    using assms by (simp add: bloom_ok_def unat_of_nat)
  then have nz: "?m \<noteq> 0" using assms by (auto simp: bloom_ok_def)
  have lt: "unat (w mod ?m) < length (bf_arr bf)" for w
    using assms m by (simp add: unat_mod bloom_ok_def)
  have "0 < unat (bf_k bf)" using assms by (simp add: bloom_ok_def unat_gt_0)
  then show ?thesis using that nz lt by (auto simp: bloom_indexes_def)
qed

lemma bloom_indexes_cong: "length (bf_arr bf') = length (bf_arr bf) \<Longrightarrow> bf_k bf' = bf_k bf \<Longrightarrow>
  bloom_indexes bf' = bloom_indexes bf"
  by (simp add: bloom_indexes_def fun_eq_iff)

lemma bloom_Add_props:
  assumes "bloom_ok bf"
  shows "\<exists>bf'. bloom_Add x bf = Some bf' \<and> bloom_ok bf' \<and> bloom_Contains x bf' = Some True
    \<and> (\<forall>y. bloom_Contains y bf = Some True \<longrightarrow> bloom_Contains y bf' = Some True)"
proof -
  obtain ixs where ixs: "bloom_indexes bf x = Some ixs" "\<forall>i \<in> set ixs. i < length (bf_arr bf)"
    using bloom_indexes_ok [OF assms] by metis
  let ?bf = "bf\<lparr>bf_arr := set_bits ixs (bf_arr bf)\<rparr>"
  have same: "bloom_indexes ?bf = bloom_indexes bf" by (rule bloom_indexes_cong) simp_all
  have bits: "j < length (bf_arr bf) \<Longrightarrow> set_bits ixs (bf_arr bf) ! j = (if j \<in> set ixs then 1 else bf_arr bf ! j)" for j
    by (rule set_bits_nth [OF ixs(2)])
  have ok: "bloom_ok ?bf" using assms by (simp add: bloom_ok_def)
  have "bloom_Contains y ?bf = Some True" if "bloom_Contains y bf = Some True" for y
  proof -
    obtain ys where ys: "bloom_indexes bf y = Some ys" "\<forall>i \<in> set ys. i < length (bf_arr bf)"
      using bloom_indexes_ok [OF assms] by metis
    then show ?thesis using that assms bits
      by (auto simp: bloom_Contains_def same all_bits_iff bloom_ok_def)
  qed
  moreover have "bloom_Contains x ?bf = Some True"
    using assms ixs bits by (auto simp: bloom_Contains_def same all_bits_iff bloom_ok_def)
  moreover have "bloom_Add x bf = Some ?bf" using assms ixs by (simp add: bloom_Add_def bloom_ok_def)
  ultimately show ?thesis using ok by blast
qed

lemma bloom_Reset_props:
  assumes "bloom_ok bf"
  shows "bloom_ok (bloom_Reset bf)" and "bloom_Contains x (bloom_Reset bf) = Some False"
proof -
  show ok: "bloom_ok (bloom_Reset bf)" using assms by (simp add: bloom_ok_def bloom_Reset_def)
  obtain ixs where ixs: "bloom_indexes (bloom_Reset bf) x = Some ixs" "\<forall>i \<in> set ixs. i < length (bf_arr bf)" "ixs \<noteq> []"
    using bloom_indexes_ok [OF ok] by (metis (no_types, lifting) BloomFilter.select_convs(1) BloomFilter.surjective
        BloomFilter.update_convs(1) bloom_Reset_def length_map)
  then have "hd ixs < length (bf_arr bf)" "hd ixs \<in> set ixs" by auto
  then show "bloom_Contains x (bloom_Reset bf) = Some False"
    using assms ixs(1)
    by (auto simp: bloom_Contains_def all_bits_iff bloom_ok_def bloom_Reset_def intro!: bexI [of _ "hd ixs"])
qed

interpretation bloom: resettable_filter bloom_ok bloom_Add bloom_Contains bloom_Reset
proof
  fix f f' x y
  show "bloom_ok f \<Longrightarrow> \<exists>f'. bloom_Add x f = Some f' \<and> bloom_ok f'" using bloom_Add_props by blast
  show "bloom_ok f \<Longrightarrow> \<exists>b. bloom_Contains x f = Some b"
    by (erule bloom_indexes_ok [where item = x]) (auto simp: bloom_Contains_def)
  show "bloom_ok f \<Longrightarrow> bloom_Add x f = Some f' \<Longrightarrow> bloom_Contains x f' = Some True"
    using bloom_Add_props [of f x] by auto
  show "bloom_ok f \<Longrightarrow> bloom_Add x f = Some f' \<Longrightarrow> bloom_Contains y f = Some True \<Longrightarrow> bloom_Contains y f' = Some True"
    using bloom_Add_props [of f x] by auto
  show "bloom_ok f \<Longrightarrow> bloom_ok (bloom_Reset f)" "bloom_ok f \<Longrightarrow> bloom_Contains x (bloom_Reset f) = Some False"
    by (simp_all add: bloom_Reset_props)
qed

interpretation noop: membership_filter "\<lambda>_. True" "\<lambda>x f. Some (noop_Add x f)" "\<lambda>x f. Some (noop_Contains x f)"
  by unfold_locales (auto simp: noop_Add_def noop_Contains_def)

lemma bloom_New_ok: "m < 2 ^ 32 \<Longrightarrow> k < 2 ^ 32 \<Longrightarrow> bloom_ok (bloom_New m k)"
proof -
  assume mk: "m < 2 ^ 32" "k < 2 ^ 32"
  have "(of_int k :: uint32) \<noteq> 0" if "0 < k" "k < 2 ^ 32" for k :: int
    using that by (auto simp: word_of_int_eq_0_iff dest: zdvd_not_zless)
  from this [of k] this [of 6] mk show ?thesis
    by (auto simp: bloom_New_def bloom_ok_def defaultBitsetSize_def defaultHashCount_def nat_less_iff)
qed

section \<open>Properties\<close>

text \<open>
  C29. No false negatives: after any sequence of additions to a filter of any size below \<open>2 ^ 32\<close>,
  every added item is reported as contained and no operation panics; a reset forgets all items, and
  whatever is added after it is contained again, with no operation panicking.
\<close>

theorem bloom_no_false_negatives:
  assumes "m < 2 ^ 32" and "k < 2 ^ 32"
  shows "\<exists>bf. add_all bloom_Add xs (bloom_New m k) = Some bf
    \<and> (\<forall>x \<in> set xs. bloom_Contains x bf = Some True) \<and> bloom_Contains y (bloom_Reset bf) = Some False
    \<and> (\<exists>bf'. add_all bloom_Add zs (bloom_Reset bf) = Some bf' \<and> (\<forall>z \<in> set zs. bloom_Contains z bf' = Some True))"
  using bloom.add_all_contains [OF bloom_New_ok [OF assms], of xs] bloom_Reset_props(2) bloom.rebuild [of _ zs] by blast

theorem bloom_no_false_negatives_witness:
  "\<exists>bf. add_all bloom_Add [''Tom'', ''Jack''] (bloom_New 1000 6) = Some bf
    \<and> bloom_Contains ''Tom'' bf = Some True \<and> bloom_Contains ''Jack'' bf = Some True
    \<and> bloom_Contains ''Tom'' (bloom_Reset bf) = Some False
    \<and> (\<exists>bf'. add_all bloom_Add [''Ann''] (bloom_Reset bf) = Some bf' \<and> bloom_Contains ''Ann'' bf' = Some True)"
  using bloom_no_false_negatives [of 1000 6 "[''Tom'', ''Jack'']" "''Tom''" "[''Ann'']"] by auto

end
