(* ===== verification/Filter_Gate.thy ===== *)
theory Filter_Gate
  imports Bloom_Filter Go_Error "HOL-Library.Monad_Syntax"
begin

text \<open>
  \<^verbatim>\<open>groupcache_filter.go\<close>: the gate in front of a group's loads. The filter is an interface
  value: its methods are the fields of \<open>FilterOps\<close> and its state is of any type. A nil filter or
  gate is \<open>None\<close>; the outer \<open>None\<close> of a result is a panic of the filter. The refresh goroutine
  is a small state machine: it owns the channel it was started with, and every tick of its timer
  is one step, \<open>refresh_tick\<close> in \<open>Group_Maintenance\<close>.
\<close>

section \<open>Model\<close>

record 'f FilterOps =
  f_Add :: "string \<Rightarrow> 'f \<Rightarrow> 'f option"
  f_Contains :: "string \<Rightarrow> 'f \<Rightarrow> bool option"
  f_Reset :: "('f \<Rightarrow> 'f) option"

record 'f filterGate =
  fg_ops :: "'f FilterOps"
  fg_filter :: 'f
  fg_ready :: bool
  fg_warmupKeys :: "string list"
  fg_refreshStop :: "nat option"
  fg_stopped :: "nat list"
  fg_nextStop :: nat

definition newFilterGate :: "('f FilterOps \<times> 'f) option \<Rightarrow> 'f filterGate option" where
  "newFilterGate flt = (case flt of
     None \<Rightarrow> None
   | Some (ops, f) \<Rightarrow>
       Some \<lparr>fg_ops = ops, fg_filter = f, fg_ready = False, fg_warmupKeys = [],
             fg_refreshStop = None, fg_stopped = [], fg_nextStop = 0\<rparr>)"

definition gate_add :: "string \<Rightarrow> 'f filterGate option \<Rightarrow> 'f filterGate option option" where
  "gate_add key gate = (case gate of
     None \<Rightarrow> Some None
   | Some f \<Rightarrow> map_option (\<lambda>fl. Some (f\<lparr>fg_filter := fl\<rparr>)) (f_Add (fg_ops f) key (fg_filter f)))"

definition gate_rejects :: "string \<Rightarrow> 'f filterGate option \<Rightarrow> bool option" where
  "gate_rejects key gate = (case gate of
     None \<Rightarrow> Some False
   | Some f \<Rightarrow> if fg_ready f then map_option Not (f_Contains (fg_ops f) key (fg_filter f)) else Some False)"

definition cloneStrings :: "string list \<Rightarrow> string list" where
  "cloneStrings values = (if length values = 0 then [] else [] @ values)"

text \<open>
  The loop of \<open>warmup\<close> over the keys, with the state of the loader threaded through; every key is
  loaded even after a failure.
\<close>

primrec warmup_loop ::
  "(string \<Rightarrow> 's \<Rightarrow> (go_error option \<times> 's) option) \<Rightarrow> string list \<Rightarrow> bool \<Rightarrow> 's \<Rightarrow> (bool \<times> 's) option" where
  "warmup_loop load [] ready s = Some (ready, s)"
| "warmup_loop load (key # keys) ready s = do {
     (err, s) \<leftarrow> load key s;
     warmup_loop load keys (if err \<noteq> None then False else ready) s
   }"

text \<open>What \<open>warmup\<close> does to the gate when every key was loaded.\<close>

definition warmup_done :: "string list \<Rightarrow> 'f filterGate \<Rightarrow> 'f filterGate" where
  "warmup_done keys f = f\<lparr>fg_warmupKeys := keys, fg_ready := True\<rparr>"

text \<open>
  \<open>startRefresh\<close> up to the start of the goroutine; \<open>Some stop\<close> is the channel a new goroutine
  listens to.
\<close>

definition startRefresh :: "int \<Rightarrow> 'f filterGate option \<Rightarrow> nat option \<times> 'f filterGate option" where
  "startRefresh interval gate = (case gate of
     None \<Rightarrow> (None, None)
   | Some f \<Rightarrow>
       if interval \<le> 0 then (None, Some f)
       else if f_Reset (fg_ops f) = None then (None, Some f)
       else if fg_refreshStop f \<noteq> None then (None, Some f)
       else
         let stop = fg_nextStop f
         in (Some stop, Some (f\<lparr>fg_nextStop := Suc stop, fg_refreshStop := Some stop\<rparr>)))"

definition stopRefresh :: "'f filterGate option \<Rightarrow> 'f filterGate option" where
  "stopRefresh gate = (case gate of
     None \<Rightarrow> None
   | Some f \<Rightarrow>
       let stop = fg_refreshStop f;
           f = f\<lparr>fg_refreshStop := None\<rparr>
       in Some (case stop of None \<Rightarrow> f | Some c \<Rightarrow> f\<lparr>fg_stopped := c # fg_stopped f\<rparr>))"

definition keysForRefresh :: "'f filterGate \<Rightarrow> string list" where
  "keysForRefresh f = cloneStrings (fg_warmupKeys f)"

definition gate_reset :: "'f filterGate \<Rightarrow> 'f filterGate" where
  "gate_reset f = (case f_Reset (fg_ops f) of
     None \<Rightarrow> f
   | Some reset \<Rightarrow>
       let f = f\<lparr>fg_ready := False\<rparr> in f\<lparr>fg_filter := reset (fg_filter f)\<rparr>)"

definition bloom_ops :: "BloomFilter FilterOps" where
  "bloom_ops = \<lparr>f_Add = bloom_Add, f_Contains = bloom_Contains, f_Reset = Some bloom_Reset\<rparr>"

section \<open>Lemmas\<close>

lemma cloneStrings_id [simp]: "cloneStrings xs = xs"
  by (simp add: cloneStrings_def)

lemma warmup_loop_false: "warmup_loop load keys False s = Some (r, s') \<Longrightarrow> \<not> r"
  by (induction keys arbitrary: s) (auto split: Option.bind_splits prod.splits)

text \<open>
  The channels of refresh goroutines: each one that was made is either stopped, once, or the one
  that is registered.
\<close>

definition refresh_ok :: "'f filterGate \<Rightarrow> bool" where
  "refresh_ok f \<longleftrightarrow> distinct (fg_stopped f) \<and> (\<forall>n. n < fg_nextStop f \<longleftrightarrow> n \<in> set (fg_stopped f) \<or> fg_refreshStop f = Some n)
     \<and> (\<forall>n. fg_refreshStop f = Some n \<longrightarrow> n \<notin> set (fg_stopped f))"

definition live_refreshers :: "'f filterGate \<Rightarrow> nat set" where
  "live_refreshers f = {n. n < fg_nextStop f \<and> n \<notin> set (fg_stopped f)}"

inductive gate_reachable :: "'f FilterOps \<Rightarrow> 'f \<Rightarrow> 'f filterGate option \<Rightarrow> bool" for ops fl where
  gate_new: "gate_reachable ops fl (newFilterGate (Some (ops, fl)))"
| gate_step_add: "gate_reachable ops fl g \<Longrightarrow> gate_add key g = Some g' \<Longrightarrow> gate_reachable ops fl g'"
| gate_step_warm: "gate_reachable ops fl (Some f) \<Longrightarrow> gate_reachable ops fl (Some (warmup_done keys f))"
| gate_step_reset: "gate_reachable ops fl (Some f) \<Longrightarrow> gate_reachable ops fl (Some (gate_reset f))"
| gate_step_start: "gate_reachable ops fl g \<Longrightarrow> gate_reachable ops fl (snd (startRefresh interval g))"
| gate_step_stop: "gate_reachable ops fl g \<Longrightarrow> gate_reachable ops fl (stopRefresh g)"

lemma refresh_ok_frame [simp]:
  "refresh_ok (f\<lparr>fg_filter := x\<rparr>) = refresh_ok f" "refresh_ok (f\<lparr>fg_ready := r\<rparr>) = refresh_ok f"
  "refresh_ok (f\<lparr>fg_ready := r, fg_filter := x\<rparr>) = refresh_ok f"
  "fg_refreshStop f = None \<Longrightarrow> refresh_ok (f\<lparr>fg_refreshStop := None\<rparr>) = refresh_ok f"
  by (simp_all add: refresh_ok_def)

lemma refresh_ok_start: "refresh_ok f \<Longrightarrow> fg_refreshStop f = None \<Longrightarrow>
  refresh_ok (f\<lparr>fg_nextStop := Suc (fg_nextStop f), fg_refreshStop := Some (fg_nextStop f)\<rparr>)"
  by (auto simp: refresh_ok_def less_Suc_eq)

lemma refresh_ok_stop: "refresh_ok f \<Longrightarrow> fg_refreshStop f = Some c \<Longrightarrow>
  refresh_ok (f\<lparr>fg_refreshStop := None, fg_stopped := c # fg_stopped f\<rparr>)"
  by (auto simp: refresh_ok_def)

lemma gate_reachable_ok: "gate_reachable ops fl g \<Longrightarrow> \<exists>f. g = Some f \<and> refresh_ok f"
proof (induction rule: gate_reachable.induct)
  case (gate_step_add g key g')
  then show ?case by (auto simp: gate_add_def)
next
  case (gate_step_reset f)
  then show ?case by (auto simp: gate_reset_def split: option.splits)
next
  case (gate_step_start g interval)
  then show ?case by (auto simp: startRefresh_def refresh_ok_start)
next
  case (gate_step_stop g)
  then show ?case by (auto simp: stopRefresh_def refresh_ok_stop split: option.splits)
qed (auto simp: newFilterGate_def warmup_done_def refresh_ok_def)

section \<open>Properties\<close>

text \<open>
  C34. Whatever is called in which order, at most one refresh goroutine of a filter has not been told
  to stop, none after \<open>stopRefresh\<close>, and no stop channel is closed twice.
\<close>

theorem at_most_one_refresher:
  assumes "gate_reachable ops fl (Some f)"
  shows "live_refreshers f = set_option (fg_refreshStop f) \<and> distinct (fg_stopped f)
    \<and> (\<forall>f'. stopRefresh (Some f) = Some f' \<longrightarrow> live_refreshers f' = {})"
proof -
  have ok: "refresh_ok f" using gate_reachable_ok [OF assms] by simp
  moreover have "live_refreshers f' = {}" if "stopRefresh (Some f) = Some f'" for f'
  proof -
    have "gate_reachable ops fl (stopRefresh (Some f))" by (rule gate_step_stop [OF assms])
    then have "refresh_ok f'" using gate_reachable_ok that by fastforce
    moreover have "fg_refreshStop f' = None" using that by (auto simp: stopRefresh_def split: option.splits)
    ultimately show ?thesis by (auto simp: refresh_ok_def live_refreshers_def)
  qed
  ultimately show ?thesis by (auto simp: refresh_ok_def live_refreshers_def)
qed

theorem at_most_one_refresher_witness:
  "\<exists>f. snd (startRefresh 5 (newFilterGate (Some (bloom_ops, bloom_NewDefault)))) = Some f \<and> live_refreshers f = {0}"
proof -
  have r: "gate_reachable bloom_ops bloom_NewDefault (snd (startRefresh 5 (newFilterGate (Some (bloom_ops, bloom_NewDefault)))))"
    by (rule gate_step_start [OF gate_new])
  have run: "snd (startRefresh 5 (newFilterGate (Some (bloom_ops, bloom_NewDefault)))) =
    Some \<lparr>fg_ops = bloom_ops, fg_filter = bloom_NewDefault, fg_ready = False, fg_warmupKeys = [],
          fg_refreshStop = Some 0, fg_stopped = [], fg_nextStop = 1\<rparr>"
    by (simp add: startRefresh_def newFilterGate_def bloom_ops_def)
  show ?thesis using at_most_one_refresher [OF r [unfolded run]] run by simp
qed

end
