(* ===== verification/Consistent_Hash.thy ===== *)
theory Consistent_Hash
  imports Go_Hash "HOL-Library.Multiset"
begin

text \<open>
  \<^verbatim>\<open>internal/consistenthash/consistenthash.go\<close>: the hash ring that assigns keys to peers. The
  ring is refined to its abstract meaning, the owner of the clockwise successor among the set of
  points, and the properties that make it consistent are proved from that.
\<close>

section \<open>Model\<close>

type_synonym Hash = "bytes \<Rightarrow> uint32"

record hashRing =
  r_hash :: Hash
  r_replicas :: int
  r_keys :: "int list"
  r_hashMap :: "int \<rightharpoonup> string"

definition ring_New :: "int \<Rightarrow> Hash option \<Rightarrow> hashRing" where
  "ring_New replicas fn =
     \<lparr>r_hash = (case fn of None \<Rightarrow> ChecksumIEEE | Some f \<Rightarrow> f), r_replicas = replicas,
      r_keys = [], r_hashMap = Map.empty\<rparr>"

text \<open>\<open>int(m.hash([]byte(s)))\<close>: the hash as a non-negative \<open>int\<close>.\<close>

definition ring_hash :: "hashRing \<Rightarrow> bytes \<Rightarrow> int" where
  "ring_hash m s = uint (r_hash m s)"

definition ring_point :: "hashRing \<Rightarrow> string \<Rightarrow> int \<Rightarrow> int" where
  "ring_point m key i = ring_hash m (FormatInt i @ key)"

definition ring_insert :: "string \<Rightarrow> int \<Rightarrow> hashRing \<Rightarrow> hashRing" where
  "ring_insert key i m =
     (let hash = ring_point m key i;
          m = m\<lparr>r_keys := r_keys m @ [hash]\<rparr>
      in m\<lparr>r_hashMap := (r_hashMap m)(hash \<mapsto> key)\<rparr>)"

definition replica_indexes :: "hashRing \<Rightarrow> int list" where
  "replica_indexes m = map int [0..<nat (r_replicas m)]"

definition ring_add_key :: "string \<Rightarrow> hashRing \<Rightarrow> hashRing" where
  "ring_add_key key m = fold (ring_insert key) (replica_indexes m) m"

definition ring_Add :: "string list \<Rightarrow> hashRing \<Rightarrow> hashRing" where
  "ring_Add keys m =
     (let m = fold ring_add_key keys m in m\<lparr>r_keys := sort (r_keys m)\<rparr>)"

definition ring_delete :: "string \<Rightarrow> int \<Rightarrow> hashRing \<Rightarrow> hashRing" where
  "ring_delete key i m =
     (let hash = ring_point m key i;
          idx = SearchInts (r_keys m) hash
      in if idx < length (r_keys m) \<and> r_keys m ! idx = hash
         then m\<lparr>r_keys := take idx (r_keys m) @ drop (idx + 1) (r_keys m),
                r_hashMap := (r_hashMap m)(hash := None)\<rparr>
         else m)"

definition ring_remove_key :: "string \<Rightarrow> hashRing \<Rightarrow> hashRing" where
  "ring_remove_key key m = fold (ring_delete key) (replica_indexes m) m"

definition ring_Remove :: "string list \<Rightarrow> hashRing \<Rightarrow> hashRing" where
  "ring_Remove keys m = fold ring_remove_key keys m"

text \<open>A missing map entry reads as the empty string.\<close>

definition ring_Get :: "string \<Rightarrow> hashRing \<Rightarrow> string" where
  "ring_Get key m =
     (if length (r_keys m) = 0 then []
      else
        let hash = ring_hash m key;
            idx = sort_Search (length (r_keys m)) (\<lambda>i. r_keys m ! i \<ge> hash)
        in case r_hashMap m (r_keys m ! (idx mod length (r_keys m))) of
             None \<Rightarrow> [] | Some peer \<Rightarrow> peer)"

section \<open>The abstract ring\<close>

text \<open>The clockwise successor of a hash in a set of points.\<close>

definition successor :: "int set \<Rightarrow> int \<Rightarrow> int" where
  "successor P h = (if \<exists>p\<in>P. h \<le> p then Min {p \<in> P. h \<le> p} else Min P)"

definition ring_ok :: "hashRing \<Rightarrow> bool" where
  "ring_ok m \<longleftrightarrow> sorted (r_keys m) \<and> dom (r_hashMap m) = set (r_keys m)"

definition key_points :: "hashRing \<Rightarrow> string \<Rightarrow> int set" where
  "key_points m key = ring_point m key ` set (replica_indexes m)"

lemma successor_in: "finite P \<Longrightarrow> P \<noteq> {} \<Longrightarrow> successor P h \<in> P"
  using Min_in [of P] Min_in [of "{p \<in> P. h \<le> p}"] by (auto simp: successor_def)

lemma successor_union:
  assumes "finite P" and "finite Q" and "successor (P \<union> Q) h \<in> P"
  shows "successor (P \<union> Q) h = successor P h"
proof (cases "\<exists>p \<in> P \<union> Q. h \<le> p")
  case True
  let ?s = "successor (P \<union> Q) h"
  have s: "?s = Min {p \<in> P \<union> Q. h \<le> p}" using True by (simp add: successor_def)
  moreover have "{p \<in> P \<union> Q. h \<le> p} \<noteq> {}" using True by blast
  ultimately have "h \<le> ?s" using assms Min_in [of "{p \<in> P \<union> Q. h \<le> p}"] by auto
  moreover have "?s \<le> p" if "p \<in> P" "h \<le> p" for p using that assms s by (simp add: Min_le)
  ultimately have "Min {p \<in> P. h \<le> p} = ?s" using assms by (intro Min_eqI) auto
  then show ?thesis using \<open>h \<le> ?s\<close> assms(3) by (auto simp: successor_def)
next
  case False
  then have s: "successor (P \<union> Q) h = Min (P \<union> Q)" by (simp add: successor_def)
  have "Min P = Min (P \<union> Q)" using assms s by (intro Min_eqI) auto
  then show ?thesis using False s by (auto simp: successor_def)
qed

lemma successor_search:
  assumes "sorted ks" and "ks \<noteq> []"
  shows "ks ! (SearchInts ks h mod length ks) = successor (set ks) h"
proof (cases "SearchInts ks h < length ks")
  case True
  let ?i = "SearchInts ks h"
  note S = SearchInts_spec [OF assms(1), where x = h]
  have i: "h \<le> ks ! ?i" "ks ! ?i \<in> set ks" using S(3) [of ?i] True by auto
  have "ks ! ?i \<le> p" if p: "p \<in> set ks" "h \<le> p" for p
  proof -
    obtain j where j: "j < length ks" "ks ! j = p" using p(1) by (auto simp: in_set_conv_nth)
    have "\<not> j < ?i" using S(2) [of j] j p(2) by auto
    then show ?thesis using sorted_nth_mono [OF assms(1), of ?i j] j by auto
  qed
  then have "Min {p \<in> set ks. h \<le> p} = ks ! ?i" using i by (intro Min_eqI) auto
  then show ?thesis using i True by (auto simp: successor_def)
next
  case False
  note S = SearchInts_spec [OF assms(1), where x = h]
  have n: "SearchInts ks h = length ks" using False S(1) by simp
  then have "\<not> h \<le> p" if "p \<in> set ks" for p using S(2) that by (auto simp: in_set_conv_nth not_le)
  moreover have "ks ! 0 \<le> p" if "p \<in> set ks" for p
    using that sorted_nth_mono [OF assms(1), of 0] by (auto simp: in_set_conv_nth)
  then have "Min (set ks) = ks ! 0" using assms(2) by (intro Min_eqI) auto
  ultimately show ?thesis by (auto simp: n successor_def)
qed

lemma ring_Get_successor:
  assumes "ring_ok m" and "r_keys m \<noteq> []"
  shows "Some (ring_Get key m) = r_hashMap m (successor (set (r_keys m)) (ring_hash m key))"
proof -
  let ?s = "successor (set (r_keys m)) (ring_hash m key)"
  have "r_keys m ! (SearchInts (r_keys m) (ring_hash m key) mod length (r_keys m)) = ?s"
    using assms successor_search by (simp add: ring_ok_def)
  moreover have "?s \<in> dom (r_hashMap m)" using assms successor_in [of "set (r_keys m)"] by (simp add: ring_ok_def)
  ultimately show ?thesis using assms(2) by (auto simp: ring_Get_def SearchInts_def)
qed

section \<open>Adding peers\<close>

lemma ring_insert_frame [simp]:
  "r_hash (ring_insert key i m) = r_hash m" "r_replicas (ring_insert key i m) = r_replicas m"
  "ring_point (ring_insert key i m) = ring_point m" "ring_hash (ring_insert key i m) = ring_hash m"
  "r_keys (ring_insert key i m) = r_keys m @ [ring_point m key i]"
  "r_hashMap (ring_insert key i m) = (r_hashMap m)(ring_point m key i \<mapsto> key)"
  by (simp_all add: ring_insert_def ring_point_def ring_hash_def fun_eq_iff)

lemma ring_insert_fold:
  "r_hash (fold (ring_insert key) is m) = r_hash m \<and> r_replicas (fold (ring_insert key) is m) = r_replicas m
   \<and> r_keys (fold (ring_insert key) is m) = r_keys m @ map (ring_point m key) is
   \<and> r_hashMap (fold (ring_insert key) is m) =
       (\<lambda>h. if h \<in> ring_point m key ` set is then Some key else r_hashMap m h)"
  by (induction "is" arbitrary: m) auto

lemma ring_add_key:
  "r_hash (ring_add_key key m) = r_hash m" "r_replicas (ring_add_key key m) = r_replicas m"
  "set (r_keys (ring_add_key key m)) = set (r_keys m) \<union> key_points m key"
  "r_hashMap (ring_add_key key m) = (\<lambda>h. if h \<in> key_points m key then Some key else r_hashMap m h)"
  using ring_insert_fold [of key "replica_indexes m" m] by (auto simp: ring_add_key_def key_points_def)

lemma ring_point_cong: "r_hash m' = r_hash m \<Longrightarrow> ring_point m' = ring_point m"
  by (simp add: ring_point_def ring_hash_def fun_eq_iff)

lemma key_points_cong: "r_hash m' = r_hash m \<Longrightarrow> r_replicas m' = r_replicas m \<Longrightarrow> key_points m' = key_points m"
  by (simp add: key_points_def replica_indexes_def ring_point_cong [of m' m] fun_eq_iff)

lemma ring_add_fold:
  "r_hash (fold ring_add_key ks m) = r_hash m \<and> r_replicas (fold ring_add_key ks m) = r_replicas m
   \<and> set (r_keys (fold ring_add_key ks m)) = set (r_keys m) \<union> \<Union> (key_points m ` set ks)
   \<and> dom (r_hashMap (fold ring_add_key ks m)) = dom (r_hashMap m) \<union> \<Union> (key_points m ` set ks)
   \<and> ran (r_hashMap (fold ring_add_key ks m)) \<subseteq> ran (r_hashMap m) \<union> set ks"
proof (induction ks arbitrary: m)
  case (Cons k ks)
  have cong: "key_points (ring_add_key k m) = key_points m" by (rule key_points_cong) (simp_all add: ring_add_key)
  have "ran (r_hashMap (ring_add_key k m)) \<subseteq> ran (r_hashMap m) \<union> {k}"
    by (auto simp: ring_add_key ran_def split: if_splits)
  moreover have "dom (r_hashMap (ring_add_key k m)) = dom (r_hashMap m) \<union> key_points m k"
    by (auto simp: ring_add_key split: if_splits)
  ultimately show ?case using Cons.IH [of "ring_add_key k m"] by (auto simp: cong ring_add_key)
qed simp

lemma ring_Add_props:
  shows "r_hash (ring_Add ks m) = r_hash m" and "r_replicas (ring_Add ks m) = r_replicas m"
    and "set (r_keys (ring_Add ks m)) = set (r_keys m) \<union> \<Union> (key_points m ` set ks)"
    and "ran (r_hashMap (ring_Add ks m)) \<subseteq> ran (r_hashMap m) \<union> set ks"
    and "ring_ok m \<Longrightarrow> ring_ok (ring_Add ks m)"
  using ring_add_fold [of ks m] by (simp_all add: ring_Add_def ring_ok_def)

lemma ring_New_ok [simp]: "ring_ok (ring_New n f)" "r_keys (ring_New n f) = []" "r_hashMap (ring_New n f) = Map.empty"
  by (simp_all add: ring_ok_def ring_New_def)

lemma ring_hash_Add: "ring_hash (ring_Add ks m) = ring_hash m"
  by (simp add: ring_hash_def ring_Add_props fun_eq_iff)

lemma ring_built:
  assumes "ps \<noteq> []" and "0 < replicas"
  shows "Some (ring_Get key (ring_Add ps (ring_New replicas fn))) =
      r_hashMap (ring_Add ps (ring_New replicas fn))
        (successor (set (r_keys (ring_Add ps (ring_New replicas fn)))) (ring_hash (ring_Add ps (ring_New replicas fn)) key))"
    and "ring_Get key (ring_Add ps (ring_New replicas fn)) \<in> set ps"
proof -
  let ?m = "ring_Add ps (ring_New replicas fn)"
  have "key_points (ring_New replicas fn) p \<noteq> {}" for p
    using assms(2) by (simp add: key_points_def replica_indexes_def ring_New_def)
  then have ne: "r_keys ?m \<noteq> []"
    using assms(1) ring_Add_props(3) [of ps "ring_New replicas fn"] by (cases ps) auto
  show G: "Some (ring_Get key ?m) = r_hashMap ?m (successor (set (r_keys ?m)) (ring_hash ?m key))"
    by (rule ring_Get_successor [OF ring_Add_props(5) ne]) simp
  then have "ring_Get key ?m \<in> ran (r_hashMap ?m)" by (metis ranI)
  then show "ring_Get key ?m \<in> set ps" using ring_Add_props(4) [of ps "ring_New replicas fn"] by auto
qed

section \<open>Removing peers\<close>

lemma take_drop_remove1:
  assumes "sorted ks" and "SearchInts ks h < length ks" and "ks ! SearchInts ks h = h"
  shows "take (SearchInts ks h) ks @ drop (SearchInts ks h + 1) ks = remove1 h ks"
proof -
  let ?i = "SearchInts ks h"
  have "h \<notin> set (take ?i ks)"
    using SearchInts_spec(2) [OF assms(1), where x = h] by (auto simp: in_set_conv_nth)
  moreover have "ks = take ?i ks @ h # drop (?i + 1) ks"
    using assms(2,3) id_take_nth_drop [of ?i ks] by simp
  ultimately show ?thesis by (metis remove1.simps(2) remove1_append)
qed

lemma SearchInts_found: "sorted ks \<Longrightarrow> SearchInts ks h < length ks \<and> ks ! SearchInts ks h = h \<longleftrightarrow> h \<in> set ks"
proof
  assume "sorted ks" and "h \<in> set ks"
  note S = SearchInts_spec [OF this(1), where x = h]
  obtain j where j: "j < length ks" "ks ! j = h" using \<open>h \<in> set ks\<close> by (auto simp: in_set_conv_nth)
  have le: "SearchInts ks h \<le> j" using S(2) [of j] j by (auto simp: not_le [symmetric])
  then have "h \<le> ks ! SearchInts ks h" "ks ! SearchInts ks h \<le> h"
    using S(3) [of "SearchInts ks h"] sorted_nth_mono [OF \<open>sorted ks\<close> le j(1)] j by auto
  then show "SearchInts ks h < length ks \<and> ks ! SearchInts ks h = h" using le j by auto
qed (metis nth_mem)

lemma ring_delete_eq:
  assumes "sorted (r_keys m)"
  shows "ring_delete key i m =
    (let h = ring_point m key i in
     if h \<in> set (r_keys m) then m\<lparr>r_keys := remove1 h (r_keys m), r_hashMap := (r_hashMap m)(h := None)\<rparr> else m)"
proof -
  let ?h = "ring_point m key i"
  have "take (SearchInts (r_keys m) ?h) (r_keys m) @ drop (SearchInts (r_keys m) ?h + 1) (r_keys m) = remove1 ?h (r_keys m)"
    if "?h \<in> set (r_keys m)"
    using that SearchInts_found [OF assms, of ?h] take_drop_remove1 [OF assms, of ?h] by blast
  then show ?thesis using SearchInts_found [OF assms, of ?h] by (auto simp: ring_delete_def)
qed

lemma ring_delete_fold:
  assumes "sorted (r_keys m)" and "mset (map (ring_point m key) is) \<subseteq># mset (r_keys m)"
  shows "sorted (r_keys (fold (ring_delete key) is m))
    \<and> mset (r_keys (fold (ring_delete key) is m)) = mset (r_keys m) - mset (map (ring_point m key) is)
    \<and> fold (ring_delete key) is m = m\<lparr>r_keys := r_keys (fold (ring_delete key) is m),
        r_hashMap := (\<lambda>h. if h \<in> ring_point m key ` set is then None else r_hashMap m h)\<rparr>"
  using assms
proof (induction "is" arbitrary: m)
  case (Cons i "is")
  let ?h = "ring_point m key i"
  let ?m = "m\<lparr>r_keys := remove1 ?h (r_keys m), r_hashMap := (r_hashMap m)(?h := None)\<rparr>"
  have "?h \<in># mset (r_keys m)" using Cons.prems(2) by (auto dest: mset_subset_eqD)
  then have step: "ring_delete key i m = ?m" using ring_delete_eq [OF Cons.prems(1)] by simp
  have pt: "ring_point ?m = ring_point m" by (rule ring_point_cong) simp
  have "mset (map (ring_point m key) is) \<subseteq># mset (r_keys m) - {#?h#}"
    using Cons.prems(2) by (simp add: insert_subset_eq_iff)
  then have IH: "sorted (r_keys (fold (ring_delete key) is ?m))
    \<and> mset (r_keys (fold (ring_delete key) is ?m)) = mset (r_keys ?m) - mset (map (ring_point ?m key) is)
    \<and> fold (ring_delete key) is ?m = ?m\<lparr>r_keys := r_keys (fold (ring_delete key) is ?m),
        r_hashMap := (\<lambda>h. if h \<in> ring_point ?m key ` set is then None else r_hashMap ?m h)\<rparr>"
    using Cons.prems(1) by (intro Cons.IH) (simp_all add: pt sorted_remove1)
  show ?case
  proof (intro conjI)
    show "fold (ring_delete key) (i # is) m = m\<lparr>r_keys := r_keys (fold (ring_delete key) (i # is) m),
        r_hashMap := (\<lambda>h. if h \<in> ring_point m key ` set (i # is) then None else r_hashMap m h)\<rparr>"
    proof -
      have upd: "(\<lambda>h. if h \<in> S then None else ((r_hashMap m)(?h := None)) h) =
        (\<lambda>h. if h \<in> insert ?h S then None else r_hashMap m h)" for S
        by auto
      have hm: "r_hashMap ?m = (r_hashMap m)(?h := None)" by simp
      have over: "?m\<lparr>r_keys := X, r_hashMap := Y\<rparr> = m\<lparr>r_keys := X, r_hashMap := Y\<rparr>" for X Y by simp
      note E = IH [THEN conjunct2, THEN conjunct2, unfolded pt hm upd over]
      show ?thesis using E by (simp only: step fold_simps list.set image_insert)
    qed
  qed (use IH in \<open>simp_all add: step pt\<close>)
qed simp

text \<open>Removing what was just added gives the ring back.\<close>

lemma ring_Remove_Add:
  assumes "ring_ok m" and "key_points m p \<inter> set (r_keys m) = {}"
  shows "ring_Remove [p] (ring_Add [p] m) = m"
proof -
  let ?is = "replica_indexes m" and ?a = "ring_Add [p] m"
  have a: "?a = m\<lparr>r_keys := sort (r_keys m @ map (ring_point m p) ?is),
    r_hashMap := (\<lambda>h. if h \<in> key_points m p then Some p else r_hashMap m h)\<rparr>"
    using ring_insert_fold [of p ?is m] by (simp add: ring_Add_def ring_add_key_def key_points_def)
  have pt: "ring_point ?a = ring_point m" by (rule ring_point_cong) (simp add: a)
  have ix: "replica_indexes ?a = ?is" by (simp add: a replica_indexes_def)
  have D: "sorted (r_keys (fold (ring_delete p) ?is ?a))
    \<and> mset (r_keys (fold (ring_delete p) ?is ?a)) = mset (r_keys ?a) - mset (map (ring_point ?a p) ?is)
    \<and> fold (ring_delete p) ?is ?a = ?a\<lparr>r_keys := r_keys (fold (ring_delete p) ?is ?a),
        r_hashMap := (\<lambda>h. if h \<in> ring_point ?a p ` set ?is then None else r_hashMap ?a h)\<rparr>"
    by (rule ring_delete_fold) (simp_all add: pt, simp_all add: a)
  then have "r_keys (fold (ring_delete p) ?is ?a) = sort (r_keys m)"
    unfolding pt by (intro properties_for_sort [symmetric]) (simp_all add: a)
  then have keys: "r_keys (fold (ring_delete p) ?is ?a) = r_keys m"
    using assms(1) by (simp add: ring_ok_def sorted_sort_id)
  have map: "(\<lambda>h. if h \<in> ring_point ?a p ` set ?is then None else r_hashMap ?a h) = r_hashMap m"
  proof
    fix h
    have "r_hashMap m h = None" if "h \<in> key_points m p"
      using that assms by (auto simp: ring_ok_def domIff)
    then show "(if h \<in> ring_point ?a p ` set ?is then None else r_hashMap ?a h) = r_hashMap m h"
      unfolding pt key_points_def [symmetric] by (simp add: a)
  qed
  have "ring_Remove [p] ?a = ?a\<lparr>r_keys := r_keys m, r_hashMap := r_hashMap m\<rparr>"
    using D unfolding keys map by (simp add: ring_Remove_def ring_remove_key_def ix)
  then show ?thesis by (simp add: a)
qed

lemma ring_Remove_Add_twice:
  assumes "ring_ok m"
  shows "sorted (r_keys (ring_Remove [p] (ring_Add [p, p] m)))"
    and "set (r_keys (ring_Remove [p] (ring_Add [p, p] m))) = set (r_keys m) \<union> key_points m p"
    and "h \<in> key_points m p \<Longrightarrow> r_hashMap (ring_Remove [p] (ring_Add [p, p] m)) h = None"
    and "r_hash (ring_Remove [p] (ring_Add [p, p] m)) = r_hash m"
proof -
  let ?is = "replica_indexes m" and ?a = "ring_Add [p, p] m" and ?b = "ring_add_key p m"
  let ?r = "fold (ring_delete p) ?is ?a"
  have pb: "ring_point ?b = ring_point m" "replica_indexes ?b = ?is"
    by (rule ring_point_cong) (simp_all add: ring_add_key replica_indexes_def)
  have keys: "r_keys ?a = sort (r_keys m @ map (ring_point m p) ?is @ map (ring_point m p) ?is)"
    using ring_insert_fold [of p ?is m] ring_insert_fold [of p ?is ?b] pb
    by (simp add: ring_Add_def ring_add_key_def)
  have pt: "ring_point ?a = ring_point m" by (rule ring_point_cong) (simp add: ring_Add_props)
  have ix: "replica_indexes ?a = ?is" by (simp add: ring_Add_props replica_indexes_def)
  have D: "sorted (r_keys ?r) \<and> mset (r_keys ?r) = mset (r_keys ?a) - mset (map (ring_point ?a p) ?is)
    \<and> ?r = ?a\<lparr>r_keys := r_keys ?r,
        r_hashMap := (\<lambda>h. if h \<in> ring_point ?a p ` set ?is then None else r_hashMap ?a h)\<rparr>"
    by (rule ring_delete_fold) (simp_all add: pt keys)
  have r: "ring_Remove [p] ?a = ?r" by (simp add: ring_Remove_def ring_remove_key_def ix)
  show "sorted (r_keys (ring_Remove [p] ?a))" using D r by simp
  have "mset (r_keys ?r) = mset (r_keys m) + mset (map (ring_point m p) ?is)"
    using D by (simp add: pt keys)
  then have "set_mset (mset (r_keys ?r)) = set_mset (mset (r_keys m) + mset (map (ring_point m p) ?is))" by simp
  then show "set (r_keys (ring_Remove [p] ?a)) = set (r_keys m) \<union> key_points m p" by (simp add: r key_points_def)
  have "r_hashMap ?r = (\<lambda>h. if h \<in> key_points m p then None else r_hashMap ?a h)"
    by (subst D [THEN conjunct2, THEN conjunct2]) (simp add: pt key_points_def)
  then show "h \<in> key_points m p \<Longrightarrow> r_hashMap (ring_Remove [p] ?a) h = None" by (simp add: r)
  have "r_hash ?r = r_hash ?a" by (subst D [THEN conjunct2, THEN conjunct2]) simp
  then show "r_hash (ring_Remove [p] ?a) = r_hash m" by (simp add: r ring_Add_props)
qed

section \<open>Properties\<close>

text \<open>
  C6. A ring built from any non-empty list of peers gives every key to one of them: the peer that
  owns the clockwise successor of the key's hash among all points. The binary search and the
  wrap-around at the end of the slice compute exactly that.
\<close>

theorem ring_Get_is_successor_owner:
  assumes "ps \<noteq> []" and "0 < replicas"
  shows "let m = ring_Add ps (ring_New replicas fn) in
    ring_Get key m \<in> set ps
    \<and> Some (ring_Get key m) = r_hashMap m (successor (set (r_keys m)) (ring_hash m key))"
  using ring_built [OF assms] by simp

definition length_hash :: Hash where
  "length_hash s = of_nat (length s)"

theorem ring_Get_is_successor_owner_witness:
  "ring_Get ''xyz'' (ring_Add [''a'', ''bbb''] (ring_New 1 (Some length_hash))) \<in> {''a'', ''bbb''}"
  using ring_Get_is_successor_owner [of "[''a'', ''bbb'']" 1 "Some length_hash" "''xyz''"] by simp

text \<open>
  C27. Adding a peer moves a key only to that peer: every other key keeps its owner.
\<close>

theorem ring_add_moves_keys_only_to_new_peer:
  assumes "ring_ok m" and "r_keys m \<noteq> []"
  shows "ring_Get key (ring_Add [p] m) \<in> {ring_Get key m, p}"
proof -
  let ?m = "ring_Add [p] m" and ?h = "ring_hash m key"
  have ne: "r_keys ?m \<noteq> []" using assms(2) ring_Add_props(3) [of "[p]" m] by auto
  have keys: "set (r_keys ?m) = set (r_keys m) \<union> key_points m p" using ring_Add_props(3) [of "[p]" m] by simp
  have map: "r_hashMap ?m = (\<lambda>h. if h \<in> key_points m p then Some p else r_hashMap m h)"
    by (simp add: ring_Add_def ring_add_key)
  have G: "Some (ring_Get key ?m) = r_hashMap ?m (successor (set (r_keys m) \<union> key_points m p) ?h)"
    using ring_Get_successor [OF ring_Add_props(5) [OF assms(1)] ne] by (simp add: keys ring_hash_Add)
  show ?thesis
  proof (cases "successor (set (r_keys m) \<union> key_points m p) ?h \<in> key_points m p")
    case True
    then show ?thesis using G by (simp add: map)
  next
    case False
    have fin: "finite (key_points m p)" by (simp add: key_points_def)
    have "successor (set (r_keys m) \<union> key_points m p) ?h \<in> set (r_keys m)"
      using False successor_in [of "set (r_keys m) \<union> key_points m p"] fin assms(2) by auto
    then have "successor (set (r_keys m) \<union> key_points m p) ?h = successor (set (r_keys m)) ?h"
      using fin by (intro successor_union) auto
    then have "Some (ring_Get key ?m) = Some (ring_Get key m)"
      using G False ring_Get_successor [OF assms, of key] by (simp add: map)
    then show ?thesis by simp
  qed
qed

lemma example_ring: "ring_ok (ring_Add [''a''] (ring_New 1 (Some length_hash)))"
  "r_keys (ring_Add [''a''] (ring_New 1 (Some length_hash))) = [2]"
  by (rule ring_Add_props(5), simp) code_simp

theorem ring_add_moves_keys_only_to_new_peer_witness:
  "ring_Get ''xyz'' (ring_Add [''bbb''] (ring_Add [''a''] (ring_New 1 (Some length_hash))))
     \<in> {ring_Get ''xyz'' (ring_Add [''a''] (ring_New 1 (Some length_hash))), ''bbb''}"
  by (rule ring_add_moves_keys_only_to_new_peer) (simp_all add: example_ring)

text \<open>
  C28. Adding a peer none of whose points is on the ring yet, and removing it again, restores the
  ring. The condition is needed: a peer that is added a second time leaves duplicates of its points,
  and a point that another peer holds is taken from that peer.
\<close>

theorem ring_remove_undoes_add:
  assumes "ring_ok m" and "key_points m p \<inter> set (r_keys m) = {}"
  shows "ring_Remove [p] (ring_Add [p] m) = m"
  by (rule ring_Remove_Add [OF assms])

theorem ring_remove_undoes_add_witness:
  "ring_Remove [''bbb''] (ring_Add [''bbb''] (ring_Add [''a''] (ring_New 1 (Some length_hash)))) =
     ring_Add [''a''] (ring_New 1 (Some length_hash))"
proof (rule ring_remove_undoes_add [OF example_ring(1)])
  have "FormatInt 0 = ''0''" by code_simp
  then show "key_points (ring_Add [''a''] (ring_New 1 (Some length_hash))) ''bbb''
      \<inter> set (r_keys (ring_Add [''a''] (ring_New 1 (Some length_hash)))) = {}"
    by (simp add: example_ring(2) key_points_def replica_indexes_def ring_Add_props ring_point_def
        ring_hash_Add ring_hash_def ring_New_def length_hash_def)
qed

text \<open>
  A peer that was added twice and removed once leaves its points behind without an owner: every
  key that falls to one of them is mapped to the empty peer name, even if other peers remain.
\<close>

theorem ring_removed_duplicate_leaves_ghost_points:
  assumes "ring_ok m" and "successor (set (r_keys m) \<union> key_points m p) (ring_hash m key) \<in> key_points m p"
  shows "ring_Get key (ring_Remove [p] (ring_Add [p, p] m)) = []"
proof -
  let ?r = "ring_Remove [p] (ring_Add [p, p] m)"
  note R = ring_Remove_Add_twice [OF assms(1), where p = p]
  have "set (r_keys ?r) \<noteq> {}" using assms(2) by (auto simp: R(2))
  then have "r_keys ?r ! (SearchInts (r_keys ?r) (ring_hash ?r key) mod length (r_keys ?r)) =
      successor (set (r_keys ?r)) (ring_hash ?r key)" by (intro successor_search R(1)) simp
  moreover have "ring_hash ?r key = ring_hash m key" by (simp add: ring_hash_def R(4))
  ultimately have "r_hashMap ?r (r_keys ?r ! (SearchInts (r_keys ?r) (ring_hash ?r key) mod length (r_keys ?r))) = None"
    using R(3) [OF assms(2)] by (simp add: R(2))
  then show ?thesis by (simp add: ring_Get_def SearchInts_def)
qed

theorem ring_removed_duplicate_leaves_ghost_points_witness:
  "ring_Get ''xyz'' (ring_Remove [''bbb''] (ring_Add [''bbb'', ''bbb''] (ring_Add [''a''] (ring_New 1 (Some length_hash))))) = []"
proof (rule ring_removed_duplicate_leaves_ghost_points [OF example_ring(1)])
  have zero: "FormatInt 0 = ''0''" by code_simp
  have pts: "key_points (ring_Add [''a''] (ring_New 1 (Some length_hash))) ''bbb'' = {4}"
    by (simp add: key_points_def replica_indexes_def ring_Add_props ring_point_def zero
        ring_hash_Add ring_hash_def ring_New_def length_hash_def)
  have h: "ring_hash (ring_Add [''a''] (ring_New 1 (Some length_hash))) ''xyz'' = 3"
    by (simp add: ring_hash_Add ring_hash_def ring_New_def length_hash_def)
  have "{p \<in> {2, 4}. (3 :: int) \<le> p} = {4}" by auto
  then have "successor {2, 4} 3 = 4" by (simp add: successor_def)
  then show "successor (set (r_keys (ring_Add [''a''] (ring_New 1 (Some length_hash))))
      \<union> key_points (ring_Add [''a''] (ring_New 1 (Some length_hash))) ''bbb'')
      (ring_hash (ring_Add [''a''] (ring_New 1 (Some length_hash))) ''xyz'')
    \<in> key_points (ring_Add [''a''] (ring_New 1 (Some length_hash))) ''bbb''"
    by (simp add: example_ring(2) pts h insert_commute)
qed

end
