(* ===== verification/Peer_Pool.thy ===== *)
theory Peer_Pool
  imports Consistent_Hash Go_Error Byte_View
begin

text \<open>
  The client side of \<^verbatim>\<open>http.go\<close>: the pool of peers, the choice of the peer that owns a key, and
  the remote calls. Marshalling (\<^verbatim>\<open>google.golang.org/protobuf\<close>) and the HTTP transport are not
  part of the program; they are the fields of \<open>Transport\<close>, functions that every remote call takes
  as an argument. What a peer answers may depend on, and change, the state of the outside world.
\<close>

section \<open>Messages\<close>

record pbRequest =
  rq_Group :: string
  rq_Key :: string
  rq_Delta :: int

record pbResponse =
  rs_Value :: bytes
  rs_Code :: int
  rs_ErrMsg :: string
  rs_NotFound :: bool

definition empty_response :: pbResponse where
  "empty_response = \<lparr>rs_Value = [], rs_Code = 0, rs_ErrMsg = [], rs_NotFound = False\<rparr>"

section \<open>Transport\<close>

text \<open>
  The outcome of \<open>peerHTTPClient.Do(req)\<close>: an error, or a status code with its text and a body,
  which may fail to be read. An \<open>Inl\<close> of the other fields is the message of a non-nil error.
\<close>

datatype http_reply = DoError string | Reply int string "string + bytes"

record 'x Transport =
  t_marshal_request :: "pbRequest \<Rightarrow> string + bytes"
  t_unmarshal_response :: "bytes \<Rightarrow> string + pbResponse"
  t_new_request :: "string \<Rightarrow> string option"
  t_do :: "string \<Rightarrow> bytes \<Rightarrow> 'x \<Rightarrow> http_reply \<times> 'x"

definition StatusOK :: int where
  "StatusOK = 200"

section \<open>The pool\<close>

definition defaultBasePath :: string where
  "defaultBasePath = ''/_goCache/''"

definition defaultReplicas :: int where
  "defaultReplicas = 50"

record httpGetter =
  baseURL :: string

record HTTPPool =
  p_self :: string
  p_basePath :: string
  p_peers :: "hashRing option"
  p_httpGetters :: "string \<rightharpoonup> httpGetter"

definition NewHTTPPool :: "string \<Rightarrow> HTTPPool" where
  "NewHTTPPool self =
     \<lparr>p_self = self, p_basePath = defaultBasePath, p_peers = None, p_httpGetters = Map.empty\<rparr>"

definition Pool_Set :: "string list \<Rightarrow> HTTPPool \<Rightarrow> HTTPPool" where
  "Pool_Set peers p =
     (let p = p\<lparr>p_peers := Some (ring_Add peers (ring_New defaultReplicas None))\<rparr>
      in p\<lparr>p_httpGetters :=
             fold (\<lambda>peer m. m(peer \<mapsto> \<lparr>baseURL = peer @ p_basePath p\<rparr>)) peers Map.empty\<rparr>)"

text \<open>
  The peer to ask for a key: \<open>None\<close> is the result \<open>nil, false\<close>; \<open>Some None\<close> would be the nil
  getter with \<open>true\<close> of a peer that is on the ring and not in the map.
\<close>

definition pickPeer :: "string \<Rightarrow> HTTPPool \<Rightarrow> httpGetter option option" where
  "pickPeer key p = (case p_peers p of
     None \<Rightarrow> None
   | Some ring \<Rightarrow>
       let peer = ring_Get key ring
       in if peer \<noteq> [] \<and> peer \<noteq> p_self p then Some (p_httpGetters p peer) else None)"

definition rpcPath :: "string \<Rightarrow> HTTPPool \<Rightarrow> string" where
  "rpcPath action p = p_basePath p @ action"

section \<open>Remote calls\<close>

text \<open>The error of the call, \<open>None\<close> for nil, and the response as it was filled in.\<close>

definition doProtoRequest ::
  "'x Transport \<Rightarrow> httpGetter \<Rightarrow> string \<Rightarrow> pbRequest \<Rightarrow> pbResponse \<Rightarrow> 'x \<Rightarrow> (go_error option \<times> pbResponse) \<times> 'x" where
  "doProtoRequest t h action inp out x =
     (case t_marshal_request t inp of
        Inl err \<Rightarrow> ((Some (Errorf (''failed to marshal request: '' @ err)), out), x)
      | Inr reqBody \<Rightarrow>
          let endpoint = baseURL h @ action in
          (case t_new_request t endpoint of
             Some err \<Rightarrow> ((Some (Errorf (''failed to create request: '' @ err)), out), x)
           | None \<Rightarrow>
               (case t_do t endpoint reqBody x of
                  (DoError err, x) \<Rightarrow> ((Some (Errorf (''failed to perform request: '' @ err)), out), x)
                | (Reply status text body, x) \<Rightarrow>
                    if status \<noteq> StatusOK then ((Some (Errorf (''server returned non-OK status: '' @ text)), out), x)
                    else (case body of
                        Inl err \<Rightarrow> ((Some (Errorf (''failed to read response body: '' @ err)), out), x)
                      | Inr respBody \<Rightarrow>
                          (case t_unmarshal_response t respBody of
                             Inl err \<Rightarrow> ((Some (Errorf (''decoding response body: '' @ err)), out), x)
                           | Inr out \<Rightarrow>
                               if rs_NotFound out then ((Some ErrNotFound, out), x)
                               else if rs_Code out \<noteq> 0 then
                                 ((Some (Errorf (''server error code='' @ FormatInt (rs_Code out) @ '': '' @ rs_ErrMsg out)), out), x)
                               else ((None, out), x))))))"

definition getter_Get ::
  "'x Transport \<Rightarrow> httpGetter \<Rightarrow> pbRequest \<Rightarrow> pbResponse \<Rightarrow> 'x \<Rightarrow> (go_error option \<times> pbResponse) \<times> 'x" where
  "getter_Get t h inp out x = doProtoRequest t h ''get'' inp out x"

definition getter_Increment ::
  "'x Transport \<Rightarrow> httpGetter \<Rightarrow> pbRequest \<Rightarrow> pbResponse \<Rightarrow> 'x \<Rightarrow> (go_error option \<times> pbResponse) \<times> 'x" where
  "getter_Increment t h inp out x = doProtoRequest t h ''increment'' inp out x"

definition getter_Invalidate :: "'x Transport \<Rightarrow> httpGetter \<Rightarrow> pbRequest \<Rightarrow> 'x \<Rightarrow> go_error option \<times> 'x" where
  "getter_Invalidate t h inp x =
     (case doProtoRequest t h ''invalidate'' inp empty_response x of ((err, out), x) \<Rightarrow> (err, x))"

text \<open>
  \<open>broadcastInvalidate\<close> visits the map in an order the language leaves open: \<open>order\<close> lists its
  keys. The first error is returned; later peers are asked all the same.
\<close>

primrec invalidate_all ::
  "'x Transport \<Rightarrow> httpGetter list \<Rightarrow> pbRequest \<Rightarrow> go_error option \<Rightarrow> 'x \<Rightarrow> go_error option \<times> 'x" where
  "invalidate_all t [] inp firstErr x = (firstErr, x)"
| "invalidate_all t (h # hs) inp firstErr x =
     (case getter_Invalidate t h inp x of
        (err, x) \<Rightarrow> invalidate_all t hs inp (if err \<noteq> None \<and> firstErr = None then err else firstErr) x)"

definition broadcastInvalidate ::
  "'x Transport \<Rightarrow> string list \<Rightarrow> HTTPPool \<Rightarrow> pbRequest \<Rightarrow> 'x \<Rightarrow> go_error option \<times> 'x" where
  "broadcastInvalidate t order p inp x =
     (let peers = List.map_filter (\<lambda>peer. if peer = p_self p then None else p_httpGetters p peer) order
      in invalidate_all t peers inp None x)"

definition visits_all :: "string list \<Rightarrow> HTTPPool \<Rightarrow> bool" where
  "visits_all order p \<longleftrightarrow> distinct order \<and> set order = dom (p_httpGetters p)"

section \<open>Lemmas\<close>

lemma fold_getters:
  "fold (\<lambda>peer m. m(peer \<mapsto> f peer)) peers m k = (if k \<in> set peers then Some (f k) else m k)"
  by (induction peers arbitrary: m) auto

lemma Pool_Set_simps [simp]:
  "p_self (Pool_Set peers p) = p_self p" "p_basePath (Pool_Set peers p) = p_basePath p"
  "p_peers (Pool_Set peers p) = Some (ring_Add peers (ring_New defaultReplicas None))"
  "p_httpGetters (Pool_Set peers p) k = (if k \<in> set peers then Some \<lparr>baseURL = k @ p_basePath p\<rparr> else None)"
  by (simp_all add: Pool_Set_def fold_getters)

lemma pickPeer_Set:
  assumes "peers \<noteq> []" and "[] \<notin> set peers"
  shows "pickPeer key (Pool_Set peers p) =
    (let owner = ring_Get key (ring_Add peers (ring_New defaultReplicas None))
     in if owner = p_self p then None else Some (Some \<lparr>baseURL = owner @ p_basePath p\<rparr>))"
  using ring_built(2) [OF assms(1), of defaultReplicas key None] assms(2)
  by (auto simp: pickPeer_def defaultReplicas_def)

section \<open>Properties\<close>

text \<open>
  C30. Nodes that were given the same list of peers agree on the owner of every key: there is one
  peer that serves it locally, and every other node sends its requests to that peer's URL; a node
  never picks a peer it has no client for.
\<close>

theorem peers_agree_on_owner:
  assumes "peers \<noteq> []" and "[] \<notin> set peers"
  shows "\<exists>owner \<in> set peers. \<forall>self. pickPeer key (Pool_Set peers (NewHTTPPool self)) =
    (if self = owner then None else Some (Some \<lparr>baseURL = owner @ ''/_goCache/''\<rparr>))"
  using ring_built(2) [OF assms(1), of defaultReplicas key None]
  by (intro bexI [of _ "ring_Get key (ring_Add peers (ring_New defaultReplicas None))"])
    (auto simp: pickPeer_Set [OF assms] NewHTTPPool_def defaultBasePath_def defaultReplicas_def)

theorem peers_agree_on_owner_witness:
  "\<exists>owner \<in> {''http://a'', ''http://b''}. \<forall>self. pickPeer ''Tom'' (Pool_Set [''http://a'', ''http://b''] (NewHTTPPool self)) =
    (if self = owner then None else Some (Some \<lparr>baseURL = owner @ ''/_goCache/''\<rparr>))"
  using peers_agree_on_owner [of "[''http://a'', ''http://b'']" "''Tom''"] by simp

end
