(* ===== verification/Group_Cache.thy ===== *)
theory Group_Cache
  imports Sharded_Cache Filter_Gate Peer_Pool
begin

text \<open>
  \<^verbatim>\<open>groupcache.go\<close>: a named cache group. Every method takes
  the group and the world and returns its result with both updated; the outer \<open>None\<close> is a panic
  or a call that never returns.

  The world holds what a method reads or changes besides its group: the clock, the random numbers,
  the process-wide counters \<open>Stats\<close>, and the outside (the backing store behind the getter, the
  other nodes). The getter and the incrementer are values that the user of the package supplies,
  so they are functions on the outside.

  A method is the sequential code of one goroutine. What the shared loader does for it is its
  schedule: it leads the load, joins one in flight and gets that one's result (see the theorems of
  \<open>Single_Flight\<close>), or gives up waiting while the load goes on.
\<close>

section \<open>The world\<close>

record 'x world =
  w_clock :: clock
  w_ticks :: nat
  w_rand :: "nat \<Rightarrow> int"
  w_draws :: nat
  w_stats :: Metrics
  w_ext :: 'x

definition w_now :: "'x world \<Rightarrow> time \<times> 'x world" where
  "w_now w = (w_clock w (w_ticks w), w\<lparr>w_ticks := Suc (w_ticks w)\<rparr>)"

definition w_count :: "(Metrics \<Rightarrow> Metrics) \<Rightarrow> 'x world \<Rightarrow> 'x world" where
  "w_count f w = w\<lparr>w_stats := f (w_stats w)\<rparr>"

text \<open>\<open>rand.Int63n\<close> panics for an argument that is not positive.\<close>

definition rand_Int63n :: "int \<Rightarrow> 'x world \<Rightarrow> (int \<times> 'x world) option" where
  "rand_Int63n n w =
     (if n \<le> 0 then None else Some (w_rand w (w_draws w) mod n, w\<lparr>w_draws := Suc (w_draws w)\<rparr>))"

section \<open>The group\<close>

text \<open>The stop channel of a janitor: nil, or open or closed.\<close>

record Janitor =
  j_interval :: duration
  j_stop :: "bool option"

record ('f, 'x) Group =
  gr_name :: string
  gr_getter :: "string \<Rightarrow> 'x \<Rightarrow> bytes result \<times> 'x"
  gr_incrementer :: "(string \<Rightarrow> int \<Rightarrow> 'x \<Rightarrow> int result \<times> 'x) option"
  gr_incrementLocks :: "nat option"
  gr_mainCache :: "Cache option"
  gr_peers :: "HTTPPool option"
  gr_singleflightWaitTTL :: duration
  gr_filter :: "'f filterGate option"
  gr_filterRefresh :: duration
  gr_janitor :: "Janitor option"
  gr_cacheTTL :: duration
  gr_cacheTTLJitter :: duration
  gr_staleCache :: "Cache option"
  gr_staleTTL :: duration
  gr_negativeCacheEnabled :: bool
  gr_negativeTTL :: duration

section \<open>Helpers\<close>

definition stampActiveValue :: "bytes \<Rightarrow> ByteView" where
  "stampActiveValue b = bytes_view b"

text \<open>
  The calls of the group on its caches. \<open>cache.get\<close> reads the clock three times, a write once, an
  increment for its lookup and for its write; a reading that the code skips goes unused.
\<close>

definition use_get :: "string \<Rightarrow> Cache \<Rightarrow> 'x world \<Rightarrow> (ByteView option \<times> Cache \<times> 'x world) option" where
  "use_get key c w =
     (let (start, w) = w_now w; (now, w) = w_now w; (fin, w) = w_now w
      in do { (r, c, m) \<leftarrow> Cache_get start now fin key c (w_stats w); Some (r, c, w\<lparr>w_stats := m\<rparr>) })"

definition use_addWithTTL :: "string \<Rightarrow> ByteView \<Rightarrow> duration \<Rightarrow> Cache \<Rightarrow> 'x world \<Rightarrow> (Cache \<times> 'x world) option" where
  "use_addWithTTL key value ttl c w =
     (let (now, w) = w_now w in do { c \<leftarrow> Cache_addWithTTL now key value ttl c; Some (c, w) })"

definition use_add :: "string \<Rightarrow> ByteView \<Rightarrow> Cache \<Rightarrow> 'x world \<Rightarrow> (Cache \<times> 'x world) option" where
  "use_add key value c w =
     (let (now, w) = w_now w in do { c \<leftarrow> Cache_add now key value c; Some (c, w) })"

definition use_increment ::
  "string \<Rightarrow> int \<Rightarrow> duration \<Rightarrow> Cache \<Rightarrow> 'x world \<Rightarrow> (int result \<times> Cache \<times> 'x world) option" where
  "use_increment key delta ttl c w =
     (let (now1, w) = w_now w; (now2, w) = w_now w
      in do { (r, c) \<leftarrow> Cache_increment now1 now2 key delta ttl (Some stampActiveValue) c; Some (r, c, w) })"

definition nextTTL :: "('f, 'x) Group \<Rightarrow> 'x world \<Rightarrow> (duration \<times> 'x world) option" where
  "nextTTL g w =
     (if gr_cacheTTL g \<le> 0 then Some (0, w)
      else if gr_cacheTTLJitter g \<le> 0 then Some (gr_cacheTTL g, w)
      else do {
        let rangeN = i64 (i64 (gr_cacheTTLJitter g * 2) + 1);
        (n, w) \<leftarrow> rand_Int63n rangeN w;
        let delta = i64 (n - gr_cacheTTLJitter g);
        let ttl = i64 (gr_cacheTTL g + delta);
        Some (if ttl \<le> 0 then 1 else ttl, w)
      })"

text \<open>The write to \<open>mainCache\<close> that the loads and the durable increment share.\<close>

definition store_active ::
  "string \<Rightarrow> ByteView \<Rightarrow> duration \<Rightarrow> ('f, 'x) Group \<Rightarrow> 'x world \<Rightarrow> (('f, 'x) Group \<times> 'x world) option" where
  "store_active key value ttl g w = (case gr_mainCache g of
     None \<Rightarrow> Some (g, w)
   | Some active \<Rightarrow> do {
       (active, w) \<leftarrow> (if ttl > 0 then use_addWithTTL key value ttl active w else use_add key value active w);
       Some (g\<lparr>gr_mainCache := Some active\<rparr>, w)
     })"

definition recordStale ::
  "string \<Rightarrow> ByteView \<Rightarrow> duration \<Rightarrow> ('f, 'x) Group \<Rightarrow> 'x world \<Rightarrow> (('f, 'x) Group \<times> 'x world) option" where
  "recordStale key value activeTTL g w = (case gr_staleCache g of
     None \<Rightarrow> Some (g, w)
   | Some stale \<Rightarrow>
       if gr_staleTTL g \<le> 0 \<or> activeTTL \<le> 0 \<or> isNotFound value then Some (g, w)
       else do {
         (stale, w) \<leftarrow> use_addWithTTL key value (i64 (activeTTL + gr_staleTTL g)) stale w;
         Some (g\<lparr>gr_staleCache := Some stale\<rparr>, w)
       })"

definition getStale ::
  "string \<Rightarrow> ('f, 'x) Group \<Rightarrow> 'x world \<Rightarrow> (ByteView option \<times> ('f, 'x) Group \<times> 'x world) option" where
  "getStale key g w = (case gr_staleCache g of
     None \<Rightarrow> Some (None, g, w)
   | Some stale \<Rightarrow>
       if gr_staleTTL g \<le> 0 then Some (None, g, w)
       else do {
         (r, stale, w) \<leftarrow> use_get key stale w;
         let g = g\<lparr>gr_staleCache := Some stale\<rparr>;
         case r of
           Some v \<Rightarrow> Some (Some v, g, w_count IncCacheHits w)
         | None \<Rightarrow> Some (None, g, w)
       })"

definition filter_add :: "string \<Rightarrow> ('f, 'x) Group \<Rightarrow> ('f, 'x) Group option" where
  "filter_add key g = map_option (\<lambda>f. g\<lparr>gr_filter := f\<rparr>) (gate_add key (gr_filter g))"

definition filterRejects :: "string \<Rightarrow> ('f, 'x) Group \<Rightarrow> bool option" where
  "filterRejects key g = gate_rejects key (gr_filter g)"

text \<open>What the loads and the durable increment do with a new value, one call after the other.\<close>

definition remember ::
  "string \<Rightarrow> ByteView \<Rightarrow> duration \<Rightarrow> ('f, 'x) Group \<Rightarrow> 'x world \<Rightarrow> (('f, 'x) Group \<times> 'x world) option" where
  "remember key value ttl g w = do {
     (g, w) \<leftarrow> store_active key value ttl g w;
     (g, w) \<leftarrow> recordStale key value ttl g w;
     g \<leftarrow> filter_add key g;
     Some (g, w)
   }"

definition cacheNegative ::
  "string \<Rightarrow> ('f, 'x) Group \<Rightarrow> 'x world \<Rightarrow> (('f, 'x) Group \<times> 'x world) option" where
  "cacheNegative key g w =
     (if \<not> gr_negativeCacheEnabled g \<or> gr_negativeTTL g \<le> 0 then Some (g, w)
      else case gr_mainCache g of
        None \<Rightarrow> Some (g, w)
      | Some active \<Rightarrow> do {
          let negativeValue = withNotFound (stampActiveValue []);
          (active, w) \<leftarrow> use_addWithTTL key negativeValue (gr_negativeTTL g) active w;
          Some (g\<lparr>gr_mainCache := Some active\<rparr>, w)
        })"

definition call_getter :: "string \<Rightarrow> ('f, 'x) Group \<Rightarrow> 'x world \<Rightarrow> bytes result \<times> 'x world" where
  "call_getter key g w = (case gr_getter g key (w_ext w) of (r, x) \<Rightarrow> (r, w\<lparr>w_ext := x\<rparr>))"

section \<open>Loading\<close>

definition getLocally ::
  "string \<Rightarrow> ('f, 'x) Group \<Rightarrow> 'x world \<Rightarrow> (ByteView result \<times> ('f, 'x) Group \<times> 'x world) option" where
  "getLocally key g w = do {
     rejected \<leftarrow> filterRejects key g;
     if rejected then
       Some (Inl (Wrapped (Error ErrFilterNotFound @ '' key '' @ key @ '' not found in filter'') ErrFilterNotFound),
             g, w_count IncFilterMisses w)
     else
       (case call_getter key g w of
          (Inl err, w) \<Rightarrow>
            if gr_negativeCacheEnabled g \<and> gr_negativeTTL g > 0 \<and> errors_Is err ErrNotFound
            then do { (g, w) \<leftarrow> cacheNegative key g w; Some (Inl err, g, w) }
            else Some (Inl err, g, w)
        | (Inr bytes, w) \<Rightarrow> do {
            let w = w_count IncLocalLoads w;
            let value = stampActiveValue (cloneBytes bytes);
            (ttl, w) \<leftarrow> nextTTL g w;
            if gr_mainCache g = None then Some (Inr value, g, w)
            else do {
              (g, w) \<leftarrow> remember key value ttl g w;
              Some (Inr value, g, w)
            }
          })
   }"

text \<open>A nil \<open>httpGetter\<close> is a nil dereference; \<open>pickPeer_Set\<close> shows that there is none.\<close>

definition getFromPeer ::
  "'x Transport \<Rightarrow> httpGetter option \<Rightarrow> string \<Rightarrow> ('f, 'x) Group \<Rightarrow> 'x world
    \<Rightarrow> (ByteView result \<times> ('f, 'x) Group \<times> 'x world) option" where
  "getFromPeer t peer key g w = do {
     let w = w_count IncPeerLoads w;
     h \<leftarrow> peer;
     let request = \<lparr>rq_Group = gr_name g, rq_Key = key, rq_Delta = 0\<rparr>;
     let ((err, response), x) = getter_Get t h request empty_response (w_ext w);
     let w = w\<lparr>w_ext := x\<rparr>;
     case err of
       Some e \<Rightarrow> Some (Inl e, g, w)
     | None \<Rightarrow> do {
         let value = stampActiveValue (cloneBytes (rs_Value response));
         (ttl, w) \<leftarrow> nextTTL g w;
         (g, w) \<leftarrow> remember key value ttl g w;
         Some (Inr value, g, w)
       }
   }"

definition loadFromPeer ::
  "'x Transport \<Rightarrow> string \<Rightarrow> ('f, 'x) Group \<Rightarrow> 'x world
    \<Rightarrow> ((ByteView \<times> bool \<times> go_error option) \<times> ('f, 'x) Group \<times> 'x world) option" where
  "loadFromPeer t key g w = (case gr_peers g of
     None \<Rightarrow> Some ((zero_view, False, None), g, w)
   | Some pool \<Rightarrow>
       (case pickPeer key pool of
          None \<Rightarrow> Some ((zero_view, False, None), g, w)
        | Some peer \<Rightarrow> do {
            (r, g, w) \<leftarrow> getFromPeer t peer key g w;
            case r of
              Inr value \<Rightarrow> Some ((value, True, None), g, w)
            | Inl err \<Rightarrow>
                if errors_Is err ErrNotFound then do {
                  (g, w) \<leftarrow> cacheNegative key g w;
                  Some ((zero_view, True, Some ErrNotFound), g, w)
                }
                else Some ((zero_view, False, None), g, w)
          }))"

text \<open>The closure \<open>loadFn\<close> of \<open>load\<close>.\<close>

definition load_fn ::
  "'x Transport \<Rightarrow> string \<Rightarrow> ('f, 'x) Group \<Rightarrow> 'x world \<Rightarrow> (ByteView result \<times> ('f, 'x) Group \<times> 'x world) option" where
  "load_fn t key g w = do {
     ((value, ok, err), g, w) \<leftarrow> loadFromPeer t key g w;
     if ok \<or> err \<noteq> None then Some (case err of None \<Rightarrow> Inr value | Some e \<Rightarrow> Inl e, g, w)
     else getLocally key g w
   }"

definition degradeFromCaches ::
  "string \<Rightarrow> ('f, 'x) Group \<Rightarrow> 'x world \<Rightarrow> ((ByteView \<times> bool \<times> bool) \<times> ('f, 'x) Group \<times> 'x world) option" where
  "degradeFromCaches key g w = do {
     (hit, g, w) \<leftarrow> (case gr_mainCache g of
        None \<Rightarrow> Some (None, g, w)
      | Some active \<Rightarrow> do {
          (r, active, w) \<leftarrow> use_get key active w;
          Some (r, g\<lparr>gr_mainCache := Some active\<rparr>, w)
        });
     case hit of
       Some v \<Rightarrow> Some ((v, False, True), g, w_count IncCacheHits w)
     | None \<Rightarrow> do {
         (r, g, w) \<leftarrow> getStale key g w;
         case r of
           Some v \<Rightarrow> Some ((v, True, True), g, w)
         | None \<Rightarrow> Some ((zero_view, False, False), g, w)
       }
   }"

definition degradeAfterWaitTimeout ::
  "string \<Rightarrow> ('f, 'x) Group \<Rightarrow> 'x world \<Rightarrow> (ByteView result \<times> ('f, 'x) Group \<times> 'x world) option" where
  "degradeAfterWaitTimeout key g w = do {
     ((v, stale, ok), g, w) \<leftarrow> degradeFromCaches key g w;
     if ok then (if isNotFound v then Some (Inl ErrNotFound, g, w) else Some (Inr v, g, w))
     else Some (Inl ErrSingleflightWaitTimeout, g, w)
   }"

text \<open>
  The schedule of one load. A caller that leads runs the load; a caller that waits is woken with
  one of the cases of the \<open>select\<close> in \<open>waitForLoad\<close>, in the group and the world that the other
  goroutines have made meanwhile. \<open>Do\<close> knows no timeout and no context. With \<open>DoChan\<close> the leader
  waits on a channel too, and a panic of the load is recovered into an error: that outcome is
  \<open>Wait (Joined (Inl err))\<close> in the group and the world the panic left, also for the leader, and
  \<open>Lead\<close> is the schedule of a load that does not panic.
\<close>

datatype wakeup = Joined "ByteView result" | CtxDone go_error | TimedOut

datatype ('f, 'x) schedule = Lead | Wait wakeup "('f, 'x) Group" "'x world"

definition loader_Do ::
  "'x Transport \<Rightarrow> ('f, 'x) schedule \<Rightarrow> string \<Rightarrow> ('f, 'x) Group \<Rightarrow> 'x world
    \<Rightarrow> (ByteView result \<times> ('f, 'x) Group \<times> 'x world) option" where
  "loader_Do t sched key g w = (case sched of
     Lead \<Rightarrow> load_fn t key g w
   | Wait (Joined r) g w \<Rightarrow> Some (r, g, w)
   | Wait _ g w \<Rightarrow> None)"

definition waitForLoad ::
  "'x Transport \<Rightarrow> ('f, 'x) schedule \<Rightarrow> string \<Rightarrow> ('f, 'x) Group \<Rightarrow> 'x world
    \<Rightarrow> (ByteView result \<times> ('f, 'x) Group \<times> 'x world) option" where
  "waitForLoad t sched key g w = (case sched of
     Lead \<Rightarrow> load_fn t key g w
   | Wait (Joined r) g w \<Rightarrow> Some (r, g, w)
   | Wait (CtxDone err) g w \<Rightarrow> Some (Inl err, g, w)
   | Wait TimedOut g w \<Rightarrow> degradeAfterWaitTimeout key g w)"

text \<open>\<open>ctxErr\<close> is the value of \<open>ctx.Err()\<close> when it is asked.\<close>

definition group_load ::
  "'x Transport \<Rightarrow> go_error option \<Rightarrow> ('f, 'x) schedule \<Rightarrow> string \<Rightarrow> ('f, 'x) Group \<Rightarrow> 'x world
    \<Rightarrow> (ByteView result \<times> ('f, 'x) Group \<times> 'x world) option" where
  "group_load t ctxErr sched key g w = (case ctxErr of
     Some err \<Rightarrow> Some (Inl err, g, w)
   | None \<Rightarrow>
       if gr_singleflightWaitTTL g \<le> 0 then loader_Do t sched key g w
       else waitForLoad t sched key g w)"

definition group_lookup ::
  "'x Transport \<Rightarrow> go_error option \<Rightarrow> ('f, 'x) schedule \<Rightarrow> string \<Rightarrow> ('f, 'x) Group \<Rightarrow> 'x world
    \<Rightarrow> (ByteView result \<times> ('f, 'x) Group \<times> 'x world) option" where
  "group_lookup t ctxErr sched key g w =
     (if key = [] then Some (Inl (Errorf ''key is required''), g, w)
      else do {
        let w = w_count IncGroupGets w;
        (hit, g, w) \<leftarrow> (case gr_mainCache g of
           None \<Rightarrow> Some (None, g, w)
         | Some active \<Rightarrow> do {
             (r, active, w) \<leftarrow> use_get key active w;
             Some (r, g\<lparr>gr_mainCache := Some active\<rparr>, w)
           });
        case hit of
          Some v \<Rightarrow>
            (let w = w_count IncCacheHits w
             in if isNotFound v then Some (Inl ErrNotFound, g, w) else Some (Inr v, g, w))
        | None \<Rightarrow> group_load t ctxErr sched key g (w_count IncCacheMisses w)
      })"

text \<open>\<open>Get\<close>: the lookup between the two clock readings of the deferred latency record.\<close>

definition group_Get ::
  "'x Transport \<Rightarrow> go_error option \<Rightarrow> ('f, 'x) schedule \<Rightarrow> string \<Rightarrow> ('f, 'x) Group \<Rightarrow> 'x world
    \<Rightarrow> (ByteView result \<times> ('f, 'x) Group \<times> 'x world) option" where
  "group_Get t ctxErr sched key g w =
     (let (start, w) = w_now w
      in do {
        (r, g, w) \<leftarrow> group_lookup t ctxErr sched key g w;
        let (fin, w) = w_now w;
        Some (r, g, w_count (RecordGroupGetLatency (fin - start)) w)
      })"

section \<open>Increments\<close>

definition incrementFromPeer ::
  "'x Transport \<Rightarrow> httpGetter option \<Rightarrow> string \<Rightarrow> int \<Rightarrow> ('f, 'x) Group \<Rightarrow> 'x world
    \<Rightarrow> (int result \<times> ('f, 'x) Group \<times> 'x world) option" where
  "incrementFromPeer t peer key delta g w = do {
     h \<leftarrow> peer;
     let request = \<lparr>rq_Group = gr_name g, rq_Key = key, rq_Delta = delta\<rparr>;
     let ((err, response), x) = getter_Increment t h request empty_response (w_ext w);
     let w = w\<lparr>w_ext := x\<rparr>;
     case err of
       Some e \<Rightarrow> Some (Inl e, g, w)
     | None \<Rightarrow> Some (parseNumericValue (rs_Value response), g, w)
   }"

text \<open>
  The branch with a durable incrementer runs under the lock of the key's stripe (\<open>stripe_of\<close>), so
  it is one step here; \<open>Durable_Increments\<close> interleaves it.
\<close>

definition incrementLocally ::
  "go_error option \<Rightarrow> string \<Rightarrow> int \<Rightarrow> ('f, 'x) Group \<Rightarrow> 'x world
    \<Rightarrow> (int result \<times> ('f, 'x) Group \<times> 'x world) option" where
  "incrementLocally ctxErr key delta g w =
     (if key = [] then Some (Inl (Errorf ''key is required''), g, w)
      else case ctxErr of
        Some err \<Rightarrow> Some (Inl err, g, w)
      | None \<Rightarrow>
          (case gr_mainCache g of
             None \<Rightarrow> Some (Inl ErrIncrementUnsupported, g, w)
           | Some active \<Rightarrow>
               (case gr_incrementer g of
                  None \<Rightarrow> do {
                    (ttl, w) \<leftarrow> nextTTL g w;
                    (r, active, w) \<leftarrow> use_increment key delta ttl active w;
                    let g = g\<lparr>gr_mainCache := Some active\<rparr>;
                    case r of
                      Inl err \<Rightarrow> Some (Inl err, g, w)
                    | Inr nxt \<Rightarrow> do {
                        (g, w) \<leftarrow> recordStale key (stampActiveValue (FormatInt nxt)) ttl g w;
                        g \<leftarrow> filter_add key g;
                        Some (Inr nxt, g, w)
                      }
                  }
                | Some incrementer \<Rightarrow>
                    (case incrementer key delta (w_ext w) of
                       (Inl err, x) \<Rightarrow> Some (Inl err, g, w\<lparr>w_ext := x\<rparr>)
                     | (Inr nxt, x) \<Rightarrow> do {
                         let w = w\<lparr>w_ext := x\<rparr>;
                         let value = stampActiveValue (FormatInt nxt);
                         (ttl, w) \<leftarrow> nextTTL g w;
                         (g, w) \<leftarrow> remember key value ttl g w;
                         Some (Inr nxt, g, w)
                       }))))"

text \<open>\<open>ctxErr'\<close> is the value of the second check of the context, in \<open>incrementLocally\<close>.\<close>

definition group_Increment ::
  "'x Transport \<Rightarrow> go_error option \<Rightarrow> go_error option \<Rightarrow> string \<Rightarrow> int \<Rightarrow> ('f, 'x) Group \<Rightarrow> 'x world
    \<Rightarrow> (int result \<times> ('f, 'x) Group \<times> 'x world) option" where
  "group_Increment t ctxErr ctxErr' key delta g w =
     (if key = [] then Some (Inl (Errorf ''key is required''), g, w)
      else case ctxErr of
        Some err \<Rightarrow> Some (Inl err, g, w)
      | None \<Rightarrow>
          (case gr_peers g of
             None \<Rightarrow> incrementLocally ctxErr' key delta g w
           | Some pool \<Rightarrow>
               (case pickPeer key pool of
                  Some peer \<Rightarrow> incrementFromPeer t peer key delta g w
                | None \<Rightarrow> incrementLocally ctxErr' key delta g w)))"

section \<open>Peers, warm-up, invalidation\<close>

text \<open>A second call panics.\<close>

definition RegisterPeers :: "HTTPPool option \<Rightarrow> ('f, 'x) Group \<Rightarrow> ('f, 'x) Group option" where
  "RegisterPeers peers g = (if gr_peers g \<noteq> None then None else Some (g\<lparr>gr_peers := peers\<rparr>))"

definition getLocallyOnlyForWarmUp ::
  "string \<Rightarrow> ('f, 'x) Group \<Rightarrow> 'x world \<Rightarrow> (ByteView result \<times> ('f, 'x) Group \<times> 'x world) option" where
  "getLocallyOnlyForWarmUp key g w = (case call_getter key g w of
     (Inl err, w) \<Rightarrow> Some (Inl err, g, w)
   | (Inr bytes, w) \<Rightarrow> do {
       let value = bytes_view (cloneBytes bytes);
       g \<leftarrow> filter_add key g;
       Some (Inr value, g, w)
     })"

text \<open>The function that \<open>Warmup\<close> hands to the gate.\<close>

definition warmup_load ::
  "string \<Rightarrow> ('f, 'x) Group \<times> 'x world \<Rightarrow> (go_error option \<times> ('f, 'x) Group \<times> 'x world) option" where
  "warmup_load key s = (case s of (g, w) \<Rightarrow> do {
     (r, g, w) \<leftarrow> getLocallyOnlyForWarmUp key g w;
     Some (case r of Inl err \<Rightarrow> Some err | Inr _ \<Rightarrow> None, g, w)
   })"

definition Warmup ::
  "string list \<Rightarrow> ('f, 'x) Group \<Rightarrow> 'x world \<Rightarrow> (('f, 'x) Group \<times> 'x world) option" where
  "Warmup keys g w =
     (if gr_filter g = None then Some (g, w)
      else do {
        let keys = cloneStrings keys;
        (ready, g, w) \<leftarrow> warmup_loop warmup_load keys True (g, w);
        Some (if ready then g\<lparr>gr_filter := map_option (warmup_done keys) (gr_filter g)\<rparr> else g, w)
      })"

definition invalidateLocal :: "string \<Rightarrow> ('f, 'x) Group \<Rightarrow> ('f, 'x) Group option" where
  "invalidateLocal key g = do {
     g \<leftarrow> (case gr_mainCache g of
        None \<Rightarrow> Some g
      | Some active \<Rightarrow> do { active \<leftarrow> Cache_remove key active; Some (g\<lparr>gr_mainCache := Some active\<rparr>) });
     case gr_staleCache g of
       None \<Rightarrow> Some g
     | Some stale \<Rightarrow> do { stale \<leftarrow> Cache_remove key stale; Some (g\<lparr>gr_staleCache := Some stale\<rparr>) }
   }"

text \<open>\<open>order\<close> is the order in which the broadcast visits the peers.\<close>

definition Invalidate ::
  "'x Transport \<Rightarrow> string list \<Rightarrow> string \<Rightarrow> ('f, 'x) Group \<Rightarrow> 'x world \<Rightarrow> (('f, 'x) Group \<times> 'x world) option" where
  "Invalidate t order key g w = do {
     g \<leftarrow> invalidateLocal key g;
     case gr_peers g of
       None \<Rightarrow> Some (g, w)
     | Some pool \<Rightarrow>
         (case broadcastInvalidate t order pool \<lparr>rq_Group = gr_name g, rq_Key = key, rq_Delta = 0\<rparr> (w_ext w) of
            (err, x) \<Rightarrow> Some (g, w\<lparr>w_ext := x\<rparr>))
   }"

end
