(* ===== verification/Group_Maintenance.thy ===== *)
theory Group_Maintenance
  imports Group_Cache
begin

text \<open>
  \<^verbatim>\<open>groupcache_maintenance.go\<close> and the refresh goroutine of \<^verbatim>\<open>groupcache_filter.go\<close>: the
  janitor and the periodic refresh of the filter. Each goroutine is a loop over a ticker and a stop
  channel; one turn of the loop after a tick is one step, and the goroutine takes no more steps once
  it has received from its closed channel.
\<close>

section \<open>Model\<close>

definition NewJanitor :: "duration \<Rightarrow> Janitor" where
  "NewJanitor interval =
     (let interval = (if interval \<le> 0 then 60 * 1000000000 else interval)
      in \<lparr>j_interval = interval, j_stop = Some False\<rparr>)"

definition Janitor_Stop :: "Janitor option \<Rightarrow> Janitor option" where
  "Janitor_Stop j = (case j of
     None \<Rightarrow> None
   | Some j \<Rightarrow>
       (case j_stop j of
          None \<Rightarrow> Some j
        | Some True \<Rightarrow> Some j
        | Some False \<Rightarrow> Some (j\<lparr>j_stop := Some True\<rparr>)))"

text \<open>
  A tick of \<open>Run\<close>; \<open>clk\<close> and \<open>clk'\<close> are the readings of the clock while the two caches are
  cleaned up.
\<close>

definition janitor_tick ::
  "(nat \<Rightarrow> clock) \<Rightarrow> (nat \<Rightarrow> clock) \<Rightarrow> ('f, 'x) Group \<Rightarrow> ('f, 'x) Group" where
  "janitor_tick clk clk' g =
     (let g = (case gr_mainCache g of
                 None \<Rightarrow> g
               | Some active \<Rightarrow> g\<lparr>gr_mainCache := Some (Cache_clearupExpired clk active)\<rparr>)
      in case gr_staleCache g of
           None \<Rightarrow> g
         | Some stale \<Rightarrow> g\<lparr>gr_staleCache := Some (Cache_clearupExpired clk' stale)\<rparr>)"

definition StartFilterRefresh :: "duration \<Rightarrow> ('f, 'x) Group \<Rightarrow> nat option \<times> ('f, 'x) Group" where
  "StartFilterRefresh interval g =
     (if gr_filter g = None then (None, g)
      else case startRefresh interval (gr_filter g) of (stop, f) \<Rightarrow> (stop, g\<lparr>gr_filter := f\<rparr>))"

definition StopFilterRefresh :: "('f, 'x) Group \<Rightarrow> ('f, 'x) Group" where
  "StopFilterRefresh g = g\<lparr>gr_filter := stopRefresh (gr_filter g)\<rparr>"

text \<open>A tick of the refresh goroutine.\<close>

definition refresh_tick :: "('f, 'x) Group \<Rightarrow> 'x world \<Rightarrow> (('f, 'x) Group \<times> 'x world) option" where
  "refresh_tick g w = (case gr_filter g of
     None \<Rightarrow> Some (g, w)
   | Some f \<Rightarrow>
       let keys = keysForRefresh f
       in if length keys = 0 then Some (g, w)
          else Warmup keys (g\<lparr>gr_filter := Some (gate_reset f)\<rparr>) w)"

end
