(* ===== verification/Group_Laws.thy ===== *)
theory Group_Laws
  imports Group_Maintenance
begin

text \<open>
  What the steps of a group's methods do, in terms of an abstract view of the group: the pair each
  of its two caches holds for a key, the contract of its filter, and the configuration that no
  method changes. The theorems about whole methods are in \<open>Group_Reads\<close> and \<open>Group_Writes\<close>.
\<close>

section \<open>The abstract view\<close>

definition active_view :: "('f, 'x) Group \<Rightarrow> string \<Rightarrow> (ByteView \<times> expiry) option" where
  "active_view g k = (case gr_mainCache g of None \<Rightarrow> None | Some c \<Rightarrow> Cache_look c k)"

definition stale_view :: "('f, 'x) Group \<Rightarrow> string \<Rightarrow> (ByteView \<times> expiry) option" where
  "stale_view g k = (case gr_staleCache g of None \<Rightarrow> None | Some c \<Rightarrow> Cache_look c k)"

definition group_caches :: "('f, 'x) Group \<Rightarrow> Cache set" where
  "group_caches g = set_option (gr_mainCache g) \<union> set_option (gr_staleCache g)"

definition caches_ok :: "('f, 'x) Group \<Rightarrow> bool" where
  "caches_ok g \<longleftrightarrow> (\<forall>c \<in> group_caches g. Cache_ok c)"

text \<open>Every cache of the group keeps a new pair of this size.\<close>

definition group_fits :: "('f, 'x) Group \<Rightarrow> string \<Rightarrow> ByteView \<Rightarrow> bool" where
  "group_fits g k v \<longleftrightarrow> (\<forall>c \<in> group_caches g. Cache_fits c k v)"

text \<open>The group's filter fulfils the contract of a filter, with the invariant \<open>I\<close>.\<close>

definition filter_ok :: "('f \<Rightarrow> bool) \<Rightarrow> ('f, 'x) Group \<Rightarrow> bool" where
  "filter_ok I g \<longleftrightarrow> (case gr_filter g of None \<Rightarrow> True
     | Some f \<Rightarrow> membership_filter I (f_Add (fg_ops f)) (f_Contains (fg_ops f)) \<and> I (fg_filter f))"

definition group_ok :: "('f \<Rightarrow> bool) \<Rightarrow> ('f, 'x) Group \<Rightarrow> bool" where
  "group_ok I g \<longleftrightarrow> caches_ok g \<and> filter_ok I g"

text \<open>What no method but \<open>RegisterPeers\<close> changes.\<close>

definition config :: "('f, 'x) Group \<Rightarrow> ('f, 'x) Group" where
  "config g = g\<lparr>gr_mainCache := None, gr_staleCache := None, gr_filter := None\<rparr>"

lemma config_fields:
  assumes "config g' = config g"
  shows "gr_name g' = gr_name g" "gr_getter g' = gr_getter g" "gr_incrementer g' = gr_incrementer g"
    "gr_peers g' = gr_peers g" "gr_singleflightWaitTTL g' = gr_singleflightWaitTTL g" "gr_cacheTTL g' = gr_cacheTTL g"
    "gr_cacheTTLJitter g' = gr_cacheTTLJitter g" "gr_staleTTL g' = gr_staleTTL g"
    "gr_negativeCacheEnabled g' = gr_negativeCacheEnabled g" "gr_negativeTTL g' = gr_negativeTTL g"
  using assms by (cases g; cases g'; simp add: config_def)+

lemma config_update [simp]:
  "config (g\<lparr>gr_mainCache := c\<rparr>) = config g" "config (g\<lparr>gr_staleCache := c\<rparr>) = config g" "config (g\<lparr>gr_filter := f\<rparr>) = config g"
  by (simp_all add: config_def)

lemma views_update [simp]:
  "active_view (g\<lparr>gr_mainCache := Some c\<rparr>) = Cache_look c" "active_view (g\<lparr>gr_staleCache := c'\<rparr>) = active_view g"
  "active_view (g\<lparr>gr_filter := f\<rparr>) = active_view g" "stale_view (g\<lparr>gr_staleCache := Some c\<rparr>) = Cache_look c"
  "stale_view (g\<lparr>gr_mainCache := c'\<rparr>) = stale_view g" "stale_view (g\<lparr>gr_filter := f\<rparr>) = stale_view g"
  by (auto simp: active_view_def stale_view_def)

lemma filter_ok_update [simp]:
  "filter_ok I (g\<lparr>gr_mainCache := c\<rparr>) = filter_ok I g" "filter_ok I (g\<lparr>gr_staleCache := c\<rparr>) = filter_ok I g"
  by (simp_all add: filter_ok_def)

lemma caches_filter_update [simp]:
  "caches_ok (g\<lparr>gr_filter := f\<rparr>) = caches_ok g" "group_fits (g\<lparr>gr_filter := f\<rparr>) = group_fits g"
  by (auto simp: caches_ok_def group_fits_def group_caches_def fun_eq_iff)

section \<open>The world\<close>

lemma w_now_eq: "w_now w = (w_clock w (w_ticks w), w\<lparr>w_ticks := Suc (w_ticks w)\<rparr>)"
  by (simp add: w_now_def)

lemma w_count_simps [simp]:
  "w_clock (w_count f w) = w_clock w" "w_ticks (w_count f w) = w_ticks w" "w_rand (w_count f w) = w_rand w"
  "w_draws (w_count f w) = w_draws w" "w_ext (w_count f w) = w_ext w" "w_stats (w_count f w) = f (w_stats w)"
  by (simp_all add: w_count_def)

text \<open>When a lookup that starts now compares its entry with the clock, and when a write does.\<close>

definition get_time :: "'x world \<Rightarrow> time" where
  "get_time w = w_clock w (Suc (w_ticks w))"

definition add_time :: "'x world \<Rightarrow> time" where
  "add_time w = w_clock w (w_ticks w)"

section \<open>Counters\<close>

definition lookups :: "Metrics \<Rightarrow> uint64 \<times> uint64 \<times> uint64" where
  "lookups m = (GroupGets m, CacheHits m, CacheMisses m)"

definition loads :: "Metrics \<Rightarrow> uint64 \<times> uint64 \<times> uint64" where
  "loads m = (PeerLoads m, LocalLoads m, FilterMisses m)"

lemma latency_keeps_counters [simp]:
  "lookups (RecordCacheGetLatency d m) = lookups m" "loads (RecordCacheGetLatency d m) = loads m"
  "lookups (RecordGroupGetLatency d m) = lookups m" "loads (RecordGroupGetLatency d m) = loads m"
  by (simp_all add: RecordCacheGetLatency_def RecordGroupGetLatency_def lookups_def loads_def Let_def split: prod.splits)

lemma increments_count [simp]:
  "lookups (IncPeerLoads m) = lookups m" "lookups (IncLocalLoads m) = lookups m" "lookups (IncFilterMisses m) = lookups m"
  "loads (IncGroupGets m) = loads m" "loads (IncCacheHits m) = loads m" "loads (IncCacheMisses m) = loads m"
  "lookups (IncGroupGets m) = (case lookups m of (n, h, f) \<Rightarrow> (n + 1, h, f))"
  "lookups (IncCacheHits m) = (case lookups m of (n, h, f) \<Rightarrow> (n, h + 1, f))"
  "lookups (IncCacheMisses m) = (case lookups m of (n, h, f) \<Rightarrow> (n, h, f + 1))"
  "loads (IncPeerLoads m) = (case loads m of (p, l, f) \<Rightarrow> (p + 1, l, f))"
  "loads (IncLocalLoads m) = (case loads m of (p, l, f) \<Rightarrow> (p, l + 1, f))"
  "loads (IncFilterMisses m) = (case loads m of (p, l, f) \<Rightarrow> (p, l, f + 1))"
  by (simp_all add: IncPeerLoads_def IncLocalLoads_def IncFilterMisses_def IncGroupGets_def IncCacheHits_def
      IncCacheMisses_def lookups_def loads_def)

section \<open>Cache accesses\<close>

lemma use_get_run:
  assumes "Cache_ok c"
  obtains c' d where "use_get key c w = Some (live (get_time w) (Cache_look c key), c',
      w\<lparr>w_ticks := w_ticks w + 3, w_stats := RecordCacheGetLatency d (w_stats w)\<rparr>)"
    and "Cache_ok c'" and "\<And>k. Cache_fits c' k = Cache_fits c k"
    and "Cache_look c' = (if live (get_time w) (Cache_look c key) = None then (Cache_look c)(key := None) else Cache_look c)"
proof -
  obtain c' where c': "Cache_lookup (get_time w) key c = Some (live (get_time w) (Cache_look c key), c')"
    using caches.get_returns [OF assms] by blast
  show ?thesis
  proof (rule that)
    show "use_get key c w = Some (live (get_time w) (Cache_look c key), c', w\<lparr>w_ticks := w_ticks w + 3,
        w_stats := RecordCacheGetLatency (w_clock w (Suc (Suc (w_ticks w))) - w_clock w (w_ticks w)) (w_stats w)\<rparr>)"
      using c' by (simp add: use_get_def w_now_eq get_time_def Cache_get_lookup numeral_3_eq_3)
    show "Cache_ok c'" using caches.get_ok [OF assms c'] .
    show "Cache_fits c' k = Cache_fits c k" for k using caches.get_fits [OF assms c'] by blast
    show "Cache_look c' = (if live (get_time w) (Cache_look c key) = None then (Cache_look c)(key := None) else Cache_look c)"
      using caches.get_look [OF assms c'] .
  qed
qed

lemma use_get_hit:
  assumes "Cache_ok c" and "live (get_time w) (Cache_look c key) = Some v"
  shows "\<exists>c' d. use_get key c w = Some (Some v, c',
      w\<lparr>w_ticks := w_ticks w + 3, w_stats := RecordCacheGetLatency d (w_stats w)\<rparr>)
    \<and> Cache_ok c' \<and> Cache_fits c' = Cache_fits c \<and> Cache_look c' = Cache_look c"
  by (rule use_get_run [OF assms(1), of key w]) (use assms(2) in auto)

lemma use_get_miss:
  assumes "Cache_ok c" and "live (get_time w) (Cache_look c key) = None"
  shows "\<exists>c' d. use_get key c w = Some (None, c',
      w\<lparr>w_ticks := w_ticks w + 3, w_stats := RecordCacheGetLatency d (w_stats w)\<rparr>)
    \<and> Cache_ok c' \<and> Cache_fits c' = Cache_fits c \<and> Cache_look c' = (Cache_look c)(key := None)"
  by (rule use_get_run [OF assms(1), of key w]) (use assms(2) in auto)

lemma use_add_run:
  assumes "Cache_ok c" and "Cache_fits c key v"
  obtains c' where "use_addWithTTL key v ttl c w = Some (c', w\<lparr>w_ticks := Suc (w_ticks w)\<rparr>)" and "Cache_ok c'"
    and "Cache_look c' key = Some (v, expiry_of (add_time w) ttl)" and "\<And>k. Cache_fits c' k = Cache_fits c k"
    and "Cache_look c' \<subseteq>\<^sub>m (Cache_look c)(key \<mapsto> (v, expiry_of (add_time w) ttl))"
proof -
  note room = caches.fits_room [OF assms]
  obtain c' where c': "Cache_addWithTTL (add_time w) key v ttl c = Some c'"
    using caches.add_returns [OF assms(1)] room by blast
  show ?thesis
  proof (rule that)
    show "use_addWithTTL key v ttl c w = Some (c', w\<lparr>w_ticks := Suc (w_ticks w)\<rparr>)"
      using c' by (simp add: use_addWithTTL_def w_now_eq add_time_def)
    show "Cache_ok c'" using caches.add_ok [OF assms(1) _ c'] room by blast
    show "Cache_look c' key = Some (v, expiry_of (add_time w) ttl)"
      using caches.add_stores [OF assms(1) _ c'] room by blast
    show "Cache_fits c' k = Cache_fits c k" for k using caches.add_fits [OF assms(1) _ c'] room by blast
    show "Cache_look c' \<subseteq>\<^sub>m (Cache_look c)(key \<mapsto> (v, expiry_of (add_time w) ttl))"
      using caches.add_look [OF assms(1) _ c'] room by blast
  qed
qed

lemma use_add_TTL: "use_add key v c w = use_addWithTTL key v 0 c w"
  by (simp add: use_add_def use_addWithTTL_def Cache_add_TTL)

lemma expiry_of_nonpos: "ttl \<le> 0 \<Longrightarrow> expiry_of now ttl = expiry_of now 0"
  by (simp add: expiry_of_def)

section \<open>Steps of a load\<close>

lemma store_active_run:
  assumes "gr_mainCache g = Some c" and "caches_ok g" and "group_fits g key v"
  obtains g' where "store_active key v ttl g w = Some (g', w\<lparr>w_ticks := Suc (w_ticks w)\<rparr>)"
    and "caches_ok g'" and "group_fits g' = group_fits g" and "config g' = config g" and "gr_filter g' = gr_filter g"
    and "active_view g' key = Some (v, expiry_of (add_time w) ttl)" and "stale_view g' = stale_view g"
    and "gr_mainCache g' \<noteq> None" and "gr_staleCache g' = gr_staleCache g"
proof -
  have c: "Cache_ok c" "Cache_fits c key v"
    using assms by (simp_all add: caches_ok_def group_fits_def group_caches_def)
  obtain c' where c': "use_addWithTTL key v (max 0 ttl) c w = Some (c', w\<lparr>w_ticks := Suc (w_ticks w)\<rparr>)" "Cache_ok c'"
    "Cache_look c' key = Some (v, expiry_of (add_time w) (max 0 ttl))" "\<And>k. Cache_fits c' k = Cache_fits c k"
    using use_add_run [OF c, of "max 0 ttl" w] by metis
  have E: "expiry_of (add_time w) (max 0 ttl) = expiry_of (add_time w) ttl" by (simp add: expiry_of_def)
  have "store_active key v ttl g w = Some (g\<lparr>gr_mainCache := Some c'\<rparr>, w\<lparr>w_ticks := Suc (w_ticks w)\<rparr>)"
    using c'(1) assms(1) by (cases "ttl > 0") (simp_all add: store_active_def use_add_TTL max_absorb1 max_absorb2)
  then show ?thesis
    by (rule that) (use c' assms E in \<open>auto simp: caches_ok_def group_fits_def group_caches_def fun_eq_iff\<close>)
qed

text \<open>Whether a load leaves a copy in the stale cache.\<close>

definition keeps_stale :: "('f, 'x) Group \<Rightarrow> duration \<Rightarrow> bool" where
  "keeps_stale g ttl \<longleftrightarrow> gr_staleCache g \<noteq> None \<and> 0 < gr_staleTTL g \<and> 0 < ttl"

lemma recordStale_run:
  assumes "caches_ok g" and "group_fits g key v" and "\<not> isNotFound v"
  obtains g' n where "recordStale key v ttl g w = Some (g', w\<lparr>w_ticks := w_ticks w + n\<rparr>)"
    and "caches_ok g'" and "group_fits g' = group_fits g" and "config g' = config g" and "gr_filter g' = gr_filter g"
    and "gr_mainCache g' = gr_mainCache g" and "gr_staleCache g' = None \<longleftrightarrow> gr_staleCache g = None"
    and "keeps_stale g ttl \<Longrightarrow> stale_view g' key = Some (v, expiry_of (add_time w) (i64 (ttl + gr_staleTTL g)))"
proof (cases "keeps_stale g ttl")
  case True
  then obtain c where c: "gr_staleCache g = Some c" "0 < gr_staleTTL g" "0 < ttl" by (auto simp: keeps_stale_def)
  have ok: "Cache_ok c" "Cache_fits c key v"
    using assms c by (simp_all add: caches_ok_def group_fits_def group_caches_def)
  let ?t = "i64 (ttl + gr_staleTTL g)"
  obtain c' where c': "use_addWithTTL key v ?t c w = Some (c', w\<lparr>w_ticks := Suc (w_ticks w)\<rparr>)" "Cache_ok c'"
    "Cache_look c' key = Some (v, expiry_of (add_time w) ?t)" "\<And>k. Cache_fits c' k = Cache_fits c k"
    using use_add_run [OF ok, of ?t w] by metis
  have "recordStale key v ttl g w = Some (g\<lparr>gr_staleCache := Some c'\<rparr>, w\<lparr>w_ticks := w_ticks w + 1\<rparr>)"
    using c c'(1) assms(3) by (simp add: recordStale_def)
  then show ?thesis
    by (rule that) (use c' c assms in \<open>auto simp: caches_ok_def group_fits_def group_caches_def fun_eq_iff\<close>)
next
  case False
  then have "recordStale key v ttl g w = Some (g, w\<lparr>w_ticks := w_ticks w + 0\<rparr>)"
    using assms(3) by (auto simp: recordStale_def keeps_stale_def split: option.splits)
  then show ?thesis by (rule that) (use assms False in auto)
qed

lemma filter_add_run:
  assumes "filter_ok I g"
  obtains f where "filter_add key g = Some (g\<lparr>gr_filter := f\<rparr>)" and "filter_ok I (g\<lparr>gr_filter := f\<rparr>)"
    and "filterRejects key (g\<lparr>gr_filter := f\<rparr>) = Some False"
    and "\<And>k. filterRejects k g = Some False \<Longrightarrow> filterRejects k (g\<lparr>gr_filter := f\<rparr>) = Some False"
    and "f = None \<longleftrightarrow> gr_filter g = None"
proof (cases "gr_filter g")
  case None
  then show ?thesis
    by (intro that [of None]) (simp_all add: filter_add_def gate_add_def filter_ok_def filterRejects_def gate_rejects_def)
next
  case (Some gate)
  let ?ops = "fg_ops gate"
  have F: "membership_filter I (f_Add ?ops) (f_Contains ?ops)" and I: "I (fg_filter gate)"
    using assms Some by (simp_all add: filter_ok_def)
  obtain fl where fl: "f_Add ?ops key (fg_filter gate) = Some fl" "I fl"
    using membership_filter.add_returns [OF F I] by blast
  show ?thesis
  proof (rule that [of "Some (gate\<lparr>fg_filter := fl\<rparr>)"])
    show "filter_add key g = Some (g\<lparr>gr_filter := Some (gate\<lparr>fg_filter := fl\<rparr>)\<rparr>)"
      using Some fl by (simp add: filter_add_def gate_add_def)
    show "filter_ok I (g\<lparr>gr_filter := Some (gate\<lparr>fg_filter := fl\<rparr>)\<rparr>)" using F fl by (simp add: filter_ok_def)
    show "filterRejects key (g\<lparr>gr_filter := Some (gate\<lparr>fg_filter := fl\<rparr>)\<rparr>) = Some False"
      using membership_filter.add_contains [OF F I fl(1)] by (simp add: filterRejects_def gate_rejects_def)
    show "filterRejects k (g\<lparr>gr_filter := Some (gate\<lparr>fg_filter := fl\<rparr>)\<rparr>) = Some False" if "filterRejects k g = Some False" for k
      using that Some membership_filter.add_keeps [OF F I fl(1)]
      by (auto simp: filterRejects_def gate_rejects_def split: if_splits)
  qed (use Some in simp)
qed

lemma remember_run:
  assumes "gr_mainCache g \<noteq> None" and "group_ok I g" and "group_fits g key v" and "\<not> isNotFound v"
  obtains g' n where "remember key v ttl g w = Some (g', w\<lparr>w_ticks := w_ticks w + n\<rparr>)"
    and "group_ok I g'" and "group_fits g' = group_fits g" and "config g' = config g" and "gr_mainCache g' \<noteq> None"
    and "active_view g' key = Some (v, expiry_of (add_time w) ttl)"
    and "gr_staleCache g' = None \<longleftrightarrow> gr_staleCache g = None" and "filterRejects key g' = Some False"
    and "keeps_stale g ttl \<Longrightarrow>
      stale_view g' key = Some (v, expiry_of (w_clock w (Suc (w_ticks w))) (i64 (ttl + gr_staleTTL g)))"
proof -
  obtain c where c: "gr_mainCache g = Some c" using assms(1) by blast
  have ok: "caches_ok g" "filter_ok I g" using assms(2) by (simp_all add: group_ok_def)
  let ?w = "w\<lparr>w_ticks := Suc (w_ticks w)\<rparr>"
  obtain g1 where g1: "store_active key v ttl g w = Some (g1, ?w)" "caches_ok g1" "group_fits g1 = group_fits g"
    "config g1 = config g" "gr_filter g1 = gr_filter g" "active_view g1 key = Some (v, expiry_of (add_time w) ttl)"
    "gr_mainCache g1 \<noteq> None" "gr_staleCache g1 = gr_staleCache g"
    by (rule store_active_run [OF c ok(1) assms(3), of ttl w]) blast
  have fits1: "group_fits g1 key v" using g1(3) assms(3) by simp
  obtain g2 n where g2: "recordStale key v ttl g1 ?w = Some (g2, ?w\<lparr>w_ticks := w_ticks ?w + n\<rparr>)" "caches_ok g2"
    "group_fits g2 = group_fits g1" "config g2 = config g1" "gr_filter g2 = gr_filter g1" "gr_mainCache g2 = gr_mainCache g1"
    "gr_staleCache g2 = None \<longleftrightarrow> gr_staleCache g1 = None"
    "keeps_stale g1 ttl \<Longrightarrow> stale_view g2 key = Some (v, expiry_of (add_time ?w) (i64 (ttl + gr_staleTTL g1)))"
    by (rule recordStale_run [OF g1(2) fits1 assms(4), of ttl ?w]) (rule that)
  have "filter_ok I g2" using ok(2) g1(5) g2(5) by (simp add: filter_ok_def)
  then obtain f where f: "filter_add key g2 = Some (g2\<lparr>gr_filter := f\<rparr>)" "filter_ok I (g2\<lparr>gr_filter := f\<rparr>)"
    "filterRejects key (g2\<lparr>gr_filter := f\<rparr>) = Some False" by (rule filter_add_run [of I g2 key]) blast
  show ?thesis
  proof (rule that [of "g2\<lparr>gr_filter := f\<rparr>" "Suc n"])
    show "group_ok I (g2\<lparr>gr_filter := f\<rparr>)" using f(2) g2(2) by (simp add: group_ok_def)
    show "active_view (g2\<lparr>gr_filter := f\<rparr>) key = Some (v, expiry_of (add_time w) ttl)"
      using g1(6) g2(6) by (simp add: active_view_def)
    show "stale_view (g2\<lparr>gr_filter := f\<rparr>) key = Some (v, expiry_of (w_clock w (Suc (w_ticks w))) (i64 (ttl + gr_staleTTL g)))"
      if "keeps_stale g ttl"
      using g2(8) that g1(8) config_fields(8) [OF g1(4)] by (simp add: keeps_stale_def add_time_def)
  qed (use g1 g2 f in \<open>simp_all add: remember_def\<close>)
qed

end
