(* ===== verification/Group_Config.thy ===== *)
theory Group_Config
  imports Group_Laws "HOL-Library.Signed_Division"
begin

text \<open>
  \<^verbatim>\<open>groupcache_config.go\<close>: the options of a group, its construction, and the registry of all
  groups. An option is a function on \<open>Options\<close> and may be nil; a getter may be nil; an eviction
  callback is present or not, its calls are recorded by the stores. The registry is a map, whose
  groups the methods of the other files update.
\<close>

section \<open>Options\<close>

record ('f, 'x) Options =
  o_Filter :: "('f FilterOps \<times> 'f) option"
  o_incrementer :: "(string \<Rightarrow> int \<Rightarrow> 'x \<Rightarrow> int result \<times> 'x) option"
  o_Janitor :: "Janitor option"
  o_onEvicted :: bool
  o_cache :: "Cache option"
  o_useShards :: bool
  o_useSLRU :: bool
  o_shards :: uint32
  o_slruProtectedRatio :: float64
  o_cacheTTL :: duration
  o_ttlJitter :: duration
  o_staleTTL :: duration
  o_loadWaitTTL :: duration
  o_negativeTTL :: duration
  o_loadWaitTTLSet :: bool
  o_negativeTTLSet :: bool
  o_negativeCacheEnabled :: bool
  o_filterRefresh :: duration

definition zero_Options :: "('f, 'x) Options" where
  "zero_Options = \<lparr>o_Filter = None, o_incrementer = None, o_Janitor = None, o_onEvicted = False, o_cache = None,
     o_useShards = False, o_useSLRU = False, o_shards = 0, o_slruProtectedRatio = Fin 0, o_cacheTTL = 0, o_ttlJitter = 0,
     o_staleTTL = 0, o_loadWaitTTL = 0, o_negativeTTL = 0, o_loadWaitTTLSet = False, o_negativeTTLSet = False,
     o_negativeCacheEnabled = False, o_filterRefresh = 0\<rparr>"

type_synonym ('f, 'x) Option = "('f, 'x) Options \<Rightarrow> ('f, 'x) Options"

definition WithFilter :: "('f FilterOps \<times> 'f) option \<Rightarrow> ('f, 'x) Option" where
  "WithFilter flt o1 = o1\<lparr>o_Filter := flt\<rparr>"

definition WithFilterRefresh :: "duration \<Rightarrow> ('f, 'x) Option" where
  "WithFilterRefresh interval o1 = o1\<lparr>o_filterRefresh := interval\<rparr>"

definition WithIncrementer :: "(string \<Rightarrow> int \<Rightarrow> 'x \<Rightarrow> int result \<times> 'x) option \<Rightarrow> ('f, 'x) Option" where
  "WithIncrementer incrementer o1 = o1\<lparr>o_incrementer := incrementer\<rparr>"

definition WithJanitor :: "duration \<Rightarrow> ('f, 'x) Option" where
  "WithJanitor interval o1 = o1\<lparr>o_Janitor := Some (NewJanitor interval)\<rparr>"

definition WithOnEvicted :: "bool \<Rightarrow> ('f, 'x) Option" where
  "WithOnEvicted onEvicted o1 = o1\<lparr>o_onEvicted := onEvicted\<rparr>"

definition WithCache :: "Cache option \<Rightarrow> ('f, 'x) Option" where
  "WithCache cache o1 = o1\<lparr>o_cache := cache\<rparr>"

definition WithShardedCache :: "uint32 \<Rightarrow> ('f, 'x) Option" where
  "WithShardedCache shards o1 = o1\<lparr>o_useShards := True, o_shards := shards\<rparr>"

definition WithSLRU :: "float64 \<Rightarrow> ('f, 'x) Option" where
  "WithSLRU protectedRatio o1 = o1\<lparr>o_useSLRU := True, o_slruProtectedRatio := protectedRatio\<rparr>"

definition WithRandomTTL :: "duration \<Rightarrow> duration \<Rightarrow> ('f, 'x) Option" where
  "WithRandomTTL baseTTL jitter o1 =
     (if baseTTL \<le> 0 then o1\<lparr>o_cacheTTL := 0, o_ttlJitter := 0\<rparr>
      else
        let jitter = (if jitter < 0 then i64 (- jitter) else jitter)
        in o1\<lparr>o_cacheTTL := baseTTL, o_ttlJitter := jitter\<rparr>)"

definition WithSingleflightWaitTTL :: "duration \<Rightarrow> ('f, 'x) Option" where
  "WithSingleflightWaitTTL ttl o1 = o1\<lparr>o_loadWaitTTL := ttl, o_loadWaitTTLSet := True\<rparr>"

definition WithStaleWhileRevalidate :: "duration \<Rightarrow> ('f, 'x) Option" where
  "WithStaleWhileRevalidate ttl o1 = o1\<lparr>o_staleTTL := ttl\<rparr>"

definition WithNegativeCache :: "duration \<Rightarrow> ('f, 'x) Option" where
  "WithNegativeCache ttl o1 = o1\<lparr>o_negativeTTL := ttl, o_negativeTTLSet := True, o_negativeCacheEnabled := ttl > 0\<rparr>"

section \<open>Construction\<close>

definition normalizedShardCount :: "uint32 \<Rightarrow> uint32" where
  "normalizedShardCount shards = (if shards = 0 then 256 else shards)"

definition newConfiguredCache :: "int \<Rightarrow> ('f, 'x) Options \<Rightarrow> bool \<Rightarrow> bool \<Rightarrow> Cache" where
  "newConfiguredCache cacheBytes options onEvicted useProvided =
     (if useProvided \<and> o_cache options \<noteq> None then the (o_cache options)
      else if o_useShards options then
        let shards = normalizedShardCount (o_shards options);
            perShardBytes = cacheBytes sdiv uint shards;
            perShardBytes = (if perShardBytes \<le> 0 then 1 else perShardBytes)
        in ShardCache (newShardedCache 0 shards perShardBytes onEvicted (o_useSLRU options) (o_slruProtectedRatio options))
      else LocalCache (new_cache cacheBytes onEvicted (o_useSLRU options) (o_slruProtectedRatio options)))"

definition apply_options :: "('f, 'x) Option option list \<Rightarrow> ('f, 'x) Options" where
  "apply_options opts = fold (\<lambda>opt options. case opt of None \<Rightarrow> options | Some f \<Rightarrow> f options) opts zero_Options"

type_synonym ('f, 'x) registry = "string \<rightharpoonup> ('f, 'x) Group"

text \<open>
  The new group and the registry; \<open>None\<close> is a panic. A janitor and a filter refresh are started as
  goroutines, whose steps are \<open>janitor_tick\<close> and \<open>refresh_tick\<close>.
\<close>

definition NewGroup ::
  "string \<Rightarrow> int \<Rightarrow> (string \<Rightarrow> 'x \<Rightarrow> bytes result \<times> 'x) option \<Rightarrow> ('f, 'x) Option option list \<Rightarrow> ('f, 'x) registry
    \<Rightarrow> (('f, 'x) Group \<times> ('f, 'x) registry) option" where
  "NewGroup name cacheBytes getter opts groups =
     (if name = [] then None
      else case getter of
        None \<Rightarrow> None
      | Some get \<Rightarrow>
          let options = apply_options opts;
              mainCache = newConfiguredCache cacheBytes options (o_onEvicted options) True;
              g = \<lparr>gr_name = name, gr_getter = get, gr_incrementer = o_incrementer options,
                   gr_incrementLocks = Some (newStripedLocks defaultIncrementLockStripes),
                   gr_mainCache = Some mainCache, gr_peers = None,
                   gr_singleflightWaitTTL = o_loadWaitTTL options, gr_filter = newFilterGate (o_Filter options),
                   gr_filterRefresh = o_filterRefresh options, gr_janitor = o_Janitor options,
                   gr_cacheTTL = o_cacheTTL options, gr_cacheTTLJitter = o_ttlJitter options,
                   gr_staleCache = None, gr_staleTTL = o_staleTTL options,
                   gr_negativeCacheEnabled = o_negativeCacheEnabled options, gr_negativeTTL = o_negativeTTL options\<rparr>;
              g = (if gr_staleTTL g > 0 \<and> gr_cacheTTL g > 0
                   then g\<lparr>gr_staleCache := Some (newConfiguredCache cacheBytes options False False)\<rparr> else g);
              g = (if gr_filterRefresh g > 0 then snd (StartFilterRefresh (gr_filterRefresh g) g) else g)
          in Some (g, groups(name \<mapsto> g)))"

definition NewGroupWithFilter ::
  "string \<Rightarrow> int \<Rightarrow> (string \<Rightarrow> 'x \<Rightarrow> bytes result \<times> 'x) option \<Rightarrow> ('f FilterOps \<times> 'f) option \<Rightarrow> ('f, 'x) registry
    \<Rightarrow> (('f, 'x) Group \<times> ('f, 'x) registry) option" where
  "NewGroupWithFilter name cacheBytes getter flt groups =
     (if name = [] then None
      else if flt = None then None
      else NewGroup name cacheBytes getter [Some (WithFilter flt)] groups)"

definition GetGroup :: "string \<Rightarrow> ('f, 'x) registry \<Rightarrow> ('f, 'x) Group option" where
  "GetGroup name groups = groups name"

section \<open>Lemmas\<close>

lemma new_cache_ok:
  assumes "0 \<le> cacheBytes"
  shows "cache_ok (new_cache cacheBytes e slru r)" "cache_look (new_cache cacheBytes e slru r) k = None"
  using assms lru_New_ok [of cacheBytes True] slru_New_ok [of cacheBytes r True]
  by (simp_all add: cache_ok_def cache_look_def ensureStore_def new_cache_def slru_lookup_def slru_New_def)

lemma newShardedCache_ok:
  assumes "0 \<le> cacheBytes" and "m \<noteq> 0"
  shows "sharded_ok (newShardedCache s m cacheBytes e slru r)" "sharded_look (newShardedCache s m cacheBytes e slru r) k = None"
proof -
  show ok: "sharded_ok (newShardedCache s m cacheBytes e slru r)"
    using assms new_cache_ok(1) [OF assms(1)] by (auto simp: sharded_ok_def newShardedCache_def)
  show "sharded_look (newShardedCache s m cacheBytes e slru r) k = None"
    using shard_less [OF ok, of k] new_cache_ok(2) [OF assms(1)] by (simp add: on_shard_def newShardedCache_def)
qed

lemma newConfiguredCache_ok:
  assumes "0 \<le> cacheBytes" and "useProvided \<Longrightarrow> o_cache options = None"
  shows "Cache_ok (newConfiguredCache cacheBytes options e useProvided)"
    and "Cache_look (newConfiguredCache cacheBytes options e useProvided) k = None"
proof -
  have "normalizedShardCount n \<noteq> 0" for n by (simp add: normalizedShardCount_def)
  then show "Cache_ok (newConfiguredCache cacheBytes options e useProvided)"
    "Cache_look (newConfiguredCache cacheBytes options e useProvided) k = None"
    using assms by (auto simp: newConfiguredCache_def new_cache_ok newShardedCache_ok Let_def)
qed

lemma StartFilterRefresh_keeps:
  "snd (StartFilterRefresh i g) = g\<lparr>gr_filter := snd (startRefresh i (gr_filter g))\<rparr>"
  by (cases g) (auto simp: StartFilterRefresh_def startRefresh_def split: prod.splits)

lemma NewGroup_run:
  assumes "NewGroup name cacheBytes (Some get) opts groups = Some (g, groups')"
    and "0 \<le> cacheBytes" and "o_cache (apply_options opts) = None"
  shows "groups' = groups(name \<mapsto> g)" "caches_ok g" "gr_mainCache g \<noteq> None" "gr_peers g = None"
    and "gr_getter g = get" "gr_name g = name"
    and "gr_staleCache g \<noteq> None \<longleftrightarrow> 0 < gr_staleTTL g \<and> 0 < gr_cacheTTL g"
    and "active_view g k = None" "stale_view g k = None"
    and "newFilterGate (o_Filter (apply_options opts)) = gr_filter g
        \<or> (\<exists>i. snd (startRefresh i (newFilterGate (o_Filter (apply_options opts)))) = gr_filter g)"
proof -
  let ?o = "apply_options opts"
  let ?main = "newConfiguredCache cacheBytes ?o (o_onEvicted ?o) True" and ?stale = "newConfiguredCache cacheBytes ?o False False"
  have c: "Cache_ok ?main" "Cache_ok ?stale" "Cache_look ?main k = None" "Cache_look ?stale k = None" for k
    using newConfiguredCache_ok [OF assms(2)] assms(3) by blast+
  note defs = NewGroup_def Let_def StartFilterRefresh_keeps
  show "groups' = groups(name \<mapsto> g)" "gr_mainCache g \<noteq> None" "gr_peers g = None" "gr_getter g = get" "gr_name g = name"
    "gr_staleCache g \<noteq> None \<longleftrightarrow> 0 < gr_staleTTL g \<and> 0 < gr_cacheTTL g"
    "newFilterGate (o_Filter ?o) = gr_filter g \<or> (\<exists>i. snd (startRefresh i (newFilterGate (o_Filter ?o))) = gr_filter g)"
    using assms(1) by (auto simp: defs split: if_splits)
  show "caches_ok g" "active_view g k = None" "stale_view g k = None"
    using assms(1) c by (auto simp: defs caches_ok_def group_caches_def active_view_def stale_view_def split: if_splits)
qed

lemma NewGroup_returns:
  "NewGroup name cacheBytes getter opts groups = None \<longleftrightarrow> name = [] \<or> getter = None"
  by (auto simp: NewGroup_def Let_def split: option.splits)

lemma startRefresh_fields:
  assumes "snd (startRefresh i (Some f)) = Some f'"
  shows "fg_ops f' = fg_ops f" "fg_filter f' = fg_filter f" "fg_ready f' = fg_ready f" "fg_warmupKeys f' = fg_warmupKeys f"
  using assms by (auto simp: startRefresh_def Let_def split: if_splits)

lemma new_gate_fields:
  assumes "newFilterGate flt = Some fg \<or> (\<exists>i. snd (startRefresh i (newFilterGate flt)) = Some fg)"
  shows "flt = Some (fg_ops fg, fg_filter fg)" "\<not> fg_ready fg" "fg_warmupKeys fg = []"
proof -
  obtain f where f: "newFilterGate flt = Some f" using assms by (cases "newFilterGate flt") (auto simp: startRefresh_def)
  then have "fg_ops fg = fg_ops f \<and> fg_filter fg = fg_filter f \<and> fg_ready fg = fg_ready f \<and> fg_warmupKeys fg = fg_warmupKeys f"
    using assms startRefresh_fields [of _ f fg] by auto
  then show "flt = Some (fg_ops fg, fg_filter fg)" "\<not> fg_ready fg" "fg_warmupKeys fg = []"
    using f by (auto simp: newFilterGate_def split: option.splits)
qed

lemma new_gate_passes:
  assumes "newFilterGate flt = gr_filter g \<or> (\<exists>i. snd (startRefresh i (newFilterGate flt)) = gr_filter g)"
    and "\<forall>ops fl. flt = Some (ops, fl) \<longrightarrow> membership_filter I (f_Add ops) (f_Contains ops) \<and> I fl"
  shows "filter_ok I g" "filterRejects k g = Some False"
proof -
  have "flt = Some (fg_ops f, fg_filter f)" "\<not> fg_ready f" if "gr_filter g = Some f" for f
    using new_gate_fields [of flt f] assms(1) that by simp_all
  then show "filter_ok I g" "filterRejects k g = Some False"
    using assms(2) by (auto simp: filter_ok_def filterRejects_def gate_rejects_def split: option.splits)
qed

text \<open>
  A cache of the configured kind: one cache with the whole budget, or the configured number of shards
  with an equal share each; behind every one an empty store of the configured policy and limit,
  created at the first use.
\<close>

definition configured_store :: "('f, 'x) Options \<Rightarrow> int \<Rightarrow> localCache" where
  "configured_store options limit = (if o_useSLRU options then SlruStore (slru_New limit (o_slruProtectedRatio options) True)
     else LruStore (lru_New limit True))"

definition of_kind :: "int \<Rightarrow> ('f, 'x) Options \<Rightarrow> bool \<Rightarrow> Cache \<Rightarrow> bool" where
  "of_kind cacheBytes options onEvicted c \<longleftrightarrow> (case c of
     LocalCache lc \<Rightarrow> \<not> o_useShards options \<and> ensureStore lc = configured_store options cacheBytes \<and> c_onEvicted lc = onEvicted
   | ShardCache sc \<Rightarrow> o_useShards options \<and> int (length (sh_cs sc)) = (if o_shards options = 0 then 256 else uint (o_shards options))
       \<and> (\<forall>lc \<in> set (sh_cs sc). c_onEvicted lc = onEvicted
            \<and> ensureStore lc = configured_store options (max 1 (cacheBytes div int (length (sh_cs sc))))))"

lemma new_store: "ensureStore (new_cache b e (o_useSLRU options) (o_slruProtectedRatio options)) = configured_store options b"
  "c_onEvicted (new_cache b e s r) = e"
  by (simp_all add: ensureStore_def new_cache_def configured_store_def)

lemma int_sdiv_nonneg: "0 \<le> (a :: int) \<Longrightarrow> 0 \<le> b \<Longrightarrow> a sdiv b = a div b"
  by (cases "b = 0") (auto simp: signed_divide_int_def sgn_if)

lemma newConfiguredCache_kind:
  assumes "0 \<le> cacheBytes" and "useProvided \<Longrightarrow> o_cache options = None"
  shows "of_kind cacheBytes options e (newConfiguredCache cacheBytes options e useProvided)"
  using assms
  by (auto simp: of_kind_def newConfiguredCache_def newShardedCache_def new_store int_sdiv_nonneg normalizedShardCount_def
      Let_def max_def)

lemma NewGroup_kind:
  assumes "NewGroup name cacheBytes (Some get) opts groups = Some (g, groups')"
    and "0 \<le> cacheBytes" and "o_cache (apply_options opts) = None"
  shows "\<forall>c. gr_mainCache g = Some c \<longrightarrow> of_kind cacheBytes (apply_options opts) (o_onEvicted (apply_options opts)) c"
    and "\<forall>c. gr_staleCache g = Some c \<longrightarrow> of_kind cacheBytes (apply_options opts) False c"
  using assms(1) newConfiguredCache_kind [OF assms(2), of _ "apply_options opts"] assms(3)
  by (auto simp: NewGroup_def Let_def StartFilterRefresh_keeps split: if_splits)

section \<open>Properties\<close>

text \<open>
  C33. A new group is ready to serve: for a name and a getter \<open>NewGroup\<close> does not panic, registers
  the group under its name without touching others, and gives it empty, well-formed caches of the
  configured kind (LRU or SLRU with its ratio, one cache or so many shards, each with its share of
  the budget; the callback in the main cache only), a stale cache exactly when both TTLs are set, and
  a gate that rejects nothing. Without a name or a getter it panics.
\<close>

theorem NewGroup_ready:
  assumes "0 \<le> cacheBytes" and "o_cache (apply_options opts) = None"
    and "\<forall>ops fl. o_Filter (apply_options opts) = Some (ops, fl) \<longrightarrow> membership_filter I (f_Add ops) (f_Contains ops) \<and> I fl"
  shows "(NewGroup name cacheBytes getter opts groups = None \<longleftrightarrow> name = [] \<or> getter = None)
    \<and> (\<forall>g groups'. NewGroup name cacheBytes getter opts groups = Some (g, groups') \<longrightarrow>
        GetGroup name groups' = Some g \<and> (\<forall>n. n \<noteq> name \<longrightarrow> GetGroup n groups' = GetGroup n groups)
        \<and> group_ok I g \<and> gr_mainCache g \<noteq> None \<and> gr_peers g = None
        \<and> (\<forall>c. gr_mainCache g = Some c \<longrightarrow> of_kind cacheBytes (apply_options opts) (o_onEvicted (apply_options opts)) c)
        \<and> (\<forall>c. gr_staleCache g = Some c \<longrightarrow> of_kind cacheBytes (apply_options opts) False c)
        \<and> (gr_staleCache g \<noteq> None \<longleftrightarrow> 0 < o_staleTTL (apply_options opts) \<and> 0 < o_cacheTTL (apply_options opts))
        \<and> (\<forall>k. active_view g k = None \<and> stale_view g k = None \<and> filterRejects k g = Some False))"
proof (intro conjI allI impI NewGroup_returns)
  fix g groups' k n c
  assume run: "NewGroup name cacheBytes getter opts groups = Some (g, groups')"
  then obtain get where "getter = Some get" using NewGroup_returns [of name cacheBytes getter opts groups] by auto
  note run' = run [unfolded this]
  note g = NewGroup_run [OF run' assms(1,2)]
  note gate = new_gate_passes [OF g(10) assms(3)]
  show "GetGroup name groups' = Some g" "gr_mainCache g \<noteq> None" "gr_peers g = None"
    "active_view g k = None" "stale_view g k = None" "filterRejects k g = Some False"
    using g(1,3,4,8,9) gate(2) by (simp_all add: GetGroup_def)
  show "GetGroup n groups' = GetGroup n groups" if "n \<noteq> name" using g(1) that by (simp add: GetGroup_def)
  show "group_ok I g" using g(2) gate(1) by (simp add: group_ok_def)
  show "of_kind cacheBytes (apply_options opts) (o_onEvicted (apply_options opts)) c" if "gr_mainCache g = Some c"
    using NewGroup_kind(1) [OF run' assms(1,2)] that by blast
  show "of_kind cacheBytes (apply_options opts) False c" if "gr_staleCache g = Some c"
    using NewGroup_kind(2) [OF run' assms(1,2)] that by blast
  show "gr_staleCache g \<noteq> None \<longleftrightarrow> 0 < o_staleTTL (apply_options opts) \<and> 0 < o_cacheTTL (apply_options opts)"
    using g(7) run' by (auto simp: NewGroup_def Let_def StartFilterRefresh_keeps split: if_splits)
qed

text \<open>A group with eight shards of the SLRU policy, a TTL, stale values and a Bloom filter.\<close>

definition demo_options :: "(BloomFilter, nat) Option option list" where
  "demo_options = [None, Some (WithSLRU (Fin (1/2))), Some (WithShardedCache 8), Some (WithRandomTTL 100 (- 10)), Some (WithStaleWhileRevalidate 50),
     Some (WithFilter (Some (bloom_ops, bloom_New 1000 6))), Some (WithFilterRefresh 5)]"

theorem NewGroup_ready_witness:
  "\<exists>g groups'. NewGroup ''scores'' 2048 (Some (\<lambda>_ n. (Inl ErrNotFound, Suc n))) demo_options Map.empty = Some (g, groups')
     \<and> GetGroup ''scores'' groups' = Some g \<and> group_ok bloom_ok g
     \<and> (\<exists>sc. gr_mainCache g = Some (ShardCache sc) \<and> length (sh_cs sc) = 8
          \<and> (\<forall>lc \<in> set (sh_cs sc). ensureStore lc = SlruStore (slru_New 256 (Fin (1/2)) True)))"
proof -
  have "membership_filter bloom_ok (f_Add bloom_ops) (f_Contains bloom_ops)"
    using bloom.membership_filter_axioms by (simp add: bloom_ops_def)
  moreover have "bloom_ok (bloom_New 1000 6)" by (rule bloom_New_ok) simp_all
  ultimately have f: "\<forall>ops fl. o_Filter (apply_options demo_options) = Some (ops, fl) \<longrightarrow>
      membership_filter bloom_ok (f_Add ops) (f_Contains ops) \<and> bloom_ok fl"
    by (simp add: apply_options_def demo_options_def WithFilter_def WithFilterRefresh_def)
  have c: "o_cache (apply_options demo_options) = None"
    by (simp add: apply_options_def demo_options_def WithFilter_def WithFilterRefresh_def WithRandomTTL_def
        WithStaleWhileRevalidate_def WithSLRU_def WithShardedCache_def zero_Options_def)
  have o: "o_useSLRU (apply_options demo_options)" "o_slruProtectedRatio (apply_options demo_options) = Fin (1/2)"
    "o_useShards (apply_options demo_options)" "o_shards (apply_options demo_options) = 8"
    by (simp_all add: apply_options_def demo_options_def WithFilter_def WithFilterRefresh_def WithRandomTTL_def
        WithStaleWhileRevalidate_def WithSLRU_def WithShardedCache_def zero_Options_def)
  have p: "0 \<le> (2048 :: int)" by simp
  note ready = NewGroup_ready [OF p c f, of "''scores''" "Some (\<lambda>_ n. (Inl ErrNotFound, Suc n))" Map.empty]
  then obtain g groups' where run: "NewGroup ''scores'' 2048 (Some (\<lambda>_ n. (Inl ErrNotFound, Suc n))) demo_options Map.empty = Some (g, groups')"
    by auto
  with ready have g: "GetGroup ''scores'' groups' = Some g" "group_ok bloom_ok g" "gr_mainCache g \<noteq> None"
    "\<And>c. gr_mainCache g = Some c \<Longrightarrow> of_kind 2048 (apply_options demo_options) (o_onEvicted (apply_options demo_options)) c" by blast+
  then obtain c where c: "gr_mainCache g = Some c" by blast
  then obtain sc where "c = ShardCache sc" "length (sh_cs sc) = 8"
      "\<forall>lc \<in> set (sh_cs sc). ensureStore lc = SlruStore (slru_New 256 (Fin (1/2)) True)"
    using g(4) o by (cases c) (auto simp: of_kind_def configured_store_def)
  then show ?thesis using run g(1,2) c by blast
qed

end
