(* ===== verification/Cache_Capacity.thy ===== *)
theory Cache_Capacity
  imports Group_Config
begin

text \<open>
  The byte budget of a configured cache, through all layers: options, shards, store and policy. The
  stores behind a cache keep the limits they were created with under every operation, hold no more
  than those, and so serve no pair that is larger than its shard's share.
\<close>

section \<open>The stores behind a cache\<close>

primrec Cache_stores :: "Cache \<Rightarrow> localCache list" where
  "Cache_stores (LocalCache c) = [ensureStore c]"
| "Cache_stores (ShardCache sc) = map ensureStore (sh_cs sc)"

definition cache_limits :: "Cache \<Rightarrow> int list" where
  "cache_limits c = map store_limit (Cache_stores c)"

definition cache_used :: "Cache \<Rightarrow> int" where
  "cache_used c = sum_list (map store_used (Cache_stores c))"

text \<open>
  Every sequence of the six operations of the interface; \<open>add\<close> is \<open>addWithTTL\<close> without a deadline.
  An insertion, and an increment whatever number it writes, must not take a byte counter past
  \<open>int64\<close>.
\<close>

inductive cache_run :: "Cache \<Rightarrow> Cache \<Rightarrow> bool" for c0 where
  run_new: "cache_run c0 c0"
| run_add: "cache_run c0 c \<Longrightarrow> Cache_room c k v \<Longrightarrow> Cache_addWithTTL now k v ttl c = Some c' \<Longrightarrow> cache_run c0 c'"
| run_get: "cache_run c0 c \<Longrightarrow> Cache_get start now fin k c m = Some (r, c', m') \<Longrightarrow> cache_run c0 c'"
| run_remove: "cache_run c0 c \<Longrightarrow> Cache_remove k c = Some c' \<Longrightarrow> cache_run c0 c'"
| run_purge: "cache_run c0 c \<Longrightarrow> cache_run c0 (Cache_clearupExpired clk c)"
| run_increment: "cache_run c0 c \<Longrightarrow> \<forall>n. in_i64 n \<longrightarrow> Cache_room c k (number_view mk n) \<Longrightarrow>
    Cache_increment now1 now2 k delta ttl mk c = Some (r, c') \<Longrightarrow> cache_run c0 c'"

section \<open>Limits never change\<close>

abbreviation limit_of :: "cache \<Rightarrow> int" where
  "limit_of c \<equiv> store_limit (ensureStore c)"

lemma cache_limit_keeps:
  assumes "cache_ok c"
  shows "cache_room c k v \<Longrightarrow> cache_addWithTTL now k v ttl c = Some c' \<Longrightarrow> limit_of c' = limit_of c"
    and "cache_lookup now k c = (r, c') \<Longrightarrow> limit_of c' = limit_of c"
    and "limit_of (cache_remove k c) = limit_of c"
    and "limit_of (cache_clearupExpired clk c) = limit_of c"
proof -
  have ok: "store_ok (ensureStore c)" using assms by (simp add: cache_ok_def)
  have s: "ensureStore c = s" if "c_store c = Some s" for s using that by (simp add: ensureStore_def)
  show "cache_room c k v \<Longrightarrow> cache_addWithTTL now k v ttl c = Some c' \<Longrightarrow> limit_of c' = limit_of c"
    using store.add_ok [OF ok] by (auto simp: cache_addWithTTL_def cache_room_def)
  show "cache_lookup now k c = (r, c') \<Longrightarrow> limit_of c' = limit_of c"
    using store.get_ok [OF ok, of now k] s by (auto simp: cache_lookup_def split: option.splits prod.splits)
  show "limit_of (cache_remove k c) = limit_of c"
    using store.remove_ok [OF ok, of k] s by (auto simp: cache_remove_def split: option.splits)
  show "limit_of (cache_clearupExpired clk c) = limit_of c"
    using store.purge_ok [OF ok, of clk] s by (auto simp: cache_clearupExpired_def split: option.splits)
qed

lemma limits_update:
  "i < length cs \<Longrightarrow> limit_of c = limit_of (cs ! i) \<Longrightarrow> 
   map (store_limit \<circ> ensureStore) (cs[i := c]) = map (store_limit \<circ> ensureStore) cs"
  by (simp add: map_update list_update_same_conv)

lemma cache_limits_keeps:
  assumes "Cache_ok c"
  shows "Cache_room c k v \<Longrightarrow> Cache_addWithTTL now k v ttl c = Some c' \<Longrightarrow> cache_limits c' = cache_limits c"
    and "Cache_get start now fin k c m = Some (r, c', m') \<Longrightarrow> cache_limits c' = cache_limits c"
    and "Cache_remove k c = Some c' \<Longrightarrow> cache_limits c' = cache_limits c"
    and "cache_limits (Cache_clearupExpired clks c) = cache_limits c"
proof -
  have sh: "cache_ok (sh_cs sc ! shard k sc)" "shard k sc < length (sh_cs sc)" "sharded_bucket k sc = Some (shard k sc)"
    if "sharded_ok sc" for sc
    using that shard_less [OF that, of k] sharded_bucket_ok [OF that] by (auto simp: sharded_ok_def)
  show "Cache_room c k v \<Longrightarrow> Cache_addWithTTL now k v ttl c = Some c' \<Longrightarrow> cache_limits c' = cache_limits c"
    using assms by (cases c) (auto simp: cache_limits_def sharded_addWithTTL_def sh on_shard_def
        intro!: limits_update cache_limit_keeps(1))
  show "Cache_get start now fin k c m = Some (r, c', m') \<Longrightarrow> cache_limits c' = cache_limits c"
    using assms by (cases c) (auto simp: cache_limits_def cache_get_def sharded_get_def sh
        split: prod.splits intro!: limits_update cache_limit_keeps(2))
  show "Cache_remove k c = Some c' \<Longrightarrow> cache_limits c' = cache_limits c"
    using assms by (cases c) (auto simp: cache_limits_def sharded_remove_def sh intro!: limits_update cache_limit_keeps(3))
  show "cache_limits (Cache_clearupExpired clks c) = cache_limits c"
    using assms by (cases c)
      (auto simp: cache_limits_def cache_limit_keeps(4) sharded_clearupExpired_def sharded_ok_def intro!: nth_equalityI cache_limit_keeps(4))
qed

lemma increment_limits:
  assumes "Cache_ok c" and "\<forall>n. in_i64 n \<longrightarrow> Cache_room c k (number_view mk n)"
    and "Cache_increment now1 now2 k delta ttl mk c = Some (r, c')"
  shows "Cache_ok c'" "cache_limits c' = cache_limits c"
proof -
  obtain r1 c1 where c1: "Cache_lookup now1 k c = Some (r1, c1)" using caches.get_returns [OF assms(1), of now1 k] by blast
  then have get: "Cache_get now1 now1 now1 k c m = Some (r1, c1, RecordCacheGetLatency 0 m)" for m
    by (simp add: Cache_get_lookup)
  note 1 = caches.get_ok [OF assms(1) c1] cache_limits_keeps(2) [OF assms(1) get]
  have "Cache_ok c' \<and> cache_limits c' = cache_limits c"
  proof (cases "current_number r1")
    case (Inl err)
    then show ?thesis using assms(1,3) c1 1 by (simp add: caches.increment_eq)
  next
    case (Inr n)
    let ?v = "number_view mk (i64 (n + delta))"
    have "Cache_addWithTTL now2 k ?v ttl c1 = Some c'" using assms(1,3) c1 Inr by (auto simp: caches.increment_eq)
    moreover have "Cache_room c1 k ?v" using caches.get_room [OF assms(1) c1] assms(2) by simp
    ultimately show ?thesis using caches.add_ok [OF 1(1)] cache_limits_keeps(1) [OF 1(1)] 1(2) by metis
  qed
  then show "Cache_ok c'" "cache_limits c' = cache_limits c" by simp_all
qed

lemma cache_run_keeps:
  assumes "cache_run c0 c" and "Cache_ok c0"
  shows "Cache_ok c \<and> cache_limits c = cache_limits c0"
  using assms
proof (induction rule: cache_run.induct)
  case (run_add c k v now ttl c')
  then show ?case using caches.add_ok cache_limits_keeps(1) by metis
next
  case (run_get c start now fin k m r c' m')
  then have "Cache_lookup now k c = Some (r, c')" by (auto simp: Cache_get_lookup)
  then show ?case using run_get caches.get_ok cache_limits_keeps(2) by metis
next
  case (run_remove c k c')
  then show ?case using caches.remove_ok cache_limits_keeps(3) by (metis option.inject)
next
  case (run_purge c clk)
  then show ?case using caches.purge_ok cache_limits_keeps(4) by metis
next
  case (run_increment c k mk now1 now2 delta ttl r c')
  then show ?case using increment_limits by metis
qed simp

section \<open>What the limits mean\<close>

lemma store_look_cost: "store_ok s \<Longrightarrow> store_look s k = Some (v, x) \<Longrightarrow> item_cost k v \<le> store_used s"
proof (cases s)
  case (LruStore c)
  assume "store_ok s" and "store_look s k = Some (v, x)"
  then have "lru_wf c" "lru_lookup c k = Some (v, x)" using LruStore by (simp_all add: lru_ok_def)
  then obtain e where "l_cache c k = Some e" "v = e_value (l_heap c e)" by (auto simp: lru_lookup_def)
  then show ?thesis using lru_cost_le [OF \<open>lru_wf c\<close>] lru_wfD(3) [OF \<open>lru_wf c\<close>] LruStore
    by (fastforce simp: entry_cost_def)
next
  case (SlruStore c)
  assume "store_ok s" and "store_look s k = Some (v, x)"
  then have wf: "slru_index_ok c" "slru_lookup c k = Some (v, x)" using SlruStore by (simp_all add: slru_ok_def slru_wf_def)
  then obtain e where e: "s_cache c k = Some e" "v = se_value (s_heap c e)" by (auto simp: slru_lookup_def)
  then have m: "e \<in> set (s_probation c) \<union> set (s_protected c)" "se_key (s_heap c e) = k"
    using wf(1) by (auto simp: slru_index_ok_def)
  have "scost (s_heap c e) \<le> slru_size c"
    using m(1) slru_sum_member [of e _ c] slru_sum_nonneg [of c "s_probation c"] slru_sum_nonneg [of c "s_protected c"]
    unfolding slru_size_def by (metis Un_iff add_increasing add_increasing2)
  then show ?thesis using SlruStore e(2) m(2) by (simp add: scost_def)
qed

lemma Cache_stores_ok: "Cache_ok c \<Longrightarrow> s \<in> set (Cache_stores c) \<Longrightarrow> store_ok s"
  by (cases c) (auto simp: cache_ok_def sharded_ok_def)

lemma Cache_look_store: "Cache_ok c \<Longrightarrow> \<exists>s \<in> set (Cache_stores c). Cache_look c k = store_look s k"
  using shard_less by (cases c) (auto simp: cache_look_def on_shard_def)

lemma used_le_limits:
  assumes "Cache_ok c" and "\<forall>l \<in> set (cache_limits c). l \<noteq> 0"
  shows "cache_used c \<le> sum_list (cache_limits c)"
  unfolding cache_used_def cache_limits_def
  using store.used_bound [OF Cache_stores_ok [OF assms(1)]] assms(2)
  by (intro sum_list_mono) (auto simp: cache_limits_def)

text \<open>The share of one store.\<close>

definition budget :: "int \<Rightarrow> ('f, 'x) Options \<Rightarrow> int" where
  "budget cacheBytes options = (if o_useShards options
     then max 1 (cacheBytes div uint (normalizedShardCount (o_shards options))) else cacheBytes)"

lemma ensureStore_limit: "limit_of (new_cache b e slru r) = b"
  by (simp add: ensureStore_def new_cache_def lru_New_def slru_New_def)

lemma new_limits:
  assumes "0 < cacheBytes" and "useProvided \<Longrightarrow> o_cache options = None"
  shows "cache_limits (newConfiguredCache cacheBytes options e useProvided) =
    replicate (if o_useShards options then unat (normalizedShardCount (o_shards options)) else 1) (budget cacheBytes options)"
  using assms by (auto simp: newConfiguredCache_def cache_limits_def newShardedCache_def budget_def ensureStore_limit
      int_sdiv_nonneg map_replicate_const Let_def max_def)

section \<open>Properties\<close>

text \<open>
  C11. The configured capacity is respected: whatever sequence of additions, lookups, increments,
  removals and purges a cache that \<open>newConfiguredCache\<close> made has seen, it never holds more than \<open>cacheBytes\<close> bytes of keys and values, provided there is at least
  a byte for every shard; and no pair is ever found in it that is larger than the share of one
  shard, so that a pair above \<open>cacheBytes / shards\<close> is never cached at all.
\<close>

theorem configured_cache_respects_capacity:
  assumes "0 < cacheBytes" and "useProvided \<longrightarrow> o_cache options = None"
    and "cache_run (newConfiguredCache cacheBytes options e useProvided) c"
  shows "((o_useShards options \<longrightarrow> uint (normalizedShardCount (o_shards options)) \<le> cacheBytes) \<longrightarrow> cache_used c \<le> cacheBytes)
    \<and> (\<forall>k v x. Cache_look c k = Some (v, x) \<longrightarrow> item_cost k v \<le> budget cacheBytes options)"
proof -
  let ?n = "if o_useShards options then unat (normalizedShardCount (o_shards options)) else 1"
  have prov: "o_cache options = None" if useProvided using that assms(2) by blast
  have new: "Cache_ok (newConfiguredCache cacheBytes options e useProvided)"
    using newConfiguredCache_ok(1) [of cacheBytes useProvided options e] assms(1) prov by simp
  have ok: "Cache_ok c" and lim: "cache_limits c = replicate ?n (budget cacheBytes options)"
    using cache_run_keeps [OF assms(3) new] new_limits [OF assms(1) prov] by auto
  have pos: "0 < budget cacheBytes options" using assms(1) by (auto simp: budget_def max_def)
  have le: "cache_used c \<le> int ?n * budget cacheBytes options"
    using used_le_limits [OF ok] lim pos by (auto simp: sum_list_replicate)
  have "(o_useShards options \<longrightarrow> uint (normalizedShardCount (o_shards options)) \<le> cacheBytes) \<longrightarrow> cache_used c \<le> cacheBytes"
  proof
    let ?m = "uint (normalizedShardCount (o_shards options))"
    assume h: "o_useShards options \<longrightarrow> ?m \<le> cacheBytes"
    have m: "0 < ?m" by (auto simp: normalizedShardCount_def less_le uint_0_iff)
    have "?m * (cacheBytes div ?m) \<le> cacheBytes" using m mult_div_mod_eq [of ?m cacheBytes] pos_mod_sign [of ?m cacheBytes] by linarith
    moreover have "1 \<le> cacheBytes div ?m" if "?m \<le> cacheBytes" using m that by (simp add: pos_imp_zdiv_pos_iff int_one_le_iff_zero_less)
    ultimately have "int ?n * budget cacheBytes options \<le> cacheBytes" using h by (auto simp: budget_def max_def)
    then show "cache_used c \<le> cacheBytes" using le by simp
  qed
  moreover have "item_cost k v \<le> budget cacheBytes options" if look: "Cache_look c k = Some (v, x)" for k v x
  proof -
    obtain s where s: "s \<in> set (Cache_stores c)" "Cache_look c k = store_look s k" using Cache_look_store [OF ok] by blast
    have "store_limit s \<in> set (cache_limits c)" using s(1) by (simp add: cache_limits_def)
    then have "store_limit s = budget cacheBytes options" using lim by (auto split: if_splits)
    moreover have "item_cost k v \<le> store_used s" using store_look_cost [OF Cache_stores_ok [OF ok s(1)]] s(2) look by metis
    ultimately show ?thesis using store.used_bound [OF Cache_stores_ok [OF ok s(1)]] pos by simp
  qed
  ultimately show ?thesis by blast
qed

text \<open>With the server's default settings, 2 KiB over 256 shards, a pair of nine bytes is not cached.\<close>

definition sharded_options :: "(BloomFilter, unit) Options" where
  "sharded_options = apply_options [Some (WithShardedCache 256)]"

theorem configured_cache_respects_capacity_witness:
  "\<exists>c. Cache_addWithTTL 0 ''key100'' (bytes_view ''100'') 0
      (newConfiguredCache 2048 sharded_options True True) = Some c \<and> Cache_look c ''key100'' = None"
proof -
  let ?o = sharded_options and ?v = "bytes_view ''100''"
  let ?c = "newConfiguredCache 2048 ?o True True"
  have o: "o_useShards ?o" "o_shards ?o = 256" "o_cache ?o = None"
    by (simp_all add: sharded_options_def apply_options_def WithShardedCache_def zero_Options_def)
  have ok: "Cache_ok ?c" using newConfiguredCache_ok(1) [of 2048 True ?o True] o(3) by simp
  have "cache_limits ?c = replicate 256 8"
    using new_limits [of 2048 True ?o True] o by (simp add: budget_def normalizedShardCount_def)
  then have used: "store_used s \<le> 8" if "s \<in> set (Cache_stores ?c)" for s
    using store.used_bound [OF Cache_stores_ok [OF ok that]] that
    by (metis (no_types, lifting) cache_limits_def image_eqI in_set_replicate list.set_map zero_neq_numeral)
  have room: "Cache_room ?c ''key100'' ?v"
  proof -
    obtain sc where sc: "?c = ShardCache sc" using o by (auto simp: newConfiguredCache_def Let_def)
    then have "ensureStore (sh_cs sc ! shard ''key100'' sc) \<in> set (Cache_stores ?c)"
      using ok shard_less [of sc "''key100''"] by simp
    then show ?thesis using used sc by (fastforce simp: on_shard_def cache_room_def item_cost_def ByteView_Len_def)
  qed
  obtain c where c: "Cache_addWithTTL 0 ''key100'' ?v 0 ?c = Some c" using caches.add_returns [OF ok room] by blast
  have run: "cache_run ?c c" by (rule run_add [OF run_new room c])
  have "Cache_look c ''key100'' = None"
  proof (rule ccontr)
    assume "Cache_look c ''key100'' \<noteq> None"
    then obtain v x where v: "Cache_look c ''key100'' = Some (v, x)" by auto
    moreover have "Cache_look c \<subseteq>\<^sub>m (Cache_look ?c)(''key100'' \<mapsto> (?v, expiry_of 0 0))" by (rule caches.add_look [OF ok room c])
    ultimately have "v = ?v" using map_le_cases [of "Cache_look c" _ "''key100''"] by fastforce
    moreover have "item_cost ''key100'' v \<le> budget 2048 ?o"
      using configured_cache_respects_capacity [OF _ _ run] v o(3) by auto
    ultimately show False using o by (simp add: budget_def normalizedShardCount_def item_cost_def ByteView_Len_def)
  qed
  then show ?thesis using c by blast
qed

end
