(* ===== verification/Group_Reads.thy ===== *)
theory Group_Reads
  imports Group_Laws
begin

text \<open>
  Theorems about \<open>Get\<close>: hits, read-through, negative caching, the filter, stale values after a
  timeout, peers, and the counters.
\<close>

section \<open>The lookup\<close>

lemma group_Get_hit:
  assumes "caches_ok g" and "key \<noteq> []" and "live (w_clock w (w_ticks w + 2)) (active_view g key) = Some v"
  shows "\<exists>g' w'. group_Get t e s key g w = Some (if isNotFound v then Inl ErrNotFound else Inr v, g', w')
    \<and> active_view g' = active_view g \<and> stale_view g' = stale_view g \<and> config g' = config g
    \<and> caches_ok g' \<and> w_ext w' = w_ext w \<and> loads (w_stats w') = loads (w_stats w)
    \<and> lookups (w_stats w') = (GroupGets (w_stats w) + 1, CacheHits (w_stats w) + 1, CacheMisses (w_stats w))"
proof -
  obtain c where c: "gr_mainCache g = Some c" using assms(3) by (auto simp: active_view_def split: option.splits)
  have ok: "Cache_ok c" using assms(1) c by (simp add: caches_ok_def group_caches_def)
  let ?w = "w_count IncGroupGets (w\<lparr>w_ticks := Suc (w_ticks w)\<rparr>)"
  have hit: "live (get_time ?w) (Cache_look c key) = Some v"
    using assms(3) c by (simp add: get_time_def active_view_def)
  obtain c' d where c': "use_get key c ?w = Some (Some v, c',
      ?w\<lparr>w_ticks := w_ticks ?w + 3, w_stats := RecordCacheGetLatency d (w_stats ?w)\<rparr>)" "Cache_ok c'"
    "Cache_look c' = Cache_look c"
    using use_get_hit [OF ok hit] by blast
  let ?w3 = "w_count IncCacheHits (?w\<lparr>w_ticks := w_ticks ?w + 3, w_stats := RecordCacheGetLatency d (w_stats ?w)\<rparr>)"
  have run: "group_lookup t e s key g (w\<lparr>w_ticks := Suc (w_ticks w)\<rparr>) =
      Some (if isNotFound v then Inl ErrNotFound else Inr v, g\<lparr>gr_mainCache := Some c'\<rparr>, ?w3)"
    using c c'(1) assms(2) by (simp add: group_lookup_def)
  let ?w' = "w_count (RecordGroupGetLatency (w_clock w (w_ticks ?w3) - w_clock w (w_ticks w))) (?w3\<lparr>w_ticks := Suc (w_ticks ?w3)\<rparr>)"
  have "group_Get t e s key g w = Some (if isNotFound v then Inl ErrNotFound else Inr v, g\<lparr>gr_mainCache := Some c'\<rparr>, ?w')"
    by (simp add: group_Get_def w_now_eq run)
  moreover have "lookups (w_stats ?w') = (GroupGets (w_stats w) + 1, CacheHits (w_stats w) + 1, CacheMisses (w_stats w))"
    by (simp, simp add: lookups_def)
  moreover have "caches_ok (g\<lparr>gr_mainCache := Some c'\<rparr>)" using c'(2) assms(1) by (auto simp: caches_ok_def group_caches_def)
  moreover have "active_view (g\<lparr>gr_mainCache := Some c'\<rparr>) = active_view g" using c c'(3) by (simp add: active_view_def fun_eq_iff)
  ultimately show ?thesis by (intro exI [of _ "g\<lparr>gr_mainCache := Some c'\<rparr>"] exI [of _ ?w']) simp
qed

text \<open>The latency record of \<open>Get\<close>, for a call that started in world \<open>w\<close>.\<close>

definition timed ::
  "'x world \<Rightarrow> (ByteView result \<times> ('f, 'x) Group \<times> 'x world) option \<Rightarrow> (ByteView result \<times> ('f, 'x) Group \<times> 'x world) option" where
  "timed w res = map_option (\<lambda>(r, g, w'). (r, g,
     w_count (RecordGroupGetLatency (w_clock w' (w_ticks w') - w_clock w (w_ticks w))) (w'\<lparr>w_ticks := Suc (w_ticks w')\<rparr>))) res"

lemma timed_Some:
  assumes "res = Some (r, g, w')"
  shows "\<exists>w''. timed w res = Some (r, g, w'') \<and> w_ext w'' = w_ext w' \<and> w_clock w'' = w_clock w'
    \<and> lookups (w_stats w'') = lookups (w_stats w') \<and> loads (w_stats w'') = loads (w_stats w')"
  using assms by (simp add: timed_def)

text \<open>The state in which the load of a \<open>Get\<close> starts.\<close>

definition missed :: "string \<Rightarrow> ('f, 'x) Group \<Rightarrow> 'x world \<Rightarrow> ('f, 'x) Group \<Rightarrow> 'x world \<Rightarrow> bool" where
  "missed key g w g1 w1 \<longleftrightarrow> caches_ok g1 \<and> group_fits g1 = group_fits g \<and> config g1 = config g
     \<and> gr_filter g1 = gr_filter g \<and> (gr_mainCache g1 = None \<longleftrightarrow> gr_mainCache g = None) \<and> gr_staleCache g1 = gr_staleCache g
     \<and> active_view g1 = (active_view g)(key := None) \<and> w_ext w1 = w_ext w \<and> w_clock w1 = w_clock w
     \<and> w_ticks w1 = w_ticks w + (if gr_mainCache g = None then 1 else 4) \<and> loads (w_stats w1) = loads (w_stats w)
     \<and> lookups (w_stats w1) = (GroupGets (w_stats w) + 1, CacheHits (w_stats w), CacheMisses (w_stats w) + 1)"

lemma group_Get_miss:
  assumes "caches_ok g" and "key \<noteq> []" and "live (w_clock w (w_ticks w + 2)) (active_view g key) = None"
  shows "\<exists>g1 w1. group_Get t e s key g w = timed w (group_load t e s key g1 w1) \<and> missed key g w g1 w1"
proof -
  let ?w = "w_count IncGroupGets (w\<lparr>w_ticks := Suc (w_ticks w)\<rparr>)"
  have bind: "Option.bind r (\<lambda>(r, g, w'). case w_now w' of (fin, w') \<Rightarrow>
      Some (r, g, w_count (RecordGroupGetLatency (fin - w_clock w (w_ticks w))) w')) = timed w r"
    for r :: "(ByteView result \<times> ('a, 'b) Group \<times> 'b world) option"
    by (cases r) (auto simp: timed_def w_now_eq)
  show ?thesis
  proof (cases "gr_mainCache g")
    case None
    let ?w1 = "w_count IncCacheMisses ?w"
    have "lookups (w_stats ?w1) = (GroupGets (w_stats w) + 1, CacheHits (w_stats w), CacheMisses (w_stats w) + 1)"
      by (simp, simp add: lookups_def)
    then have "missed key g w g ?w1" using assms None by (simp add: missed_def active_view_def fun_eq_iff)
    moreover have "group_Get t e s key g w = timed w (group_load t e s key g ?w1)"
      using assms None by (simp add: group_Get_def group_lookup_def w_now_eq [of w] bind)
    ultimately show ?thesis by blast
  next
    case (Some c)
    have ok: "Cache_ok c" using assms(1) Some by (simp add: caches_ok_def group_caches_def)
    have "live (get_time ?w) (Cache_look c key) = None"
      using assms(3) Some by (simp add: get_time_def active_view_def)
    then obtain c' d where c': "use_get key c ?w = Some (None, c',
        ?w\<lparr>w_ticks := w_ticks ?w + 3, w_stats := RecordCacheGetLatency d (w_stats ?w)\<rparr>)" "Cache_ok c'"
      "Cache_fits c' = Cache_fits c" "Cache_look c' = (Cache_look c)(key := None)"
      using use_get_miss [OF ok] by blast
    let ?w1 = "w_count IncCacheMisses (?w\<lparr>w_ticks := w_ticks ?w + 3, w_stats := RecordCacheGetLatency d (w_stats ?w)\<rparr>)"
    let ?g1 = "g\<lparr>gr_mainCache := Some c'\<rparr>"
    have "lookups (w_stats ?w1) = (GroupGets (w_stats w) + 1, CacheHits (w_stats w), CacheMisses (w_stats w) + 1)"
      by (simp, simp add: lookups_def)
    moreover have "group_fits ?g1 = group_fits g" using Some c'(3) by (auto simp: group_fits_def group_caches_def fun_eq_iff)
    moreover have "caches_ok ?g1" using assms(1) c'(2) by (auto simp: caches_ok_def group_caches_def)
    moreover have "active_view ?g1 = (active_view g)(key := None)" using Some c'(4) by (simp add: active_view_def fun_eq_iff)
    ultimately have "missed key g w ?g1 ?w1" using Some by (simp add: missed_def)
    moreover have "group_Get t e s key g w = timed w (group_load t e s key ?g1 ?w1)"
      using Some c'(1) assms(2) by (simp add: group_Get_def group_lookup_def w_now_eq [of w] bind)
    ultimately show ?thesis by blast
  qed
qed

section \<open>Times to live\<close>

text \<open>The settings for which the arithmetic of \<open>nextTTL\<close> neither wraps around nor panics.\<close>

definition ttl_config :: "('f, 'x) Group \<Rightarrow> bool" where
  "ttl_config g \<longleftrightarrow> gr_cacheTTLJitter g < 2 ^ 62 \<and> gr_cacheTTL g + max 0 (gr_cacheTTLJitter g) < 2 ^ 63"

definition ttl_allowed :: "('f, 'x) Group \<Rightarrow> duration \<Rightarrow> bool" where
  "ttl_allowed g ttl \<longleftrightarrow> (if gr_cacheTTL g \<le> 0 then ttl = 0
     else 0 < ttl \<and> gr_cacheTTL g - max 0 (gr_cacheTTLJitter g) \<le> ttl \<and> ttl \<le> gr_cacheTTL g + max 0 (gr_cacheTTLJitter g))"

lemma nextTTL_run:
  assumes "ttl_config g"
  obtains ttl n where "nextTTL g w = Some (ttl, w\<lparr>w_draws := n\<rparr>)" and "ttl_allowed g ttl"
proof (cases "gr_cacheTTL g \<le> 0 \<or> gr_cacheTTLJitter g \<le> 0")
  case True
  then show ?thesis by (intro that [of "max 0 (gr_cacheTTL g)" "w_draws w"]) (auto simp: nextTTL_def ttl_allowed_def)
next
  case False
  let ?j = "gr_cacheTTLJitter g" and ?b = "gr_cacheTTL g"
  define r where "r = w_rand w (w_draws w) mod (?j * 2 + 1)"
  have j: "0 < ?j" "?j < 2 ^ 62" "?b + ?j < 2 ^ 63" "0 < ?b" using assms False by (auto simp: ttl_config_def)
  have r: "0 \<le> r" "r \<le> ?j * 2" using j(1) pos_mod_bound [of "?j * 2 + 1" "w_rand w (w_draws w)"] by (simp_all add: r_def)
  have N: "i64 (?j * 2 + 1) = ?j * 2 + 1" by (rule i64_id) (use j in \<open>simp add: in_i64_def\<close>)
  have D: "i64 (?b + (r - ?j)) = ?b + (r - ?j)" by (rule i64_id) (use j r in \<open>simp add: in_i64_def\<close>)
  show ?thesis
  proof (rule that)
    show "nextTTL g w = Some (if ?b + (r - ?j) \<le> 0 then 1 else ?b + (r - ?j), w\<lparr>w_draws := Suc (w_draws w)\<rparr>)"
      using False j N D by (simp add: nextTTL_def rand_Int63n_def Let_def r_def)
    show "ttl_allowed g (if ?b + (r - ?j) \<le> 0 then 1 else ?b + (r - ?j))"
      using False j r by (auto simp: ttl_allowed_def)
  qed
qed

section \<open>Loads\<close>

text \<open>No other node is asked for the key.\<close>

definition serves_locally :: "('f, 'x) Group \<Rightarrow> string \<Rightarrow> bool" where
  "serves_locally g key \<longleftrightarrow> (case gr_peers g of None \<Rightarrow> True | Some p \<Rightarrow> pickPeer key p = None)"

lemma load_fn_local: "serves_locally g key \<Longrightarrow> load_fn t key g w = getLocally key g w"
  by (simp add: load_fn_def loadFromPeer_def serves_locally_def split: option.splits)

lemma group_load_Lead [simp]: "group_load t None Lead key g w = load_fn t key g w"
  by (simp add: group_load_def loader_Do_def waitForLoad_def)

lemma missed_keeps:
  assumes "missed key g w g1 w1"
  shows "group_ok I g \<Longrightarrow> group_ok I g1" "serves_locally g1 k = serves_locally g k" "ttl_config g1 = ttl_config g"
    "ttl_allowed g1 = ttl_allowed g" "filterRejects k g1 = filterRejects k g" "group_fits g1 = group_fits g"
    "gr_getter g1 = gr_getter g" "gr_mainCache g1 = None \<longleftrightarrow> gr_mainCache g = None" "w_ext w1 = w_ext w"
    "keeps_stale g1 = keeps_stale g" "gr_peers g1 = gr_peers g" "gr_name g1 = gr_name g"
    "gr_negativeCacheEnabled g1 = gr_negativeCacheEnabled g" "gr_negativeTTL g1 = gr_negativeTTL g" "gr_staleTTL g1 = gr_staleTTL g"
proof -
  have "config g1 = config g" using assms by (simp add: missed_def)
  note f = config_fields [OF this]
  show "group_ok I g \<Longrightarrow> group_ok I g1" "serves_locally g1 k = serves_locally g k" "ttl_config g1 = ttl_config g"
    "ttl_allowed g1 = ttl_allowed g" "filterRejects k g1 = filterRejects k g" "group_fits g1 = group_fits g"
    "gr_getter g1 = gr_getter g" "gr_mainCache g1 = None \<longleftrightarrow> gr_mainCache g = None" "w_ext w1 = w_ext w"
    "keeps_stale g1 = keeps_stale g" "gr_peers g1 = gr_peers g" "gr_name g1 = gr_name g"
    "gr_negativeCacheEnabled g1 = gr_negativeCacheEnabled g" "gr_negativeTTL g1 = gr_negativeTTL g" "gr_staleTTL g1 = gr_staleTTL g"
    using assms f by (auto simp: missed_def group_ok_def filter_ok_def serves_locally_def ttl_config_def ttl_allowed_def
        filterRejects_def keeps_stale_def fun_eq_iff)
qed

text \<open>The value is in the caches of \<open>g'\<close>, kept from time \<open>now\<close>, and its stale copy from \<open>now'\<close>.\<close>

definition kept ::
  "('f \<Rightarrow> bool) \<Rightarrow> ('f, 'x) Group \<Rightarrow> string \<Rightarrow> ByteView \<Rightarrow> duration \<Rightarrow> time \<Rightarrow> time \<Rightarrow> ('f, 'x) Group \<Rightarrow> bool" where
  "kept I g key v ttl now now' g' \<longleftrightarrow> group_ok I g' \<and> config g' = config g \<and> group_fits g' = group_fits g
     \<and> active_view g' key = Some (v, expiry_of now ttl) \<and> filterRejects key g' = Some False
     \<and> (keeps_stale g ttl \<longrightarrow> stale_view g' key = Some (v, expiry_of now' (i64 (ttl + gr_staleTTL g))))"

lemma remember_kept:
  assumes "gr_mainCache g \<noteq> None" and "group_ok I g" and "group_fits g key v" and "\<not> isNotFound v"
  shows "\<exists>g' n. remember key v ttl g w = Some (g', w\<lparr>w_ticks := w_ticks w + n\<rparr>) \<and> kept I g key v ttl (add_time w) (get_time w) g'"
  by (rule remember_run [OF assms, of ttl w]) (auto simp: kept_def get_time_def)

lemma getLocally_found:
  assumes "group_ok I g" and "gr_mainCache g \<noteq> None" and "filterRejects key g = Some False"
    and "gr_getter g key (w_ext w) = (Inr b, x)" and "ttl_config g" and "group_fits g key (bytes_view b)"
  shows "\<exists>g' w' ttl. getLocally key g w = Some (Inr (bytes_view b), g', w') \<and> ttl_allowed g ttl
    \<and> kept I g key (bytes_view b) ttl (add_time w) (get_time w) g' \<and> w_ext w' = x
    \<and> lookups (w_stats w') = lookups (w_stats w) \<and> loads (w_stats w') = loads (IncLocalLoads (w_stats w))"
proof -
  let ?w = "w_count IncLocalLoads (w\<lparr>w_ext := x\<rparr>)"
  obtain ttl n where ttl: "nextTTL g ?w = Some (ttl, ?w\<lparr>w_draws := n\<rparr>)" "ttl_allowed g ttl"
    by (rule nextTTL_run [OF assms(5)])
  obtain g' m where g': "remember key (bytes_view b) ttl g (?w\<lparr>w_draws := n\<rparr>) =
      Some (g', ?w\<lparr>w_draws := n\<rparr>\<lparr>w_ticks := w_ticks (?w\<lparr>w_draws := n\<rparr>) + m\<rparr>)"
    "kept I g key (bytes_view b) ttl (add_time (?w\<lparr>w_draws := n\<rparr>)) (get_time (?w\<lparr>w_draws := n\<rparr>)) g'"
    using remember_kept [OF assms(2,1,6)] by fastforce
  have "getLocally key g w = Some (Inr (bytes_view b), g', ?w\<lparr>w_draws := n\<rparr>\<lparr>w_ticks := w_ticks (?w\<lparr>w_draws := n\<rparr>) + m\<rparr>)"
    using assms(2-4) ttl(1) g'(1) by (auto simp add: getLocally_def call_getter_def stampActiveValue_def)
  then show ?thesis using g'(2) ttl(2) by (auto simp: add_time_def get_time_def)
qed

text \<open>A not-found result is kept like any other value, with its own TTL.\<close>

abbreviation negative_view :: ByteView where
  "negative_view \<equiv> withNotFound (bytes_view [])"

lemma cacheNegative_store:
  "gr_negativeCacheEnabled g \<Longrightarrow> 0 < gr_negativeTTL g \<Longrightarrow>
   cacheNegative key g w = store_active key negative_view (gr_negativeTTL g) g w"
  by (simp add: cacheNegative_def store_active_def stampActiveValue_def cong: option.case_cong)

lemma getLocally_not_found:
  assumes "caches_ok g" and "gr_mainCache g \<noteq> None" and "filterRejects key g = Some False"
    and "gr_getter g key (w_ext w) = (Inl err, x)" and "errors_Is err ErrNotFound"
    and "gr_negativeCacheEnabled g" and "0 < gr_negativeTTL g" and "group_fits g key negative_view"
  shows "\<exists>g' w'. getLocally key g w = Some (Inl err, g', w') \<and> caches_ok g' \<and> w_ext w' = x
    \<and> active_view g' key = Some (negative_view, expiry_of (add_time w) (gr_negativeTTL g))
    \<and> lookups (w_stats w') = lookups (w_stats w) \<and> loads (w_stats w') = loads (w_stats w)"
proof -
  obtain c where c: "gr_mainCache g = Some c" using assms(2) by blast
  let ?w = "w\<lparr>w_ext := x\<rparr>"
  obtain g' where g': "store_active key negative_view (gr_negativeTTL g) g ?w = Some (g', ?w\<lparr>w_ticks := Suc (w_ticks ?w)\<rparr>)"
    "caches_ok g'" "active_view g' key = Some (negative_view, expiry_of (add_time ?w) (gr_negativeTTL g))"
    by (rule store_active_run [OF c assms(1,8), of "gr_negativeTTL g" ?w]) blast
  have "getLocally key g w = Some (Inl err, g', ?w\<lparr>w_ticks := Suc (w_ticks ?w)\<rparr>)"
    using assms(3-7) g'(1) by (simp add: getLocally_def call_getter_def cacheNegative_store)
  then show ?thesis using g' by (simp add: add_time_def)
qed

section \<open>Giving up on a load\<close>

text \<open>When \<open>degradeFromCaches\<close> compares the stale copy with the clock.\<close>

definition stale_time :: "('f, 'x) Group \<Rightarrow> 'x world \<Rightarrow> time" where
  "stale_time g w = w_clock w (w_ticks w + (if gr_mainCache g = None then 1 else 4))"

definition fallback :: "string \<Rightarrow> ('f, 'x) Group \<Rightarrow> 'x world \<Rightarrow> ByteView option" where
  "fallback key g w = (case live (get_time w) (active_view g key) of
     Some v \<Rightarrow> Some v
   | None \<Rightarrow> if 0 < gr_staleTTL g then live (stale_time g w) (stale_view g key) else None)"

text \<open>The lookup in the active cache that \<open>degradeFromCaches\<close> starts with.\<close>

lemma active_probe:
  assumes "caches_ok g"
  shows "\<exists>g' w'. (case gr_mainCache g of
      None \<Rightarrow> Some (None, g, w)
    | Some active \<Rightarrow> do { (r, active, w) \<leftarrow> use_get key active w; Some (r, g\<lparr>gr_mainCache := Some active\<rparr>, w) }) =
      Some (live (get_time w) (active_view g key), g', w')
    \<and> caches_ok g' \<and> gr_staleCache g' = gr_staleCache g \<and> gr_staleTTL g' = gr_staleTTL g \<and> get_time w' = stale_time g w
    \<and> w_ext w' = w_ext w \<and> lookups (w_stats w') = lookups (w_stats w)"
proof (cases "gr_mainCache g")
  case None
  then show ?thesis using assms by (simp add: active_view_def stale_time_def get_time_def)
next
  case (Some c)
  then have "Cache_ok c" using assms by (simp add: caches_ok_def group_caches_def)
  then obtain c' d where "use_get key c w = Some (live (get_time w) (Cache_look c key), c',
      w\<lparr>w_ticks := w_ticks w + 3, w_stats := RecordCacheGetLatency d (w_stats w)\<rparr>)" "Cache_ok c'"
    by (rule use_get_run [of c key w]) blast
  then show ?thesis using Some assms
    by (simp add: active_view_def stale_time_def get_time_def caches_ok_def group_caches_def add.commute)
qed

lemma getStale_run:
  assumes "caches_ok g"
  shows "\<exists>g' w'. getStale key g w =
      Some (if 0 < gr_staleTTL g then live (get_time w) (stale_view g key) else None, g', w') \<and> w_ext w' = w_ext w
    \<and> lookups (w_stats w') = (if 0 < gr_staleTTL g \<and> live (get_time w) (stale_view g key) \<noteq> None
        then lookups (IncCacheHits (w_stats w)) else lookups (w_stats w))"
proof (cases "gr_staleCache g = None \<or> gr_staleTTL g \<le> 0")
  case True
  then show ?thesis by (auto simp: getStale_def stale_view_def split: option.splits)
next
  case False
  then obtain c where c: "gr_staleCache g = Some c" "0 < gr_staleTTL g" by auto
  then have "Cache_ok c" using assms by (simp add: caches_ok_def group_caches_def)
  then obtain c' d where "use_get key c w = Some (live (get_time w) (Cache_look c key), c',
      w\<lparr>w_ticks := w_ticks w + 3, w_stats := RecordCacheGetLatency d (w_stats w)\<rparr>)"
    by (rule use_get_run [of c key w]) blast
  then show ?thesis using c by (cases "live (get_time w) (Cache_look c key)") (simp_all add: getStale_def stale_view_def)
qed

lemma degradeAfterWaitTimeout_run:
  assumes "caches_ok g"
  shows "\<exists>g' w'. degradeAfterWaitTimeout key g w = Some (case fallback key g w of
        None \<Rightarrow> Inl ErrSingleflightWaitTimeout
      | Some v \<Rightarrow> if isNotFound v then Inl ErrNotFound else Inr v, g', w') \<and> w_ext w' = w_ext w
    \<and> lookups (w_stats w') = (if fallback key g w = None then lookups (w_stats w) else lookups (IncCacheHits (w_stats w)))"
proof -
  obtain g1 w1 where g1: "(case gr_mainCache g of
      None \<Rightarrow> Some (None, g, w)
    | Some active \<Rightarrow> do { (r, active, w) \<leftarrow> use_get key active w; Some (r, g\<lparr>gr_mainCache := Some active\<rparr>, w) }) =
      Some (live (get_time w) (active_view g key), g1, w1)" "caches_ok g1" "gr_staleCache g1 = gr_staleCache g"
    "gr_staleTTL g1 = gr_staleTTL g" "get_time w1 = stale_time g w" "w_ext w1 = w_ext w" "lookups (w_stats w1) = lookups (w_stats w)"
    using active_probe [OF assms] by metis
  have sv: "stale_view g1 = stale_view g" using g1(3) by (simp add: stale_view_def fun_eq_iff)
  show ?thesis
  proof (cases "live (get_time w) (active_view g key)")
    case (Some v)
    then show ?thesis using g1 by (simp add: degradeAfterWaitTimeout_def degradeFromCaches_def fallback_def)
  next
    case None
    have fb: "fallback key g w = (if 0 < gr_staleTTL g1 then live (get_time w1) (stale_view g1 key) else None)"
      using None g1 sv by (simp add: fallback_def)
    obtain g2 w2 where g2: "getStale key g1 w1 = Some (fallback key g w, g2, w2)" "w_ext w2 = w_ext w1"
      "lookups (w_stats w2) = (if fallback key g w = None then lookups (w_stats w1) else lookups (IncCacheHits (w_stats w1)))"
      using getStale_run [OF g1(2), of key w1] unfolding fb by (auto split: if_splits)
    show ?thesis
      using None g1 g2 by (cases "fallback key g w") (simp_all add: degradeAfterWaitTimeout_def degradeFromCaches_def)
  qed
qed

lemma group_Get_timeout:
  assumes "caches_ok g" and "key \<noteq> []" and "live (w_clock w (w_ticks w + 2)) (active_view g key) = None"
    and "0 < gr_singleflightWaitTTL g" and "caches_ok g2"
  shows "\<exists>g' w'. group_Get t None (Wait TimedOut g2 w2) key g w = Some (case fallback key g2 w2 of
        None \<Rightarrow> Inl ErrSingleflightWaitTimeout
      | Some v \<Rightarrow> if isNotFound v then Inl ErrNotFound else Inr v, g', w') \<and> w_ext w' = w_ext w2
    \<and> lookups (w_stats w') = (if fallback key g2 w2 = None then lookups (w_stats w2) else lookups (IncCacheHits (w_stats w2)))"
proof -
  obtain g1 w1 where g1: "group_Get t None (Wait TimedOut g2 w2) key g w = timed w (group_load t None (Wait TimedOut g2 w2) key g1 w1)"
    and m: "missed key g w g1 w1" using group_Get_miss [OF assms(1-3)] by blast
  have "config g1 = config g" using m by (simp add: missed_def)
  then have "gr_singleflightWaitTTL g1 = gr_singleflightWaitTTL g" by (rule config_fields)
  then have "group_load t None (Wait TimedOut g2 w2) key g1 w1 = degradeAfterWaitTimeout key g2 w2"
    using assms(4) by (simp add: group_load_def waitForLoad_def)
  then obtain r g' w' where r: "group_load t None (Wait TimedOut g2 w2) key g1 w1 = Some (r, g', w')"
    "r = (case fallback key g2 w2 of None \<Rightarrow> Inl ErrSingleflightWaitTimeout
      | Some v \<Rightarrow> if isNotFound v then Inl ErrNotFound else Inr v)" "w_ext w' = w_ext w2"
    "lookups (w_stats w') = (if fallback key g2 w2 = None then lookups (w_stats w2) else lookups (IncCacheHits (w_stats w2)))"
    using degradeAfterWaitTimeout_run [OF assms(5), of key w2] by auto
  show ?thesis using g1 timed_Some [OF r(1), of w] r(2-4) by auto
qed

section \<open>A whole read-through\<close>

lemma kept_missed: "missed key g w g1 w1 \<Longrightarrow> kept I g1 k v ttl now now' g' \<Longrightarrow> kept I g k v ttl now now' g'"
  using missed_keeps(10,15) [of key g w g1 w1] by (simp add: kept_def missed_def)

lemma read_through_run:
  assumes "group_ok I g" and "key \<noteq> []" and "gr_mainCache g \<noteq> None"
    and "live (w_clock w (w_ticks w + 2)) (active_view g key) = None" and "serves_locally g key"
    and "filterRejects key g = Some False" and "gr_getter g key (w_ext w) = (Inr b, x)"
    and "ttl_config g" and "group_fits g key (bytes_view b)"
  shows "\<exists>g' w' ttl. group_Get t None Lead key g w = Some (Inr (bytes_view b), g', w') \<and> w_ext w' = x \<and> ttl_allowed g ttl
    \<and> kept I g key (bytes_view b) ttl (w_clock w (w_ticks w + 4)) (w_clock w (w_ticks w + 5)) g'
    \<and> lookups (w_stats w') = (GroupGets (w_stats w) + 1, CacheHits (w_stats w), CacheMisses (w_stats w) + 1)
    \<and> loads (w_stats w') = (PeerLoads (w_stats w), LocalLoads (w_stats w) + 1, FilterMisses (w_stats w))"
proof -
  have "caches_ok g" using assms(1) by (simp add: group_ok_def)
  then obtain g1 w1 where g1: "group_Get t None Lead key g w = timed w (group_load t None Lead key g1 w1)"
    and m: "missed key g w g1 w1" using group_Get_miss [OF _ assms(2,4)] by blast
  note k = missed_keeps [OF m]
  obtain g' w' ttl where g': "getLocally key g1 w1 = Some (Inr (bytes_view b), g', w')" "ttl_allowed g ttl"
    "kept I g1 key (bytes_view b) ttl (add_time w1) (get_time w1) g'" "w_ext w' = x"
    "lookups (w_stats w') = lookups (w_stats w1)" "loads (w_stats w') = loads (IncLocalLoads (w_stats w1))"
    using getLocally_found [of I g1 key w1 b x] k assms by auto
  have run: "group_load t None Lead key g1 w1 = Some (Inr (bytes_view b), g', w')"
    using load_fn_local [of g1 key t w1] k(2) assms(5) g'(1) by simp
  obtain w'' where w'': "timed w (group_load t None Lead key g1 w1) = Some (Inr (bytes_view b), g', w'')" "w_ext w'' = x"
    "lookups (w_stats w'') = lookups (w_stats w1)" "loads (w_stats w'') = loads (IncLocalLoads (w_stats w1))"
    using timed_Some [OF run, of w] g'(4-6) by auto
  have "lookups (w_stats w'') = (GroupGets (w_stats w) + 1, CacheHits (w_stats w), CacheMisses (w_stats w) + 1)"
    "loads (w_stats w'') = (PeerLoads (w_stats w), LocalLoads (w_stats w) + 1, FilterMisses (w_stats w))"
    using m w''(3,4) by (simp_all add: missed_def) (simp add: loads_def)
  moreover have "add_time w1 = w_clock w (w_ticks w + 4)" "get_time w1 = w_clock w (w_ticks w + 5)"
    using m assms(3) by (simp_all add: missed_def add_time_def get_time_def add.commute)
  ultimately show ?thesis using g1 w''(1,2) g'(2) kept_missed [OF m g'(3)] by auto
qed

section \<open>A small group\<close>

text \<open>The backing store of the examples counts its requests.\<close>

definition demo_getter :: "string \<Rightarrow> nat \<Rightarrow> bytes result \<times> nat" where
  "demo_getter key n = (if key = ''Tom'' then Inr ''630'' else Inl ErrNotFound, Suc n)"

definition demo_group :: "(BloomFilter, nat) Group" where
  "demo_group = \<lparr>gr_name = ''scores'', gr_getter = demo_getter, gr_incrementer = None, gr_incrementLocks = Some 256,
     gr_mainCache = Some example_cache, gr_peers = None, gr_singleflightWaitTTL = 30, gr_filter = None,
     gr_filterRefresh = 0, gr_janitor = None, gr_cacheTTL = 100, gr_cacheTTLJitter = 10,
     gr_staleCache = Some example_cache, gr_staleTTL = 1000, gr_negativeCacheEnabled = True, gr_negativeTTL = 20\<rparr>"

definition demo_world :: "nat world" where
  "demo_world = \<lparr>w_clock = int, w_ticks = 0, w_rand = (\<lambda>_. 7), w_draws = 0, w_stats = newMetrics, w_ext = 0\<rparr>"

definition no_transport :: "'x Transport" where
  "no_transport = \<lparr>t_marshal_request = (\<lambda>_. Inl ''no codec''), t_unmarshal_response = (\<lambda>_. Inl ''no codec''),
     t_new_request = (\<lambda>_. Some ''no network''), t_do = (\<lambda>_ _ x. (DoError ''no network'', x))\<rparr>"

lemma demo_ok:
  "group_ok I demo_group" "active_view demo_group k = None" "stale_view demo_group k = None"
  "item_cost k v \<le> 100 \<Longrightarrow> group_fits demo_group k v" "serves_locally demo_group k" "ttl_config demo_group"
  "filterRejects k demo_group = Some False"
  by (auto simp: demo_group_def group_ok_def caches_ok_def group_caches_def filter_ok_def active_view_def stale_view_def
      example_cache_props group_fits_def serves_locally_def ttl_config_def filterRejects_def gate_rejects_def)

section \<open>Properties\<close>

text \<open>
  C1. Read-through: a \<open>Get\<close> that misses on the node that serves the key returns what the getter
  returns, asking it once, counts one miss and one local load, and keeps the value with an allowed
  TTL; until that has passed, every later \<open>Get\<close> of the key returns the value without touching the
  backing store, whatever its context and the loader do.
\<close>

theorem group_read_through:
  assumes "group_ok I g" and "key \<noteq> []" and "gr_mainCache g \<noteq> None"
    and "live (w_clock w (w_ticks w + 2)) (active_view g key) = None" and "serves_locally g key"
    and "filterRejects key g = Some False" and "gr_getter g key (w_ext w) = (Inr b, x)"
    and "ttl_config g" and "group_fits g key (bytes_view b)"
  shows "\<exists>g' w' ttl. group_Get t None Lead key g w = Some (Inr (bytes_view b), g', w')
    \<and> group_ok I g' \<and> config g' = config g \<and> w_ext w' = x \<and> ttl_allowed g ttl
    \<and> lookups (w_stats w') = (GroupGets (w_stats w) + 1, CacheHits (w_stats w), CacheMisses (w_stats w) + 1)
    \<and> loads (w_stats w') = (PeerLoads (w_stats w), LocalLoads (w_stats w) + 1, FilterMisses (w_stats w))
    \<and> (\<forall>t' e s w2. \<not> expired (w_clock w2 (w_ticks w2 + 2)) (expiry_of (w_clock w (w_ticks w + 4)) ttl) \<longrightarrow>
        (\<exists>g2 w3. group_Get t' e s key g' w2 = Some (Inr (bytes_view b), g2, w3) \<and> w_ext w3 = w_ext w2))"
proof -
  obtain g' w' ttl where g': "group_Get t None Lead key g w = Some (Inr (bytes_view b), g', w')" "w_ext w' = x" "ttl_allowed g ttl"
    "kept I g key (bytes_view b) ttl (w_clock w (w_ticks w + 4)) (w_clock w (w_ticks w + 5)) g'"
    "lookups (w_stats w') = (GroupGets (w_stats w) + 1, CacheHits (w_stats w), CacheMisses (w_stats w) + 1)"
    "loads (w_stats w') = (PeerLoads (w_stats w), LocalLoads (w_stats w) + 1, FilterMisses (w_stats w))"
    using read_through_run [OF assms] by blast
  have "\<exists>g2 w3. group_Get t' e s key g' w2 = Some (Inr (bytes_view b), g2, w3) \<and> w_ext w3 = w_ext w2"
    if "\<not> expired (w_clock w2 (w_ticks w2 + 2)) (expiry_of (w_clock w (w_ticks w + 4)) ttl)" for t' e s w2
    using group_Get_hit [of g' key w2 "bytes_view b" t' e s] g'(4) that assms(2)
    by (auto simp: kept_def group_ok_def simp del: expired_expiry_of)
  then show ?thesis using g'
    by (intro exI [of _ g'] exI [of _ w'] exI [of _ ttl]) (simp add: kept_def)
qed

theorem group_read_through_witness:
  "\<exists>g' w' g2 w3. group_Get no_transport None Lead ''Tom'' demo_group demo_world = Some (Inr (bytes_view ''630''), g', w')
     \<and> w_ext w' = 1 \<and> group_Get no_transport None Lead ''Tom'' g' (demo_world\<lparr>w_ticks := 60\<rparr>) = Some (Inr (bytes_view ''630''), g2, w3)
     \<and> w_ext w3 = 0"
proof -
  have fits: "group_fits demo_group ''Tom'' (bytes_view ''630'')" by (rule demo_ok) (simp add: item_cost_def ByteView_Len_def)
  have get: "gr_getter demo_group ''Tom'' (w_ext demo_world) = (Inr ''630'', 1)"
    by (simp add: demo_group_def demo_world_def demo_getter_def)
  obtain g' w' ttl where 1: "group_Get no_transport None Lead ''Tom'' demo_group demo_world = Some (Inr (bytes_view ''630''), g', w')"
    "w_ext w' = 1" "ttl_allowed demo_group ttl"
    and 2: "\<And>w2. \<not> expired (w_clock w2 (w_ticks w2 + 2)) (expiry_of (w_clock demo_world (w_ticks demo_world + 4)) ttl) \<Longrightarrow>
      \<exists>g2 w3. group_Get no_transport None Lead ''Tom'' g' w2 = Some (Inr (bytes_view ''630''), g2, w3) \<and> w_ext w3 = w_ext w2"
    using group_read_through [OF demo_ok(1) _ _ _ demo_ok(5,7) get demo_ok(6) fits, of no_transport "\<lambda>_. True"]
    by (simp add: demo_ok(2)) (auto simp: demo_group_def)
  have "90 \<le> ttl" using 1(3) by (simp add: ttl_allowed_def demo_group_def)
  then show ?thesis using 1 2 [of "demo_world\<lparr>w_ticks := 60\<rparr>"] by (simp add: demo_world_def)
qed

text \<open>
  C9. Negative caching: when the backing store does not have the key, \<open>Get\<close> fails with its error,
  and until the negative TTL has passed every later \<open>Get\<close> of the key returns \<open>ErrNotFound\<close> without
  asking the backing store again.
\<close>

theorem group_negative_caching:
  assumes "caches_ok g" and "key \<noteq> []" and "gr_mainCache g \<noteq> None"
    and "live (w_clock w (w_ticks w + 2)) (active_view g key) = None" and "serves_locally g key"
    and "filterRejects key g = Some False" and "gr_getter g key (w_ext w) = (Inl err, x)" and "errors_Is err ErrNotFound"
    and "gr_negativeCacheEnabled g" and "0 < gr_negativeTTL g" and "group_fits g key negative_view"
  shows "\<exists>g' w'. group_Get t None Lead key g w = Some (Inl err, g', w') \<and> w_ext w' = x
    \<and> (\<forall>t' e s w2. w_clock w2 (w_ticks w2 + 2) \<le> w_clock w (w_ticks w + 4) + gr_negativeTTL g \<longrightarrow>
        (\<exists>g2 w3. group_Get t' e s key g' w2 = Some (Inl ErrNotFound, g2, w3) \<and> w_ext w3 = w_ext w2))"
proof -
  obtain g1 w1 where g1: "group_Get t None Lead key g w = timed w (group_load t None Lead key g1 w1)"
    and m: "missed key g w g1 w1" using group_Get_miss [OF assms(1,2,4)] by blast
  note k = missed_keeps [OF m]
  have "caches_ok g1" using m by (simp add: missed_def)
  then obtain g' w' where g': "getLocally key g1 w1 = Some (Inl err, g', w')" "caches_ok g'" "w_ext w' = x"
    "active_view g' key = Some (negative_view, expiry_of (add_time w1) (gr_negativeTTL g))"
    using getLocally_not_found [of g1 key w1 err x] k assms by auto
  have "group_load t None Lead key g1 w1 = Some (Inl err, g', w')"
    using load_fn_local [of g1 key t w1] k(2) assms(5) g'(1) by simp
  then obtain w'' where w'': "group_Get t None Lead key g w = Some (Inl err, g', w'')" "w_ext w'' = x"
    using timed_Some [of _ "Inl err" g' w' w] g1 g'(3) by auto
  have view: "active_view g' key = Some (negative_view, Some (w_clock w (w_ticks w + 4) + gr_negativeTTL g))"
    using g'(4) m assms(3,10) by (simp add: missed_def add_time_def expiry_of_def)
  have "\<exists>g2 w3. group_Get t' e s key g' w2 = Some (Inl ErrNotFound, g2, w3) \<and> w_ext w3 = w_ext w2"
    if "w_clock w2 (w_ticks w2 + 2) \<le> w_clock w (w_ticks w + 4) + gr_negativeTTL g" for t' e s w2
    using group_Get_hit [of g' key w2 negative_view t' e s] g'(2) view that assms(2) by auto
  then show ?thesis using w'' by blast
qed

theorem group_negative_caching_witness:
  "\<exists>g' w' g2 w3. group_Get no_transport None Lead ''Ann'' demo_group demo_world = Some (Inl ErrNotFound, g', w') \<and> w_ext w' = 1
     \<and> group_Get no_transport None Lead ''Ann'' g' (demo_world\<lparr>w_ticks := 20\<rparr>) = Some (Inl ErrNotFound, g2, w3) \<and> w_ext w3 = 0"
proof -
  have fits: "group_fits demo_group ''Ann'' negative_view" by (rule demo_ok) (simp add: item_cost_def ByteView_Len_def)
  have ok: "caches_ok demo_group" using demo_ok(1) by (simp add: group_ok_def)
  have get: "gr_getter demo_group ''Ann'' (w_ext demo_world) = (Inl ErrNotFound, 1)"
    by (simp add: demo_group_def demo_world_def demo_getter_def)
  obtain g' w' where 1: "group_Get no_transport None Lead ''Ann'' demo_group demo_world = Some (Inl ErrNotFound, g', w')" "w_ext w' = 1"
    and 2: "\<And>w2. w_clock w2 (w_ticks w2 + 2) \<le> w_clock demo_world (w_ticks demo_world + 4) + gr_negativeTTL demo_group \<Longrightarrow>
      \<exists>g2 w3. group_Get no_transport None Lead ''Ann'' g' w2 = Some (Inl ErrNotFound, g2, w3) \<and> w_ext w3 = w_ext w2"
    using group_negative_caching [OF ok _ _ _ demo_ok(5,7) get _ _ _ fits, of no_transport]
    by (simp add: demo_ok(2)) (auto simp: demo_group_def)
  show ?thesis using 1 2 [of "demo_world\<lparr>w_ticks := 20\<rparr>"] by (simp add: demo_world_def demo_group_def)
qed

text \<open>
  C13. Bounded waiting: a \<open>Get\<close> that gives up on a load in flight still answers, from whatever the
  caches hold when its timer fires: the active value if there is one, else an unexpired stale
  copy, else \<open>ErrSingleflightWaitTimeout\<close>; it never asks the backing store. With a fallback value
  it counts a hit on top of the miss it began with.
\<close>

theorem group_timeout_degrades:
  assumes "caches_ok g" and "key \<noteq> []" and "live (w_clock w (w_ticks w + 2)) (active_view g key) = None"
    and "0 < gr_singleflightWaitTTL g" and "caches_ok g2"
  shows "\<exists>g' w'. group_Get t None (Wait TimedOut g2 w2) key g w = Some (case fallback key g2 w2 of
        None \<Rightarrow> Inl ErrSingleflightWaitTimeout
      | Some v \<Rightarrow> if isNotFound v then Inl ErrNotFound else Inr v, g', w') \<and> w_ext w' = w_ext w2
    \<and> lookups (w_stats w') = (if fallback key g2 w2 = None then lookups (w_stats w2)
        else (GroupGets (w_stats w2), CacheHits (w_stats w2) + 1, CacheMisses (w_stats w2)))"
  using group_Get_timeout [OF assms, of t w2] by (auto simp: lookups_def IncCacheHits_def)

theorem group_timeout_degrades_witness:
  "\<exists>g' w'. group_Get no_transport None (Wait TimedOut demo_group demo_world) ''Tom'' demo_group demo_world =
     Some (Inl ErrSingleflightWaitTimeout, g', w') \<and> w_ext w' = 0"
proof -
  have ok: "caches_ok demo_group" using demo_ok(1) by (simp add: group_ok_def)
  have "fallback ''Tom'' demo_group demo_world = None" by (simp add: fallback_def demo_ok)
  then show ?thesis
    using group_timeout_degrades [OF ok _ _ _ ok, of "''Tom''" demo_world no_transport demo_world]
    by (simp add: demo_ok) (auto simp: demo_group_def demo_world_def)
qed

text \<open>
  C8. Stale while revalidate: a value that was read through can still be served to a caller who
  gives up on its reload after the active TTL has passed, for the configured extra time, as long as
  its stale copy has not been evicted or overwritten.
\<close>

theorem group_stale_while_revalidate:
  assumes "group_ok I g" and "key \<noteq> []" and "gr_mainCache g \<noteq> None"
    and "live (w_clock w (w_ticks w + 2)) (active_view g key) = None" and "serves_locally g key"
    and "filterRejects key g = Some False" and "gr_getter g key (w_ext w) = (Inr b, x)"
    and "ttl_config g" and "group_fits g key (bytes_view b)" and "0 < gr_singleflightWaitTTL g"
    and "gr_staleCache g \<noteq> None" and "0 < gr_cacheTTL g" and "0 < gr_staleTTL g"
    and "gr_cacheTTL g + max 0 (gr_cacheTTLJitter g) + gr_staleTTL g < 2 ^ 63"
  shows "\<exists>g' w' ttl. group_Get t None Lead key g w = Some (Inr (bytes_view b), g', w') \<and> ttl_allowed g ttl
    \<and> group_ok I g' \<and> config g' = config g \<and> active_view g' key = Some (bytes_view b, expiry_of (w_clock w (w_ticks w + 4)) ttl)
    \<and> (\<forall>t' g2 w2 g3 w3. caches_ok g2 \<and> config g2 = config g \<and> caches_ok g3 \<and> config g3 = config g
        \<and> live (w_clock w2 (w_ticks w2 + 2)) (active_view g2 key) = None \<and> live (get_time w3) (active_view g3 key) = None
        \<and> stale_view g3 key = stale_view g' key \<and> stale_time g3 w3 \<le> w_clock w (w_ticks w + 5) + ttl + gr_staleTTL g \<longrightarrow>
        (\<exists>g'' w''. group_Get t' None (Wait TimedOut g3 w3) key g2 w2 = Some (Inr (bytes_view b), g'', w'') \<and> w_ext w'' = w_ext w3))"
proof -
  obtain g' w' ttl where g': "group_Get t None Lead key g w = Some (Inr (bytes_view b), g', w')" "w_ext w' = x" "ttl_allowed g ttl"
    "kept I g key (bytes_view b) ttl (w_clock w (w_ticks w + 4)) (w_clock w (w_ticks w + 5)) g'"
    using read_through_run [OF assms(1-9)] by blast
  have ttl: "0 < ttl" "ttl \<le> gr_cacheTTL g + max 0 (gr_cacheTTLJitter g)" using g'(3) assms(12) by (simp_all add: ttl_allowed_def)
  have "i64 (ttl + gr_staleTTL g) = ttl + gr_staleTTL g"
    by (rule i64_id) (use ttl assms(13,14) in \<open>simp add: in_i64_def\<close>)
  then have view: "stale_view g' key = Some (bytes_view b, Some (w_clock w (w_ticks w + 5) + (ttl + gr_staleTTL g)))"
    using g'(4) assms(11,13) ttl(1) by (simp add: kept_def keeps_stale_def expiry_of_def)
  have "\<exists>g'' w''. group_Get t' None (Wait TimedOut g3 w3) key g2 w2 = Some (Inr (bytes_view b), g'', w'') \<and> w_ext w'' = w_ext w3"
    if h: "caches_ok g2" "config g2 = config g" "caches_ok g3" "config g3 = config g"
      "live (w_clock w2 (w_ticks w2 + 2)) (active_view g2 key) = None" "live (get_time w3) (active_view g3 key) = None"
      "stale_view g3 key = stale_view g' key" "stale_time g3 w3 \<le> w_clock w (w_ticks w + 5) + ttl + gr_staleTTL g" for t' g2 w2 g3 w3
  proof -
    have "fallback key g3 w3 = Some (bytes_view b)"
      using h view assms(13) config_fields(8) [OF h(4)] by (simp add: fallback_def)
    moreover have "0 < gr_singleflightWaitTTL g2" using assms(10) config_fields(5) [OF h(2)] by simp
    ultimately show ?thesis using group_Get_timeout [OF h(1) assms(2) h(5) _ h(3), of t' w3] by auto
  qed
  then show ?thesis using g'(1,3,4) unfolding kept_def
    by (intro exI [of _ g'] exI [of _ w'] exI [of _ ttl] conjI) blast+
qed

theorem group_stale_while_revalidate_witness:
  "\<exists>g' w' g'' w''. group_Get no_transport None Lead ''Tom'' demo_group demo_world = Some (Inr (bytes_view ''630''), g', w')
     \<and> group_Get no_transport None (Wait TimedOut g' (demo_world\<lparr>w_ticks := 300\<rparr>)) ''Tom'' g' (demo_world\<lparr>w_ticks := 200\<rparr>) =
         Some (Inr (bytes_view ''630''), g'', w'')"
proof -
  have fits: "group_fits demo_group ''Tom'' (bytes_view ''630'')" by (rule demo_ok) (simp add: item_cost_def ByteView_Len_def)
  have get: "gr_getter demo_group ''Tom'' (w_ext demo_world) = (Inr ''630'', 1)"
    by (simp add: demo_group_def demo_world_def demo_getter_def)
  have cfg: "gr_mainCache demo_group \<noteq> None" "0 < gr_singleflightWaitTTL demo_group" "gr_staleCache demo_group \<noteq> None"
    "0 < gr_cacheTTL demo_group" "0 < gr_staleTTL demo_group"
    "gr_cacheTTL demo_group + max 0 (gr_cacheTTLJitter demo_group) + gr_staleTTL demo_group < 2 ^ 63"
    by (simp_all add: demo_group_def)
  have miss: "live (w_clock demo_world (w_ticks demo_world + 2)) (active_view demo_group ''Tom'') = None" by (simp add: demo_ok)
  obtain g' w' ttl where 1: "group_Get no_transport None Lead ''Tom'' demo_group demo_world = Some (Inr (bytes_view ''630''), g', w')"
    "ttl_allowed demo_group ttl" "caches_ok g'" "config g' = config demo_group"
    "active_view g' ''Tom'' = Some (bytes_view ''630'', expiry_of (w_clock demo_world (w_ticks demo_world + 4)) ttl)"
    and 2: "\<And>g2 w2 g3 w3. caches_ok g2 \<and> config g2 = config demo_group \<and> caches_ok g3 \<and> config g3 = config demo_group
        \<and> live (w_clock w2 (w_ticks w2 + 2)) (active_view g2 ''Tom'') = None \<and> live (get_time w3) (active_view g3 ''Tom'') = None
        \<and> stale_view g3 ''Tom'' = stale_view g' ''Tom'' \<and> stale_time g3 w3 \<le> w_clock demo_world (w_ticks demo_world + 5) + ttl + gr_staleTTL demo_group \<Longrightarrow>
        \<exists>g'' w''. group_Get no_transport None (Wait TimedOut g3 w3) ''Tom'' g2 w2 = Some (Inr (bytes_view ''630''), g'', w'') \<and> w_ext w'' = w_ext w3"
    using group_stale_while_revalidate [OF demo_ok(1) _ cfg(1) miss demo_ok(5,7) get demo_ok(6) fits cfg(2-6), of no_transport "\<lambda>_. True"]
    unfolding group_ok_def by (simp (no_asm_use)) blast
  have "0 < ttl" "ttl \<le> 110" using 1(2) by (simp_all add: ttl_allowed_def demo_group_def)
  moreover have "int (if gr_mainCache g' = None then 1 else 4) \<le> 705 + ttl" using \<open>0 < ttl\<close> by simp
  ultimately show ?thesis
    using 1 2 [of g' g' "demo_world\<lparr>w_ticks := 200\<rparr>" "demo_world\<lparr>w_ticks := 300\<rparr>"]
    by (simp add: demo_world_def demo_group_def get_time_def stale_time_def) blast
qed

text \<open>
  C32. A key that a ready filter does not know is answered with \<open>ErrFilterNotFound\<close> without asking
  the backing store or writing to the caches, and counted as a filter miss.
\<close>

theorem group_filter_rejects:
  assumes "caches_ok g" and "key \<noteq> []" and "live (w_clock w (w_ticks w + 2)) (active_view g key) = None"
    and "serves_locally g key" and "filterRejects key g = Some True"
  shows "\<exists>err g' w'. group_Get t None Lead key g w = Some (Inl err, g', w') \<and> errors_Is err ErrFilterNotFound
    \<and> w_ext w' = w_ext w \<and> active_view g' = (active_view g)(key := None) \<and> gr_staleCache g' = gr_staleCache g
    \<and> loads (w_stats w') = (PeerLoads (w_stats w), LocalLoads (w_stats w), FilterMisses (w_stats w) + 1)"
proof -
  obtain g1 w1 where g1: "group_Get t None Lead key g w = timed w (group_load t None Lead key g1 w1)"
    and m: "missed key g w g1 w1" using group_Get_miss [OF assms(1-3)] by blast
  note k = missed_keeps [OF m]
  let ?err = "Wrapped (Error ErrFilterNotFound @ '' key '' @ key @ '' not found in filter'') ErrFilterNotFound"
  have run: "group_load t None Lead key g1 w1 = Some (Inl ?err, g1, w_count IncFilterMisses w1)"
    using load_fn_local [of g1 key t w1] k(2,5) assms(4,5) by (simp add: getLocally_def)
  obtain w'' where w'': "timed w (group_load t None Lead key g1 w1) = Some (Inl ?err, g1, w'')" "w_ext w'' = w_ext w1"
    "loads (w_stats w'') = loads (IncFilterMisses (w_stats w1))"
    using timed_Some [OF run, of w] by auto
  have "loads (w_stats w'') = (PeerLoads (w_stats w), LocalLoads (w_stats w), FilterMisses (w_stats w) + 1)"
    using m w''(3) by (simp add: missed_def) (simp add: loads_def)
  then show ?thesis using g1 w''(1,2) m by (intro exI [of _ ?err] exI [of _ g1] exI [of _ w'']) (simp add: missed_def)
qed

text \<open>The demo group with a ready filter that knows no key.\<close>

definition filtered_group :: "(BloomFilter, nat) Group" where
  "filtered_group = demo_group\<lparr>gr_filter := map_option (warmup_done []) (newFilterGate (Some (bloom_ops, bloom_New 1000 6)))\<rparr>"

theorem group_filter_rejects_witness:
  "\<exists>err g' w'. group_Get no_transport None Lead ''Tom'' filtered_group demo_world = Some (Inl err, g', w')
     \<and> errors_Is err ErrFilterNotFound \<and> w_ext w' = 0"
proof -
  have ok: "bloom_ok (bloom_New 1000 6)" by (rule bloom_New_ok) simp_all
  have "bloom_Reset (bloom_New 1000 6) = bloom_New 1000 6" by (simp add: bloom_Reset_def bloom_New_def)
  then have "bloom_Contains ''Tom'' (bloom_New 1000 6) = Some False" using bloom_Reset_props(2) [OF ok] by metis
  then have rej: "filterRejects ''Tom'' filtered_group = Some True"
    by (simp add: filtered_group_def filterRejects_def gate_rejects_def newFilterGate_def warmup_done_def bloom_ops_def)
  have c: "caches_ok filtered_group" "active_view filtered_group = active_view demo_group" "serves_locally filtered_group ''Tom''"
    using demo_ok(1,5) by (simp_all add: filtered_group_def group_ok_def serves_locally_def)
  have miss: "live (w_clock demo_world (w_ticks demo_world + 2)) (active_view filtered_group ''Tom'') = None"
    by (simp add: c(2) demo_ok)
  show ?thesis using group_filter_rejects [OF c(1) _ miss c(3) rej, of no_transport] by (auto simp: demo_world_def)
qed

end
