(* ===== verification/Group_Peers.thy ===== *)
theory Group_Peers
  imports Group_Reads
begin

text \<open>
  Theorems about loads of keys that another node owns: what the peer answers, what it means that it
  has no value, and what happens when it cannot be reached.
\<close>

section \<open>Asking the owner\<close>

text \<open>The node with client \<open>h\<close> owns the key and answers a request of \<open>g\<close> in state \<open>x\<close>.\<close>

definition peer_answers ::
  "'x Transport \<Rightarrow> ('f, 'x) Group \<Rightarrow> string \<Rightarrow> 'x \<Rightarrow> go_error option \<Rightarrow> pbResponse \<Rightarrow> 'x \<Rightarrow> bool" where
  "peer_answers t g key x err response x' \<longleftrightarrow> (\<exists>pool h. gr_peers g = Some pool \<and> pickPeer key pool = Some (Some h)
     \<and> getter_Get t h \<lparr>rq_Group = gr_name g, rq_Key = key, rq_Delta = 0\<rparr> empty_response x = ((err, response), x'))"

lemma peer_answers_missed: "missed key g w g1 w1 \<Longrightarrow> peer_answers t g1 = peer_answers t g"
  using missed_keeps(11,12) [of key g w g1 w1] by (simp add: peer_answers_def fun_eq_iff)

lemma load_fn_peer_fails:
  assumes "peer_answers t g key (w_ext w) (Some err) response x" and "\<not> errors_Is err ErrNotFound"
  shows "load_fn t key g w = getLocally key g (w_count IncPeerLoads w\<lparr>w_ext := x\<rparr>)"
  using assms by (auto simp: peer_answers_def load_fn_def loadFromPeer_def getFromPeer_def)

lemma load_fn_peer_not_found:
  assumes "peer_answers t g key (w_ext w) (Some err) response x" and "errors_Is err ErrNotFound"
  shows "load_fn t key g w = map_option (Pair (Inl ErrNotFound)) (cacheNegative key g (w_count IncPeerLoads w\<lparr>w_ext := x\<rparr>))"
  using assms by (cases "cacheNegative key g (w_count IncPeerLoads w\<lparr>w_ext := x\<rparr>)")
    (auto simp: peer_answers_def load_fn_def loadFromPeer_def getFromPeer_def)

lemma load_fn_peer_found:
  assumes "peer_answers t g key (w_ext w) None response x" and "nextTTL g (w_count IncPeerLoads w\<lparr>w_ext := x\<rparr>) = Some (ttl, w1)"
  shows "load_fn t key g w = map_option (Pair (Inr (bytes_view (rs_Value response)))) (remember key (bytes_view (rs_Value response)) ttl g w1)"
  using assms by (cases "remember key (bytes_view (rs_Value response)) ttl g w1")
    (auto simp: peer_answers_def load_fn_def loadFromPeer_def getFromPeer_def stampActiveValue_def)

section \<open>A group with a peer\<close>

text \<open>A second node owns every key; \<open>answering\<close> is a transport on which it always gives one answer.\<close>

definition demo_pool :: HTTPPool where
  "demo_pool = Pool_Set [''http://b''] (NewHTTPPool ''http://a'')"

definition peered_group :: "(BloomFilter, nat) Group" where
  "peered_group = demo_group\<lparr>gr_peers := Some demo_pool\<rparr>"

definition answering :: "pbResponse \<Rightarrow> 'x Transport" where
  "answering response = \<lparr>t_marshal_request = (\<lambda>r. Inr (rq_Key r)), t_unmarshal_response = (\<lambda>_. Inr response),
     t_new_request = (\<lambda>_. None), t_do = (\<lambda>_ _ x. (Reply 200 ''200 OK'' (Inr []), x))\<rparr>"

lemma demo_pool_pick: "pickPeer key demo_pool = Some (Some \<lparr>baseURL = ''http://b/_goCache/''\<rparr>)"
  using ring_built(2) [of "[''http://b'']" defaultReplicas key None] pickPeer_Set [of "[''http://b'']" key "NewHTTPPool ''http://a''"]
  by (simp add: demo_pool_def defaultReplicas_def NewHTTPPool_def defaultBasePath_def)

lemma answering_Get:
  "getter_Get (answering response) h rq empty_response x =
     ((if rs_NotFound response then Some ErrNotFound
       else if rs_Code response \<noteq> 0 then Some (Errorf (''server error code='' @ FormatInt (rs_Code response) @ '': '' @ rs_ErrMsg response))
       else None, response), x)"
  by (simp add: getter_Get_def doProtoRequest_def answering_def StatusOK_def Let_def)

lemma peered_ok:
  "group_ok I peered_group" "active_view peered_group k = None" "item_cost k v \<le> 100 \<Longrightarrow> group_fits peered_group k v"
  "ttl_config peered_group" "filterRejects k peered_group = Some False" "gr_mainCache peered_group \<noteq> None"
  "gr_getter peered_group = demo_getter"
  using demo_ok(1,2,4,6,7)
  by (simp_all add: peered_group_def group_ok_def caches_ok_def group_caches_def filter_ok_def active_view_def
      group_fits_def ttl_config_def filterRejects_def demo_group_def)

lemma peered_answers:
  "peer_answers (answering response) peered_group key x
     (if rs_NotFound response then Some ErrNotFound
      else if rs_Code response \<noteq> 0 then Some (Errorf (''server error code='' @ FormatInt (rs_Code response) @ '': '' @ rs_ErrMsg response))
      else None) response x"
  unfolding peer_answers_def by (intro exI [of _ demo_pool] exI) (auto simp: peered_group_def demo_pool_pick answering_Get)

section \<open>Properties\<close>

text \<open>
  A value that the owner of a key returns is returned by \<open>Get\<close> and kept locally like a loaded
  one; the local getter is not asked.
\<close>

theorem group_peer_value_kept:
  assumes "group_ok I g" and "key \<noteq> []" and "gr_mainCache g \<noteq> None"
    and "live (w_clock w (w_ticks w + 2)) (active_view g key) = None"
    and "peer_answers t g key (w_ext w) None response x"
    and "ttl_config g" and "group_fits g key (bytes_view (rs_Value response))"
  shows "\<exists>g' w' ttl. group_Get t None Lead key g w = Some (Inr (bytes_view (rs_Value response)), g', w')
    \<and> w_ext w' = x \<and> ttl_allowed g ttl
    \<and> kept I g key (bytes_view (rs_Value response)) ttl (w_clock w (w_ticks w + 4)) (w_clock w (w_ticks w + 5)) g'
    \<and> loads (w_stats w') = (PeerLoads (w_stats w) + 1, LocalLoads (w_stats w), FilterMisses (w_stats w))"
proof -
  let ?v = "bytes_view (rs_Value response)"
  have "caches_ok g" using assms(1) by (simp add: group_ok_def)
  then obtain g1 w1 where g1: "group_Get t None Lead key g w = timed w (group_load t None Lead key g1 w1)"
    and m: "missed key g w g1 w1" using group_Get_miss [OF _ assms(2,4)] by blast
  note k = missed_keeps [OF m]
  let ?w = "w_count IncPeerLoads w1\<lparr>w_ext := x\<rparr>"
  obtain ttl n where ttl: "nextTTL g1 ?w = Some (ttl, ?w\<lparr>w_draws := n\<rparr>)" "ttl_allowed g1 ttl"
    by (rule nextTTL_run [of g1 ?w]) (use k(3) assms(6) in auto)
  have ok: "group_ok I g1" "gr_mainCache g1 \<noteq> None" "group_fits g1 key ?v" using k assms by auto
  obtain g' j where g': "remember key ?v ttl g1 (?w\<lparr>w_draws := n\<rparr>) = Some (g', ?w\<lparr>w_draws := n\<rparr>\<lparr>w_ticks := w_ticks (?w\<lparr>w_draws := n\<rparr>) + j\<rparr>)"
    "kept I g1 key ?v ttl (add_time (?w\<lparr>w_draws := n\<rparr>)) (get_time (?w\<lparr>w_draws := n\<rparr>)) g'"
    using remember_kept [OF ok(2,1,3)] by fastforce
  let ?w' = "?w\<lparr>w_draws := n\<rparr>\<lparr>w_ticks := w_ticks (?w\<lparr>w_draws := n\<rparr>) + j\<rparr>"
  have ans: "peer_answers t g1 key (w_ext w1) None response x" using assms(5) k(9) peer_answers_missed [OF m] by simp
  have run: "group_load t None Lead key g1 w1 = Some (Inr ?v, g', ?w')"
    using load_fn_peer_found [OF ans ttl(1)] g'(1) by simp
  have "kept I g key ?v ttl (w_clock w (w_ticks w + 4)) (w_clock w (w_ticks w + 5)) g'"
    using kept_missed [OF m g'(2)] m assms(3) by (simp add: missed_def add_time_def get_time_def add.commute)
  moreover have "loads (w_stats ?w') = (PeerLoads (w_stats w) + 1, LocalLoads (w_stats w), FilterMisses (w_stats w))"
    using m by (simp add: missed_def) (simp add: loads_def)
  ultimately show ?thesis using g1 timed_Some [OF run, of w] ttl(2) k(4) by auto
qed

theorem group_peer_value_kept_witness:
  "\<exists>g' w'. group_Get (answering (empty_response\<lparr>rs_Value := ''589''\<rparr>)) None Lead ''Jack'' peered_group demo_world =
     Some (Inr (bytes_view ''589''), g', w') \<and> w_ext w' = 0"
proof -
  let ?r = "empty_response\<lparr>rs_Value := ''589''\<rparr>"
  have ans: "peer_answers (answering ?r) peered_group ''Jack'' (w_ext demo_world) None ?r 0"
    using peered_answers [of ?r "''Jack''" "w_ext demo_world"] by (simp add: empty_response_def demo_world_def)
  have fits: "group_fits peered_group ''Jack'' (bytes_view (rs_Value ?r))"
    by (rule peered_ok) (simp add: item_cost_def ByteView_Len_def)
  show ?thesis
    using group_peer_value_kept [OF peered_ok(1) _ peered_ok(6) _ ans peered_ok(4) fits, of "\<lambda>_. True"]
    by (auto simp: peered_ok(2))
qed

text \<open>
  C17. A peer that fails does not fail the read: any error but \<open>ErrNotFound\<close> makes the node ask its
  own getter, whose value is returned and kept.
\<close>

theorem group_peer_failure_falls_back:
  assumes "group_ok I g" and "key \<noteq> []" and "gr_mainCache g \<noteq> None"
    and "live (w_clock w (w_ticks w + 2)) (active_view g key) = None"
    and "peer_answers t g key (w_ext w) (Some err) response x" and "\<not> errors_Is err ErrNotFound"
    and "filterRejects key g = Some False" and "gr_getter g key x = (Inr b, x')"
    and "ttl_config g" and "group_fits g key (bytes_view b)"
  shows "\<exists>g' w' ttl. group_Get t None Lead key g w = Some (Inr (bytes_view b), g', w') \<and> w_ext w' = x' \<and> ttl_allowed g ttl
    \<and> kept I g key (bytes_view b) ttl (w_clock w (w_ticks w + 4)) (w_clock w (w_ticks w + 5)) g'
    \<and> loads (w_stats w') = (PeerLoads (w_stats w) + 1, LocalLoads (w_stats w) + 1, FilterMisses (w_stats w))"
proof -
  have "caches_ok g" using assms(1) by (simp add: group_ok_def)
  then obtain g1 w1 where g1: "group_Get t None Lead key g w = timed w (group_load t None Lead key g1 w1)"
    and m: "missed key g w g1 w1" using group_Get_miss [OF _ assms(2,4)] by blast
  note k = missed_keeps [OF m]
  let ?w = "w_count IncPeerLoads w1\<lparr>w_ext := x\<rparr>"
  have ans: "peer_answers t g1 key (w_ext w1) (Some err) response x" using assms(5) k(9) peer_answers_missed [OF m] by simp
  obtain g' w' ttl where g': "getLocally key g1 ?w = Some (Inr (bytes_view b), g', w')" "ttl_allowed g ttl"
    "kept I g1 key (bytes_view b) ttl (add_time ?w) (get_time ?w) g'" "w_ext w' = x'"
    "loads (w_stats w') = loads (IncLocalLoads (w_stats ?w))"
    using getLocally_found [of I g1 key ?w b x'] k assms by auto
  have run: "group_load t None Lead key g1 w1 = Some (Inr (bytes_view b), g', w')"
    using load_fn_peer_fails [OF ans assms(6)] g'(1) by simp
  have "kept I g key (bytes_view b) ttl (w_clock w (w_ticks w + 4)) (w_clock w (w_ticks w + 5)) g'"
    using kept_missed [OF m g'(3)] m assms(3) by (simp add: missed_def add_time_def get_time_def add.commute)
  moreover have "loads (w_stats w') = (PeerLoads (w_stats w) + 1, LocalLoads (w_stats w) + 1, FilterMisses (w_stats w))"
    using m g'(5) by (simp add: missed_def) (simp add: loads_def)
  ultimately show ?thesis using g1 timed_Some [OF run, of w] g'(2,4) by auto
qed

theorem group_peer_failure_falls_back_witness:
  "\<exists>g' w'. group_Get (answering (empty_response\<lparr>rs_Code := 500\<rparr>)) None Lead ''Tom'' peered_group demo_world =
     Some (Inr (bytes_view ''630''), g', w') \<and> w_ext w' = 1"
proof -
  let ?r = "empty_response\<lparr>rs_Code := 500\<rparr>"
  have ans: "peer_answers (answering ?r) peered_group ''Tom'' (w_ext demo_world)
      (Some (Errorf (''server error code='' @ FormatInt 500 @ '': ''))) ?r 0"
    using peered_answers [of ?r "''Tom''" "w_ext demo_world"] by (simp add: empty_response_def demo_world_def)
  have fits: "group_fits peered_group ''Tom'' (bytes_view ''630'')" by (rule peered_ok) (simp add: item_cost_def ByteView_Len_def)
  have get: "gr_getter peered_group ''Tom'' 0 = (Inr ''630'', 1)" by (simp add: peered_ok(7) demo_getter_def)
  show ?thesis
    using group_peer_failure_falls_back [OF peered_ok(1) _ peered_ok(6) _ ans _ peered_ok(5) get peered_ok(4) fits, of "\<lambda>_. True"]
    by (auto simp: peered_ok(2))
qed

text \<open>
  C18. The owner's word on a missing key is final: its \<open>ErrNotFound\<close> is returned without asking the
  local getter, and is cached when negative caching is on.
\<close>

theorem group_peer_not_found_is_final:
  assumes "caches_ok g" and "key \<noteq> []" and "gr_mainCache g \<noteq> None"
    and "live (w_clock w (w_ticks w + 2)) (active_view g key) = None"
    and "peer_answers t g key (w_ext w) (Some err) response x" and "errors_Is err ErrNotFound"
    and "group_fits g key negative_view"
  shows "\<exists>g' w'. group_Get t None Lead key g w = Some (Inl ErrNotFound, g', w') \<and> w_ext w' = x
    \<and> loads (w_stats w') = (PeerLoads (w_stats w) + 1, LocalLoads (w_stats w), FilterMisses (w_stats w))
    \<and> active_view g' key = (if gr_negativeCacheEnabled g \<and> 0 < gr_negativeTTL g
        then Some (negative_view, expiry_of (w_clock w (w_ticks w + 4)) (gr_negativeTTL g)) else None)"
proof -
  obtain g1 w1 where g1: "group_Get t None Lead key g w = timed w (group_load t None Lead key g1 w1)"
    and m: "missed key g w g1 w1" using group_Get_miss [OF assms(1,2,4)] by blast
  note k = missed_keeps [OF m]
  let ?w = "w_count IncPeerLoads w1\<lparr>w_ext := x\<rparr>"
  have ans: "peer_answers t g1 key (w_ext w1) (Some err) response x" using assms(5) k(9) peer_answers_missed [OF m] by simp
  have "\<exists>g' n. cacheNegative key g1 ?w = Some (g', ?w\<lparr>w_ticks := n\<rparr>)
      \<and> active_view g' key = (if gr_negativeCacheEnabled g \<and> 0 < gr_negativeTTL g
        then Some (negative_view, expiry_of (add_time w1) (gr_negativeTTL g)) else None)"
  proof (cases "gr_negativeCacheEnabled g \<and> 0 < gr_negativeTTL g")
    case True
    obtain c where c: "gr_mainCache g1 = Some c" using assms(3) k(8) by auto
    have ok: "caches_ok g1" "group_fits g1 key negative_view" using m assms(7) k(6) by (simp_all add: missed_def)
    obtain g' where "store_active key negative_view (gr_negativeTTL g) g1 ?w = Some (g', ?w\<lparr>w_ticks := Suc (w_ticks ?w)\<rparr>)"
      "active_view g' key = Some (negative_view, expiry_of (add_time ?w) (gr_negativeTTL g))"
      by (rule store_active_run [OF c ok, of "gr_negativeTTL g" ?w]) blast
    then show ?thesis using True k(13,14)
      by (intro exI [of _ g'] exI [of _ "Suc (w_ticks ?w)"]) (simp add: cacheNegative_store add_time_def)
  next
    case False
    have "cacheNegative key g1 ?w = Some (g1, ?w\<lparr>w_ticks := w_ticks ?w\<rparr>)" using False k(13,14) by (auto simp: cacheNegative_def)
    then show ?thesis using False m by (intro exI [of _ g1] exI [of _ "w_ticks ?w"]) (auto simp: missed_def)
  qed
  then obtain g' n where g': "cacheNegative key g1 ?w = Some (g', ?w\<lparr>w_ticks := n\<rparr>)"
    "active_view g' key = (if gr_negativeCacheEnabled g \<and> 0 < gr_negativeTTL g
        then Some (negative_view, expiry_of (w_clock w (w_ticks w + 4)) (gr_negativeTTL g)) else None)"
    using m assms(3) by (auto simp: missed_def add_time_def)
  have run: "group_load t None Lead key g1 w1 = Some (Inl ErrNotFound, g', ?w\<lparr>w_ticks := n\<rparr>)"
    using load_fn_peer_not_found [OF ans assms(6)] g'(1) by simp
  have "loads (w_stats (?w\<lparr>w_ticks := n\<rparr>)) = (PeerLoads (w_stats w) + 1, LocalLoads (w_stats w), FilterMisses (w_stats w))"
    using m by (simp add: missed_def) (simp add: loads_def)
  then show ?thesis using g1 timed_Some [OF run, of w] g'(2) by auto
qed

theorem group_peer_not_found_is_final_witness:
  "\<exists>g' w'. group_Get (answering (empty_response\<lparr>rs_NotFound := True\<rparr>)) None Lead ''Tom'' peered_group demo_world =
     Some (Inl ErrNotFound, g', w') \<and> w_ext w' = 0"
proof -
  let ?r = "empty_response\<lparr>rs_NotFound := True\<rparr>"
  have ans: "peer_answers (answering ?r) peered_group ''Tom'' (w_ext demo_world) (Some ErrNotFound) ?r 0"
    using peered_answers [of ?r "''Tom''" "w_ext demo_world"] by (simp add: empty_response_def demo_world_def)
  have fits: "group_fits peered_group ''Tom'' negative_view" by (rule peered_ok) (simp add: item_cost_def ByteView_Len_def)
  have ok: "caches_ok peered_group" using peered_ok(1) by (simp add: group_ok_def)
  show ?thesis
    using group_peer_not_found_is_final [OF ok _ peered_ok(6) _ ans _ fits] by (auto simp: peered_ok(2))
qed

end
