(* ===== verification/Group_Writes.thy ===== *)
theory Group_Writes
  imports Group_Peers
begin

text \<open>
  Theorems about the methods that change what a group serves: \<open>Invalidate\<close>, \<open>Increment\<close>, and the
  warm-up and refresh of the filter.
\<close>

section \<open>Invalidation\<close>

lemma invalidateLocal_run:
  assumes "caches_ok g"
  shows "\<exists>g'. invalidateLocal key g = Some g' \<and> caches_ok g' \<and> config g' = config g \<and> gr_filter g' = gr_filter g
    \<and> active_view g' = (active_view g)(key := None) \<and> stale_view g' = (stale_view g)(key := None)"
proof -
  have "\<exists>g1. (case gr_mainCache g of None \<Rightarrow> Some g
      | Some active \<Rightarrow> do { active \<leftarrow> Cache_remove key active; Some (g\<lparr>gr_mainCache := Some active\<rparr>) }) = Some g1
    \<and> caches_ok g1 \<and> config g1 = config g \<and> gr_filter g1 = gr_filter g \<and> gr_staleCache g1 = gr_staleCache g
    \<and> active_view g1 = (active_view g)(key := None)"
  proof (cases "gr_mainCache g")
    case None
    then show ?thesis using assms by (simp add: active_view_def fun_eq_iff)
  next
    case (Some c)
    then have "Cache_ok c" using assms by (simp add: caches_ok_def group_caches_def)
    then obtain c' where "Cache_remove key c = Some c'" "Cache_ok c'" "Cache_look c' = (Cache_look c)(key := None)"
      using caches.remove_ok [of c key] by blast
    then show ?thesis using Some assms by (auto simp: active_view_def fun_eq_iff caches_ok_def group_caches_def)
  qed
  then obtain g1 where g1: "(case gr_mainCache g of None \<Rightarrow> Some g
      | Some active \<Rightarrow> do { active \<leftarrow> Cache_remove key active; Some (g\<lparr>gr_mainCache := Some active\<rparr>) }) = Some g1"
    "caches_ok g1" "config g1 = config g" "gr_filter g1 = gr_filter g" "gr_staleCache g1 = gr_staleCache g"
    "active_view g1 = (active_view g)(key := None)" by blast
  show ?thesis
  proof (cases "gr_staleCache g")
    case None
    then show ?thesis using g1 by (simp add: invalidateLocal_def stale_view_def fun_eq_iff)
  next
    case (Some c)
    then have "Cache_ok c" using assms by (simp add: caches_ok_def group_caches_def)
    then obtain c' where "Cache_remove key c = Some c'" "Cache_ok c'" "Cache_look c' = (Cache_look c)(key := None)"
      using caches.remove_ok [of c key] by blast
    then show ?thesis using Some g1
      by (intro exI [of _ "g1\<lparr>gr_staleCache := Some c'\<rparr>"])
        (auto simp: invalidateLocal_def stale_view_def fun_eq_iff caches_ok_def group_caches_def)
  qed
qed

lemma invalidate_all_asks_all:
  "snd (invalidate_all t hs inp e x) = fold (\<lambda>h x. snd (getter_Invalidate t h inp x)) hs x"
  by (induction hs arbitrary: e x) (auto split: prod.splits)

lemma set_map_filter: "set (List.map_filter f xs) = {y. \<exists>x \<in> set xs. f x = Some y}"
  by (induction xs) (auto simp: List.map_filter_simps split: option.splits)

text \<open>The clients of all other nodes of a pool, in the order in which a broadcast visits them.\<close>

definition other_nodes :: "string list \<Rightarrow> HTTPPool \<Rightarrow> httpGetter list" where
  "other_nodes order pool = List.map_filter (\<lambda>peer. if peer = p_self pool then None else p_httpGetters pool peer) order"

lemma broadcastInvalidate_asks_all:
  "snd (broadcastInvalidate t order pool inp x) = fold (\<lambda>h x. snd (getter_Invalidate t h inp x)) (other_nodes order pool) x"
  by (simp add: broadcastInvalidate_def other_nodes_def Let_def invalidate_all_asks_all)

section \<open>Increments\<close>

lemma durable_increment_run:
  assumes "group_ok I g" and "key \<noteq> []" and "gr_mainCache g \<noteq> None" and "gr_incrementer g = Some inc"
    and "inc key delta (w_ext w) = (Inr n, x)" and "ttl_config g" and "group_fits g key (bytes_view (FormatInt n))"
  shows "\<exists>g' w' ttl. incrementLocally None key delta g w = Some (Inr n, g', w') \<and> w_ext w' = x \<and> ttl_allowed g ttl
    \<and> kept I g key (bytes_view (FormatInt n)) ttl (add_time w) (get_time w) g'"
proof -
  let ?w = "w\<lparr>w_ext := x\<rparr>"
  obtain ttl m where ttl: "nextTTL g ?w = Some (ttl, ?w\<lparr>w_draws := m\<rparr>)" "ttl_allowed g ttl"
    by (rule nextTTL_run [OF assms(6), of ?w])
  let ?w1 = "?w\<lparr>w_draws := m\<rparr>"
  obtain g' j where g': "remember key (bytes_view (FormatInt n)) ttl g ?w1 = Some (g', ?w1\<lparr>w_ticks := w_ticks ?w1 + j\<rparr>)"
    "kept I g key (bytes_view (FormatInt n)) ttl (add_time ?w1) (get_time ?w1) g'"
    using remember_kept [OF assms(3,1,7), of ttl ?w1] by auto
  have "incrementLocally None key delta g w = Some (Inr n, g', ?w1\<lparr>w_ticks := w_ticks ?w1 + j\<rparr>)"
    using assms(2-5) ttl(1) g'(1) by (auto simp: incrementLocally_def stampActiveValue_def)
  then show ?thesis using g'(2) ttl(2) by (simp add: add_time_def get_time_def) blast
qed

lemma group_Increment_local:
  "serves_locally g key \<Longrightarrow> group_Increment t None e key delta g w = incrementLocally e key delta g w"
  by (auto simp: group_Increment_def incrementLocally_def serves_locally_def split: option.splits)

section \<open>Warm-up\<close>

lemma warmup_load_run:
  assumes "filter_ok I g" and "gr_filter g = Some f"
  shows "\<exists>err fl w'. warmup_load key (g, w) = Some (err, g\<lparr>gr_filter := Some (f\<lparr>fg_filter := fl\<rparr>)\<rparr>, w') \<and> I fl
    \<and> (err = None \<longrightarrow> f_Contains (fg_ops f) key fl = Some True)
    \<and> (\<forall>k. f_Contains (fg_ops f) k (fg_filter f) = Some True \<longrightarrow> f_Contains (fg_ops f) k fl = Some True)"
proof -
  have F: "membership_filter I (f_Add (fg_ops f)) (f_Contains (fg_ops f))" "I (fg_filter f)"
    using assms by (simp_all add: filter_ok_def)
  obtain fl where fl: "f_Add (fg_ops f) key (fg_filter f) = Some fl" "I fl"
    using membership_filter.add_returns [OF F] by blast
  obtain r w' where r: "call_getter key g w = (r, w')" by force
  have same: "g\<lparr>gr_filter := Some (f\<lparr>fg_filter := fg_filter f\<rparr>)\<rparr> = g" using assms(2) by (cases g) simp
  show ?thesis
  proof (cases r)
    case (Inl err)
    then have "warmup_load key (g, w) = Some (Some err, g\<lparr>gr_filter := Some (f\<lparr>fg_filter := fg_filter f\<rparr>)\<rparr>, w')"
      using r same by (simp add: warmup_load_def getLocallyOnlyForWarmUp_def)
    then show ?thesis using F(2) by blast
  next
    case (Inr b)
    then have "warmup_load key (g, w) = Some (None, g\<lparr>gr_filter := Some (f\<lparr>fg_filter := fl\<rparr>)\<rparr>, w')"
      using r assms(2) fl(1) by (simp add: warmup_load_def getLocallyOnlyForWarmUp_def filter_add_def gate_add_def)
    then show ?thesis
      using fl(2) membership_filter.add_contains [OF F fl(1)] membership_filter.add_keeps [OF F fl(1)] by blast
  qed
qed

lemma warmup_loop_run:
  assumes "filter_ok I g" and "gr_filter g = Some f"
  shows "\<exists>ready fl w'. warmup_loop warmup_load keys r (g, w) = Some (ready, g\<lparr>gr_filter := Some (f\<lparr>fg_filter := fl\<rparr>)\<rparr>, w') \<and> I fl
    \<and> (ready \<longrightarrow> r \<and> (\<forall>k \<in> set keys. f_Contains (fg_ops f) k fl = Some True))
    \<and> (\<forall>k. f_Contains (fg_ops f) k (fg_filter f) = Some True \<longrightarrow> f_Contains (fg_ops f) k fl = Some True)"
  using assms
proof (induction keys arbitrary: r g f w)
  case Nil
  have "g\<lparr>gr_filter := Some (f\<lparr>fg_filter := fg_filter f\<rparr>)\<rparr> = g" using Nil(2) by (cases g) simp
  then show ?case using Nil by (intro exI [of _ r] exI [of _ "fg_filter f"]) (simp add: filter_ok_def)
next
  case (Cons key keys)
  obtain err fl w1 where 1: "warmup_load key (g, w) = Some (err, g\<lparr>gr_filter := Some (f\<lparr>fg_filter := fl\<rparr>)\<rparr>, w1)" "I fl"
    "err = None \<Longrightarrow> f_Contains (fg_ops f) key fl = Some True"
    "\<And>k. f_Contains (fg_ops f) k (fg_filter f) = Some True \<Longrightarrow> f_Contains (fg_ops f) k fl = Some True"
    using warmup_load_run [OF Cons.prems] by blast
  let ?g = "g\<lparr>gr_filter := Some (f\<lparr>fg_filter := fl\<rparr>)\<rparr>" and ?f = "f\<lparr>fg_filter := fl\<rparr>"
  have "filter_ok I ?g" "gr_filter ?g = Some ?f" using Cons.prems 1(2) by (simp_all add: filter_ok_def)
  from Cons.IH [OF this, of "if err \<noteq> None then False else r" w1] 1 show ?case by (auto split: if_splits)
qed

lemma Warmup_run:
  assumes "filter_ok I g" and "gr_filter g = Some f" and "\<not> fg_ready f"
  shows "\<exists>g' w'. Warmup keys g w = Some (g', w') \<and> filter_ok I g' \<and> (\<forall>k \<in> set keys. filterRejects k g' = Some False)"
proof -
  obtain ready fl w' where 1: "warmup_loop warmup_load keys True (g, w) = Some (ready, g\<lparr>gr_filter := Some (f\<lparr>fg_filter := fl\<rparr>)\<rparr>, w')"
    "I fl" "ready \<Longrightarrow> \<forall>k \<in> set keys. f_Contains (fg_ops f) k fl = Some True"
    using warmup_loop_run [OF assms(1,2), of keys True w] by blast
  then show ?thesis
    using assms by (cases ready) (simp_all add: Warmup_def filter_ok_def filterRejects_def gate_rejects_def warmup_done_def)
qed

section \<open>Properties\<close>

text \<open>
  C14. \<open>Invalidate\<close> removes the key, and nothing else, from both local caches and asks every other
  node of the pool once to do the same, also when some of them fail.
\<close>

theorem group_Invalidate_everywhere:
  assumes "caches_ok g" and "gr_peers g = Some pool" and "visits_all order pool"
  shows "\<exists>g' w' hs. Invalidate t order key g w = Some (g', w') \<and> caches_ok g'
    \<and> active_view g' = (active_view g)(key := None) \<and> stale_view g' = (stale_view g)(key := None)
    \<and> set hs = {h. \<exists>peer. peer \<noteq> p_self pool \<and> p_httpGetters pool peer = Some h}
    \<and> length hs = card (dom (p_httpGetters pool) - {p_self pool})
    \<and> w_ext w' = fold (\<lambda>h x. snd (getter_Invalidate t h \<lparr>rq_Group = gr_name g, rq_Key = key, rq_Delta = 0\<rparr> x)) hs (w_ext w)"
proof -
  obtain g' where g': "invalidateLocal key g = Some g'" "caches_ok g'" "config g' = config g"
    "active_view g' = (active_view g)(key := None)" "stale_view g' = (stale_view g)(key := None)"
    using invalidateLocal_run [OF assms(1)] by blast
  let ?req = "\<lparr>rq_Group = gr_name g, rq_Key = key, rq_Delta = 0\<rparr>"
  have "Invalidate t order key g w = Some (g', w\<lparr>w_ext := snd (broadcastInvalidate t order pool ?req (w_ext w))\<rparr>)"
    using g'(1) assms(2) config_fields(1,4) [OF g'(3)] by (simp add: Invalidate_def split: prod.splits)
  moreover have "set (other_nodes order pool) = {h. \<exists>peer. peer \<noteq> p_self pool \<and> p_httpGetters pool peer = Some h}"
    using assms(3) by (auto simp: other_nodes_def visits_all_def set_map_filter domI split: if_splits)
  moreover have "length (other_nodes order pool) = card (dom (p_httpGetters pool) - {p_self pool})"
  proof -
    let ?f = "\<lambda>peer. if peer = p_self pool then None else p_httpGetters pool peer"
    have "length (other_nodes order pool) = length (filter (\<lambda>peer. ?f peer \<noteq> None) order)"
      unfolding other_nodes_def List.map_filter_def by (simp add: o_def)
    also have "\<dots> = card (set (filter (\<lambda>peer. ?f peer \<noteq> None) order))"
      using assms(3) by (intro distinct_card [symmetric]) (simp add: visits_all_def)
    also have "set (filter (\<lambda>peer. ?f peer \<noteq> None) order) = dom (p_httpGetters pool) - {p_self pool}"
      using assms(3) by (auto simp: visits_all_def)
    finally show ?thesis .
  qed
  ultimately show ?thesis using g'
    by (intro exI [of _ g'] exI [of _ "w\<lparr>w_ext := snd (broadcastInvalidate t order pool ?req (w_ext w))\<rparr>"] exI [of _ "other_nodes order pool"])
      (simp add: broadcastInvalidate_asks_all)
qed

text \<open>A network that is down, and counts the attempts.\<close>

definition dead_network :: "nat Transport" where
  "dead_network = \<lparr>t_marshal_request = (\<lambda>r. Inr (rq_Key r)), t_unmarshal_response = (\<lambda>_. Inl ''no data''),
     t_new_request = (\<lambda>_. None), t_do = (\<lambda>_ _ n. (DoError ''connection refused'', Suc n))\<rparr>"

theorem group_Invalidate_everywhere_witness:
  "\<exists>g' w'. Invalidate dead_network [''http://b''] ''Tom'' peered_group demo_world = Some (g', w') \<and> w_ext w' = 1
     \<and> active_view g' ''Tom'' = None"
proof -
  have pool: "gr_peers peered_group = Some demo_pool" by (simp add: peered_group_def)
  have get: "p_httpGetters demo_pool k = (if k = ''http://b'' then Some \<lparr>baseURL = ''http://b/_goCache/''\<rparr> else None)"
    and self: "p_self demo_pool = ''http://a''" for k
    by (auto simp: demo_pool_def NewHTTPPool_def defaultBasePath_def)
  then have d: "dom (p_httpGetters demo_pool) = {''http://b''}" by (auto split: if_splits)
  have v: "visits_all [''http://b''] demo_pool" using d by (simp add: visits_all_def)
  have ok: "caches_ok peered_group" using peered_ok(1) by (simp add: group_ok_def)
  have step: "snd (getter_Invalidate dead_network h r n) = Suc n" for h r n
    by (simp add: getter_Invalidate_def doProtoRequest_def dead_network_def Let_def)
  have one: "length hs = 1 \<Longrightarrow> fold (\<lambda>h x. snd (getter_Invalidate dead_network h r x)) hs 0 = 1" for hs r
    by (auto simp: step length_Suc_conv)
  obtain g' w' hs where "Invalidate dead_network [''http://b''] ''Tom'' peered_group demo_world = Some (g', w')"
    "active_view g' = (active_view peered_group)(''Tom'' := None)" "length hs = card (dom (p_httpGetters demo_pool) - {p_self demo_pool})"
    "w_ext w' = fold (\<lambda>h x. snd (getter_Invalidate dead_network h \<lparr>rq_Group = gr_name peered_group, rq_Key = ''Tom'', rq_Delta = 0\<rparr> x)) hs (w_ext demo_world)"
    using group_Invalidate_everywhere [OF ok pool v, of dead_network "''Tom''" demo_world] by blast
  then show ?thesis using one by (simp add: d self demo_world_def)
qed

text \<open>
  C15. A durable increment is read back: when the backing store has applied it, \<open>Increment\<close> returns
  its number, and until the TTL has passed every \<open>Get\<close> returns the decimal text of that number
  without asking the backing store; when the backing store fails, the error is returned and the
  group is unchanged.
\<close>

theorem group_durable_increment:
  assumes "group_ok I g" and "key \<noteq> []" and "gr_mainCache g \<noteq> None" and "gr_incrementer g = Some inc"
    and "serves_locally g key" and "ttl_config g"
  shows "(\<forall>err x. inc key delta (w_ext w) = (Inl err, x) \<longrightarrow>
      group_Increment t None None key delta g w = Some (Inl err, g, w\<lparr>w_ext := x\<rparr>))
    \<and> (\<forall>n x. inc key delta (w_ext w) = (Inr n, x) \<and> group_fits g key (bytes_view (FormatInt n)) \<longrightarrow>
      (\<exists>g' w' ttl. group_Increment t None None key delta g w = Some (Inr n, g', w') \<and> w_ext w' = x \<and> ttl_allowed g ttl
        \<and> (\<forall>t' e s w2. \<not> expired (w_clock w2 (w_ticks w2 + 2)) (expiry_of (w_clock w (w_ticks w)) ttl) \<longrightarrow>
          (\<exists>g2 w3. group_Get t' e s key g' w2 = Some (Inr (bytes_view (FormatInt n)), g2, w3) \<and> w_ext w3 = w_ext w2))))"
proof (intro conjI allI impI)
  fix err x
  assume "inc key delta (w_ext w) = (Inl err, x)"
  then show "group_Increment t None None key delta g w = Some (Inl err, g, w\<lparr>w_ext := x\<rparr>)"
    using assms(2-4) group_Increment_local [OF assms(5)] by (auto simp: incrementLocally_def)
next
  fix n x
  assume h: "inc key delta (w_ext w) = (Inr n, x) \<and> group_fits g key (bytes_view (FormatInt n))"
  then obtain g' w' ttl where g': "incrementLocally None key delta g w = Some (Inr n, g', w')" "w_ext w' = x" "ttl_allowed g ttl"
    "kept I g key (bytes_view (FormatInt n)) ttl (w_clock w (w_ticks w)) (get_time w) g'"
    using durable_increment_run [OF assms(1-4) _ assms(6), of delta w n x] by (auto simp: add_time_def)
  have "\<exists>g2 w3. group_Get t' e s key g' w2 = Some (Inr (bytes_view (FormatInt n)), g2, w3) \<and> w_ext w3 = w_ext w2"
    if "\<not> expired (w_clock w2 (w_ticks w2 + 2)) (expiry_of (w_clock w (w_ticks w)) ttl)" for t' e s w2
    using group_Get_hit [of g' key w2 "bytes_view (FormatInt n)" t' e s] g'(4) that assms(2)
    by (auto simp: kept_def group_ok_def simp del: expired_expiry_of)
  then show "\<exists>g' w' ttl. group_Increment t None None key delta g w = Some (Inr n, g', w') \<and> w_ext w' = x \<and> ttl_allowed g ttl
      \<and> (\<forall>t' e s w2. \<not> expired (w_clock w2 (w_ticks w2 + 2)) (expiry_of (w_clock w (w_ticks w)) ttl) \<longrightarrow>
        (\<exists>g2 w3. group_Get t' e s key g' w2 = Some (Inr (bytes_view (FormatInt n)), g2, w3) \<and> w_ext w3 = w_ext w2))"
    using g'(1-3) group_Increment_local [OF assms(5)] by (intro exI [of _ g'] exI [of _ w'] exI [of _ ttl]) simp
qed

text \<open>The demo group with a counter behind it.\<close>

definition counting_group :: "(BloomFilter, nat) Group" where
  "counting_group = demo_group\<lparr>gr_incrementer := Some (\<lambda>key delta n. (Inr (int n + delta), n + nat delta))\<rparr>"

lemma counting_ok:
  "group_ok (\<lambda>_. True) counting_group" "gr_mainCache counting_group \<noteq> None" "serves_locally counting_group ''n''"
  "ttl_config counting_group" "group_fits counting_group ''n'' (bytes_view (FormatInt 5))" "FormatInt 5 = ''5''"
  "\<exists>inc. gr_incrementer counting_group = Some inc \<and> inc ''n'' 5 (w_ext demo_world) = (Inr 5, 5)"
proof -
  show five: "FormatInt 5 = ''5''" by code_simp
  show "group_ok (\<lambda>_. True) counting_group" "gr_mainCache counting_group \<noteq> None" "serves_locally counting_group ''n''"
    "ttl_config counting_group" "group_fits counting_group ''n'' (bytes_view (FormatInt 5))"
    using demo_ok(1,5,6) demo_ok(4) [of "''n''" "bytes_view ''5''"]
    by (simp_all add: counting_group_def group_ok_def caches_ok_def group_caches_def filter_ok_def serves_locally_def
        ttl_config_def group_fits_def demo_group_def five item_cost_def ByteView_Len_def)
  show "\<exists>inc. gr_incrementer counting_group = Some inc \<and> inc ''n'' 5 (w_ext demo_world) = (Inr 5, 5)"
    by (simp add: counting_group_def demo_world_def)
qed

theorem group_durable_increment_witness:
  "\<exists>g' w' g2 w3. group_Increment no_transport None None ''n'' 5 counting_group demo_world = Some (Inr 5, g', w') \<and> w_ext w' = 5
     \<and> group_Get no_transport None Lead ''n'' g' (demo_world\<lparr>w_ticks := 60\<rparr>) = Some (Inr (bytes_view ''5''), g2, w3) \<and> w_ext w3 = 0"
proof -
  note c = counting_ok(1-5) and five = counting_ok(6)
  obtain inc where inc: "gr_incrementer counting_group = Some inc" "inc ''n'' 5 (w_ext demo_world) = (Inr 5, 5)"
    using counting_ok(7) by blast
  obtain g' w' ttl where g': "group_Increment no_transport None None ''n'' 5 counting_group demo_world = Some (Inr 5, g', w')"
    "w_ext w' = 5" "ttl_allowed counting_group ttl"
    "\<And>w2. \<not> expired (w_clock w2 (w_ticks w2 + 2)) (expiry_of (w_clock demo_world (w_ticks demo_world)) ttl) \<Longrightarrow>
      \<exists>g2 w3. group_Get no_transport None Lead ''n'' g' w2 = Some (Inr (bytes_view (FormatInt 5)), g2, w3) \<and> w_ext w3 = w_ext w2"
    using group_durable_increment [OF c(1) _ c(2) inc(1) c(3,4), of 5 demo_world no_transport] inc(2) c(5) by auto
  have "90 \<le> ttl" using g'(3) by (simp add: ttl_allowed_def counting_group_def demo_group_def)
  then show ?thesis using g'(1,2) g'(4) [of "demo_world\<lparr>w_ticks := 60\<rparr>"] by (simp add: demo_world_def five)
qed

text \<open>
  C10. A refresh never hides a known key: whatever the getter answers during a tick of the refresh
  goroutine, afterwards no warm-up key is rejected by the filter. A reload that fails leaves the
  gate open rather than the filter incomplete.
\<close>

theorem refresh_never_rejects_warm_keys:
  assumes "gr_filter g = Some f" and "f_Reset (fg_ops f) = Some reset"
    and "resettable_filter I (f_Add (fg_ops f)) (f_Contains (fg_ops f)) reset" and "I (fg_filter f)"
    and "key \<in> set (fg_warmupKeys f)"
  shows "\<exists>g' w'. refresh_tick g w = Some (g', w') \<and> filter_ok I g' \<and> filterRejects key g' = Some False"
proof -
  let ?f = "gate_reset f" and ?g = "g\<lparr>gr_filter := Some (gate_reset f)\<rparr>"
  have mem: "membership_filter I (f_Add (fg_ops f)) (f_Contains (fg_ops f))"
    using assms(3) by (simp add: resettable_filter_def)
  have "fg_ops ?f = fg_ops f" "\<not> fg_ready ?f" "I (fg_filter ?f)"
    using assms(2,4) resettable_filter.reset_ok [OF assms(3)] by (simp_all add: gate_reset_def)
  then have "filter_ok I ?g" "gr_filter ?g = Some ?f" "\<not> fg_ready ?f" using mem by (simp_all add: filter_ok_def)
  from Warmup_run [OF this, of "keysForRefresh f" w] show ?thesis
    using assms(1,5) by (auto simp: refresh_tick_def keysForRefresh_def)
qed

theorem refresh_never_rejects_warm_keys_witness:
  "\<exists>g' w'. refresh_tick (demo_group\<lparr>gr_filter := map_option (warmup_done [''Tom'']) (newFilterGate (Some (bloom_ops, bloom_New 1000 6)))\<rparr>) demo_world
     = Some (g', w') \<and> filterRejects ''Tom'' g' = Some False"
proof -
  let ?f = "warmup_done [''Tom''] \<lparr>fg_ops = bloom_ops, fg_filter = bloom_New 1000 6, fg_ready = False, fg_warmupKeys = [],
    fg_refreshStop = None, fg_stopped = [], fg_nextStop = 0\<rparr>"
  have "bloom_ok (bloom_New 1000 6)" by (rule bloom_New_ok) simp_all
  then show ?thesis
    using refresh_never_rejects_warm_keys [of "demo_group\<lparr>gr_filter := Some ?f\<rparr>" ?f bloom_Reset bloom_ok "''Tom''" demo_world]
      bloom.resettable_filter_axioms
    by (auto simp: newFilterGate_def warmup_done_def bloom_ops_def)
qed

end
