(* ===== verification/Peer_Server.thy ===== *)
theory Peer_Server
  imports Group_Config Group_Peers
begin

text \<open>
  The server side of \<^verbatim>\<open>http.go\<close>: how a node answers the requests of its peers. The protobuf
  functions of this side are the fields of \<open>Codec\<close>. A request carries a path, a method and a body,
  which may fail to be read; a response is a status code with a body. The handler works on the
  node: its registry of groups and its world.
\<close>

section \<open>Model\<close>

record Codec =
  c_unmarshal_request :: "bytes \<Rightarrow> string + pbRequest"
  c_marshal_response :: "pbResponse \<Rightarrow> string + bytes"

record peerRequest =
  pr_path :: string
  pr_method :: string
  pr_body :: "string + bytes"

type_synonym http_response = "int \<times> bytes"

abbreviation StatusBadRequest :: int where "StatusBadRequest \<equiv> 400"
abbreviation StatusNotFound :: int where "StatusNotFound \<equiv> 404"
abbreviation StatusMethodNotAllowed :: int where "StatusMethodNotAllowed \<equiv> 405"
abbreviation StatusInternalServerError :: int where "StatusInternalServerError \<equiv> 500"

text \<open>\<open>http.Error\<close> ends the message with a newline.\<close>

definition http_Error :: "string \<Rightarrow> int \<Rightarrow> http_response" where
  "http_Error msg code = (code, msg @ [CHR 0x0A])"

definition defaultRPCPath :: string where
  "defaultRPCPath = ''/_goCache/get''"

definition defaultIncrementPath :: string where
  "defaultIncrementPath = ''/_goCache/increment''"

definition defaultInvalidatePath :: string where
  "defaultInvalidatePath = ''/_goCache/invalidate''"

definition writeProtoResponse :: "Codec \<Rightarrow> int \<Rightarrow> string \<Rightarrow> bytes \<Rightarrow> bool \<Rightarrow> http_response" where
  "writeProtoResponse codec code errMsg value notFound =
     (let resp = \<lparr>rs_Value = value, rs_Code = code, rs_ErrMsg = errMsg, rs_NotFound = notFound\<rparr>
      in case c_marshal_response codec resp of
           Inl err \<Rightarrow> http_Error ''failed to marshal response'' StatusInternalServerError
         | Inr data \<Rightarrow> (StatusOK, data))"

definition classifyPeerGetError :: "go_error option \<Rightarrow> int \<times> bool" where
  "classifyPeerGetError err = (case err of
     None \<Rightarrow> (0, False)
   | Some err \<Rightarrow>
       if errors_Is err ErrNotFound then (StatusNotFound, True)
       else if errors_Is err ErrFilterNotFound then (StatusNotFound, False)
       else
         let msg = Error err
         in if msg = Error ErrFilterNotFound \<or> Contains msg (Error ErrFilterNotFound) then (StatusNotFound, False)
            else (StatusInternalServerError, False))"

text \<open>\<open>ctxErr\<close> is what the context of the request reports when a method asks it.\<close>

definition ServeHTTP ::
  "Codec \<Rightarrow> 'x Transport \<Rightarrow> go_error option \<Rightarrow> ('f, 'x) schedule \<Rightarrow> peerRequest \<Rightarrow> ('f, 'x) registry \<Rightarrow> 'x world
    \<Rightarrow> (http_response \<times> ('f, 'x) registry \<times> 'x world) option" where
  "ServeHTTP codec t ctxErr sched r groups w =
     (let w = w_count IncPeerHTTPRequests w;
          reject = (\<lambda>code msg. Some (writeProtoResponse codec code msg [] False, groups, w))
      in
      if pr_path r \<noteq> defaultRPCPath \<and> pr_path r \<noteq> defaultInvalidatePath \<and> pr_path r \<noteq> defaultIncrementPath
      then reject StatusBadRequest ''bad request path''
      else if pr_method r \<noteq> ''POST'' then reject StatusMethodNotAllowed ''method not allowed''
      else case pr_body r of
        Inl err \<Rightarrow> reject StatusBadRequest ''read body failed''
      | Inr body \<Rightarrow>
          (case c_unmarshal_request codec body of
             Inl err \<Rightarrow> reject StatusBadRequest ''failed to unmarshal request''
           | Inr req \<Rightarrow>
               (case GetGroup (rq_Group req) groups of
                  None \<Rightarrow> reject StatusNotFound (''group '' @ rq_Group req @ '' not found'')
                | Some g \<Rightarrow>
                    if pr_path r = defaultInvalidatePath then do {
                      g \<leftarrow> invalidateLocal (rq_Key req) g;
                      Some (writeProtoResponse codec 0 [] [] False, groups(rq_Group req \<mapsto> g), w)
                    }
                    else if pr_path r = defaultIncrementPath then do {
                      (res, g, w) \<leftarrow> incrementLocally ctxErr (rq_Key req) (rq_Delta req) g w;
                      Some (case res of
                          Inl err \<Rightarrow> writeProtoResponse codec StatusInternalServerError (Error err) [] False
                        | Inr nxt \<Rightarrow> writeProtoResponse codec 0 [] (FormatInt nxt) False,
                        groups(rq_Group req \<mapsto> g), w)
                    }
                    else do {
                      (res, g, w) \<leftarrow> group_Get t ctxErr sched (rq_Key req) g w;
                      Some (case res of
                          Inl err \<Rightarrow> (case classifyPeerGetError (Some err) of
                            (code, notFound) \<Rightarrow> writeProtoResponse codec code (Error err) [] notFound)
                        | Inr view \<Rightarrow> writeProtoResponse codec 0 [] (ByteView_ByteSlice view) False,
                        groups(rq_Group req \<mapsto> g), w)
                    })))"

section \<open>Lemmas\<close>

text \<open>The paths a client builds are the ones the server knows.\<close>

lemma endpoint_paths:
  "rpcPath ''get'' (NewHTTPPool self) = defaultRPCPath" "rpcPath ''increment'' (NewHTTPPool self) = defaultIncrementPath"
  "rpcPath ''invalidate'' (NewHTTPPool self) = defaultInvalidatePath"
  by (simp_all add: rpcPath_def NewHTTPPool_def defaultBasePath_def defaultRPCPath_def defaultIncrementPath_def defaultInvalidatePath_def)

lemma paths_distinct [simp]:
  "defaultRPCPath \<noteq> defaultInvalidatePath" "defaultRPCPath \<noteq> defaultIncrementPath" "defaultIncrementPath \<noteq> defaultInvalidatePath"
  by (simp_all add: defaultRPCPath_def defaultIncrementPath_def defaultInvalidatePath_def)

text \<open>The messages that answer a \<open>get\<close> and an \<open>increment\<close>.\<close>

definition get_response :: "ByteView result \<Rightarrow> pbResponse" where
  "get_response r = (case r of
     Inr v \<Rightarrow> \<lparr>rs_Value = bv_b v, rs_Code = 0, rs_ErrMsg = [], rs_NotFound = False\<rparr>
   | Inl err \<Rightarrow> \<lparr>rs_Value = [], rs_Code = fst (classifyPeerGetError (Some err)), rs_ErrMsg = Error err,
                rs_NotFound = errors_Is err ErrNotFound\<rparr>)"

definition increment_response :: "int result \<Rightarrow> pbResponse" where
  "increment_response r = (case r of
     Inr n \<Rightarrow> \<lparr>rs_Value = FormatInt n, rs_Code = 0, rs_ErrMsg = [], rs_NotFound = False\<rparr>
   | Inl err \<Rightarrow> \<lparr>rs_Value = [], rs_Code = StatusInternalServerError, rs_ErrMsg = Error err, rs_NotFound = False\<rparr>)"

lemma classify_cases:
  "snd (classifyPeerGetError (Some err)) = errors_Is err ErrNotFound" "fst (classifyPeerGetError (Some err)) \<noteq> 0"
  by (simp_all add: classifyPeerGetError_def Let_def)

lemma serve_get:
  assumes "c_unmarshal_request codec body = Inr rq" and "groups (rq_Group rq) = Some g"
    and "group_Get t ctxErr sched (rq_Key rq) g (w_count IncPeerHTTPRequests w) = Some (r, g', w')"
    and "c_marshal_response codec (get_response r) = Inr data"
  shows "ServeHTTP codec t ctxErr sched \<lparr>pr_path = defaultRPCPath, pr_method = ''POST'', pr_body = Inr body\<rparr> groups w =
    Some ((StatusOK, data), groups(rq_Group rq \<mapsto> g'), w')"
  using assms
  by (cases r) (auto simp: ServeHTTP_def GetGroup_def writeProtoResponse_def get_response_def case_prod_beta classify_cases(1))

lemma serve_increment:
  assumes "c_unmarshal_request codec body = Inr rq" and "groups (rq_Group rq) = Some g"
    and "incrementLocally ctxErr (rq_Key rq) (rq_Delta rq) g (w_count IncPeerHTTPRequests w) = Some (r, g', w')"
    and "c_marshal_response codec (increment_response r) = Inr data"
  shows "ServeHTTP codec t ctxErr sched \<lparr>pr_path = defaultIncrementPath, pr_method = ''POST'', pr_body = Inr body\<rparr> groups w =
    Some ((StatusOK, data), groups(rq_Group rq \<mapsto> g'), w')"
  using assms by (cases r) (auto simp: ServeHTTP_def GetGroup_def writeProtoResponse_def increment_response_def)

text \<open>A request of the client reaches the server, whose response comes back.\<close>

definition wire ::
  "Codec \<Rightarrow> 'x Transport \<Rightarrow> string \<Rightarrow> pbRequest \<Rightarrow> pbResponse \<Rightarrow> http_response \<Rightarrow> bytes \<Rightarrow> 'x \<Rightarrow> 'x \<Rightarrow> bool" where
  "wire codec t endpoint rq rs resp body x x' \<longleftrightarrow>
     t_marshal_request t rq = Inr body \<and> c_unmarshal_request codec body = Inr rq
     \<and> t_new_request t endpoint = None \<and> (\<exists>status. t_do t endpoint body x = (Reply (fst resp) status (Inr (snd resp)), x'))
     \<and> (\<exists>data. c_marshal_response codec rs = Inr data \<and> t_unmarshal_response t data = Inr rs)"

section \<open>Properties\<close>

text \<open>
  C7. A remote \<open>get\<close> is faithful: over a network and a codec that deliver the two messages, the
  client sees exactly the value of the owner's \<open>Get\<close>, sees \<open>ErrNotFound\<close> exactly when the owner
  failed with it, and sees any other failure as a plain error that carries the owner's message and
  makes the caller fall back to its own getter.
\<close>

theorem peer_get_roundtrip:
  assumes "wire codec t (baseURL h @ ''get'') rq (get_response r) resp body x x'"
    and "ServeHTTP codec t' ctxErr sched \<lparr>pr_path = defaultRPCPath, pr_method = ''POST'', pr_body = Inr body\<rparr> groups w = Some (resp, groups', w')"
    and "groups (rq_Group rq) = Some g"
    and "group_Get t' ctxErr sched (rq_Key rq) g (w_count IncPeerHTTPRequests w) = Some (r, g', w1)"
  shows "getter_Get t h rq empty_response x = ((case r of
      Inr v \<Rightarrow> None
    | Inl err \<Rightarrow> Some (if errors_Is err ErrNotFound then ErrNotFound
        else Errorf (''server error code='' @ FormatInt (fst (classifyPeerGetError (Some err))) @ '': '' @ Error err)),
      get_response r), x')
    \<and> (\<forall>v. r = Inr v \<longrightarrow> rs_Value (get_response r) = bv_b v) \<and> groups' = groups(rq_Group rq \<mapsto> g')"
proof -
  obtain status data where m: "t_marshal_request t rq = Inr body" "c_unmarshal_request codec body = Inr rq"
    "t_new_request t (baseURL h @ ''get'') = None" "t_do t (baseURL h @ ''get'') body x = (Reply (fst resp) status (Inr (snd resp)), x')"
    "c_marshal_response codec (get_response r) = Inr data" "t_unmarshal_response t data = Inr (get_response r)"
    using assms(1) by (auto simp: wire_def)
  have s: "resp = (StatusOK, data)" "groups' = groups(rq_Group rq \<mapsto> g')"
    using assms(2) serve_get [where groups = groups, OF m(2) assms(3,4) m(5)] by auto
  have "getter_Get t h rq empty_response x = ((if rs_NotFound (get_response r) then Some ErrNotFound
      else if rs_Code (get_response r) \<noteq> 0
      then Some (Errorf (''server error code='' @ FormatInt (rs_Code (get_response r)) @ '': '' @ rs_ErrMsg (get_response r)))
      else None, get_response r), x')"
    using m s by (simp add: getter_Get_def doProtoRequest_def Let_def)
  then show ?thesis using s(2) classify_cases(2) by (cases r) (simp_all add: get_response_def)
qed

text \<open>A codec and a network that carry one request and one response.\<close>

definition one_codec :: "pbRequest \<Rightarrow> Codec" where
  "one_codec rq = \<lparr>c_unmarshal_request = (\<lambda>_. Inr rq), c_marshal_response = (\<lambda>rs. Inr (rs_Value rs))\<rparr>"

definition one_wire :: "pbResponse \<Rightarrow> nat Transport" where
  "one_wire rs = \<lparr>t_marshal_request = (\<lambda>rq. Inr (rq_Key rq)), t_unmarshal_response = (\<lambda>_. Inr rs),
     t_new_request = (\<lambda>_. None), t_do = (\<lambda>_ _ n. (Reply 200 ''200 OK'' (Inr (rs_Value rs)), Suc n))\<rparr>"

lemma one_wire_ok: "wire (one_codec rq) (one_wire rs) endpoint rq rs (StatusOK, rs_Value rs) (rq_Key rq) n (Suc n)"
  by (simp add: wire_def one_codec_def one_wire_def StatusOK_def)

theorem peer_get_roundtrip_witness:
  "getter_Get (one_wire (get_response (Inr (bytes_view ''630'')))) \<lparr>baseURL = ''http://b/_goCache/''\<rparr>
     \<lparr>rq_Group = ''scores'', rq_Key = ''Tom'', rq_Delta = 0\<rparr> empty_response 0 =
   ((None, get_response (Inr (bytes_view ''630''))), 1)"
proof -
  let ?rq = "\<lparr>rq_Group = ''scores'', rq_Key = ''Tom'', rq_Delta = 0\<rparr>" and ?r = "Inr (bytes_view ''630'')"
  let ?w = "w_count IncPeerHTTPRequests demo_world" and ?groups = "[''scores'' \<mapsto> demo_group]"
  have fits: "group_fits demo_group ''Tom'' (bytes_view ''630'')" by (rule demo_ok) (simp add: item_cost_def ByteView_Len_def)
  have get: "gr_getter demo_group ''Tom'' (w_ext ?w) = (Inr ''630'', 1)"
    by (simp add: demo_group_def demo_world_def demo_getter_def)
  have main: "gr_mainCache demo_group \<noteq> None" by (simp add: demo_group_def)
  obtain g' w' where own: "group_Get no_transport None Lead ''Tom'' demo_group ?w = Some (?r, g', w')"
    using read_through_run [OF demo_ok(1) _ main _ demo_ok(5,7) get demo_ok(6) fits, of no_transport "\<lambda>_. True"]
    by (auto simp: demo_ok(2))
  have "ServeHTTP (one_codec ?rq) no_transport None Lead \<lparr>pr_path = defaultRPCPath, pr_method = ''POST'', pr_body = Inr ''Tom''\<rparr> ?groups demo_world =
      Some ((StatusOK, ''630''), ?groups(''scores'' \<mapsto> g'), w')"
    using serve_get [of "one_codec ?rq" "''Tom''" ?rq ?groups demo_group no_transport None Lead demo_world ?r g' w' "''630''"] own
    by (simp add: one_codec_def get_response_def)
  then show ?thesis
    using peer_get_roundtrip [of "one_codec ?rq" "one_wire (get_response ?r)" "\<lparr>baseURL = ''http://b/_goCache/''\<rparr>" ?rq ?r
        "(StatusOK, ''630'')" "''Tom''" 0 1 no_transport None Lead ?groups demo_world _ w' demo_group g' w'] own
      one_wire_ok [of ?rq "get_response ?r"]
    by (simp add: get_response_def)
qed

text \<open>
  C31. A remote increment returns the owner's number; of a failure only the message survives: the
  caller's error is a fresh one that names the status 500 and carries the text of the owner's error,
  and \<open>errors.Is\<close> no longer recognises \<open>ErrNonNumericValue\<close> in it.
\<close>

theorem peer_increment_roundtrip:
  assumes "wire codec t (baseURL h @ ''increment'') \<lparr>rq_Group = gr_name g0, rq_Key = key, rq_Delta = delta\<rparr> (increment_response r) resp body (w_ext w0) x'"
    and "ServeHTTP codec t' ctxErr sched \<lparr>pr_path = defaultIncrementPath, pr_method = ''POST'', pr_body = Inr body\<rparr> groups w = Some (resp, groups', w')"
    and "groups (gr_name g0) = Some g"
    and "incrementLocally ctxErr key delta g (w_count IncPeerHTTPRequests w) = Some (r, g', w1)"
    and "\<forall>n. r = Inr n \<longrightarrow> in_i64 n"
  shows "\<exists>r0. incrementFromPeer t (Some h) key delta g0 w0 = Some (r0, g0, w0\<lparr>w_ext := x'\<rparr>)
    \<and> (\<forall>n. r = Inr n \<longrightarrow> r0 = Inr n)
    \<and> (\<forall>err. r = Inl err \<longrightarrow> 
        r0 = Inl (Errorf (''server error code='' @ FormatInt StatusInternalServerError @ '': '' @ Error err))
        \<and> (\<forall>e. r0 = Inl e \<longrightarrow> \<not> errors_Is e ErrNonNumericValue))"
proof -
  let ?rq = "\<lparr>rq_Group = gr_name g0, rq_Key = key, rq_Delta = delta\<rparr>"
  obtain status data where m: "t_marshal_request t ?rq = Inr body" "c_unmarshal_request codec body = Inr ?rq"
    "t_new_request t (baseURL h @ ''increment'') = None"
    "t_do t (baseURL h @ ''increment'') body (w_ext w0) = (Reply (fst resp) status (Inr (snd resp)), x')"
    "c_marshal_response codec (increment_response r) = Inr data" "t_unmarshal_response t data = Inr (increment_response r)"
    using assms(1) by (auto simp: wire_def)
  have s: "resp = (StatusOK, data)"
    using assms(2) serve_increment [OF m(2) _ _ m(5), of groups g ctxErr w g' w1] assms(3,4) by auto
  have "getter_Increment t h ?rq empty_response (w_ext w0) = ((if rs_NotFound (increment_response r) then Some ErrNotFound
      else if rs_Code (increment_response r) \<noteq> 0
      then Some (Errorf (''server error code='' @ FormatInt (rs_Code (increment_response r)) @ '': '' @ rs_ErrMsg (increment_response r)))
      else None, increment_response r), x')"
    using m s by (simp add: getter_Increment_def doProtoRequest_def Let_def)
  then show ?thesis using assms(5)
    by (cases r) (simp_all add: incrementFromPeer_def increment_response_def parseNumericValue_def ParseInt_FormatInt)
qed

theorem peer_increment_roundtrip_witness:
  "incrementFromPeer (one_wire (increment_response (Inl ErrIncrementUnsupported))) (Some \<lparr>baseURL = ''http://b/_goCache/''\<rparr>)
     ''n'' 1 demo_group demo_world =
   Some (Inl (Errorf (''server error code='' @ FormatInt StatusInternalServerError @ '': '' @ Error ErrIncrementUnsupported)),
     demo_group, demo_world\<lparr>w_ext := 1\<rparr>)"
proof -
  let ?rq = "\<lparr>rq_Group = gr_name demo_group, rq_Key = ''n'', rq_Delta = 1\<rparr>" and ?r = "Inl ErrIncrementUnsupported"
  let ?g = "demo_group\<lparr>gr_mainCache := None\<rparr>" and ?w = "w_count IncPeerHTTPRequests demo_world"
  let ?groups = "[gr_name demo_group \<mapsto> ?g]"
  have own: "incrementLocally None ''n'' 1 ?g ?w = Some (?r, ?g, ?w)" by (simp add: incrementLocally_def)
  have srv: "ServeHTTP (one_codec ?rq) no_transport None Lead \<lparr>pr_path = defaultIncrementPath, pr_method = ''POST'', pr_body = Inr ''n''\<rparr> ?groups demo_world =
      Some ((StatusOK, []), ?groups(gr_name demo_group \<mapsto> ?g), ?w)"
    using serve_increment [of "one_codec ?rq" "''n''" ?rq ?groups ?g None demo_world ?r ?g ?w "[]" no_transport Lead] own
    by (simp add: one_codec_def increment_response_def)
  have w: "wire (one_codec ?rq) (one_wire (increment_response ?r)) (baseURL \<lparr>baseURL = ''http://b/_goCache/''\<rparr> @ ''increment'')
      ?rq (increment_response ?r) (StatusOK, []) ''n'' (w_ext demo_world) 1"
    using one_wire_ok [of ?rq "increment_response ?r" _ "w_ext demo_world"] by (simp add: increment_response_def demo_world_def)
  show ?thesis using peer_increment_roundtrip [OF w srv _ own] by auto
qed

end
