(* ===== verification/Server_Config.thy ===== *)
theory Server_Config
  imports Group_Config Group_Writes "HOL-Library.List_Lexorder" "HOL-Library.Char_ord"
begin

text \<open>
  The first half of \<^verbatim>\<open>cmd/cache-server/main.go\<close>: the flags, the addresses, the backing stores and
  the group the server is built from. Redis is not part of the program; its commands are the
  fields of \<open>Redis\<close>. \<open>log.Fatalf\<close> ends the process, which is \<open>None\<close>.

  \<open>strings.ToLower\<close> is exact on ASCII; what it makes of a string with other characters comes from
  the Unicode tables and is the argument \<open>uni\<close>. So is the host that \<open>url.Parse\<close> finds.
\<close>

section \<open>Strings\<close>

definition lower_char :: "char \<Rightarrow> char" where
  "lower_char c = (if of_char c \<ge> (65 :: nat) \<and> of_char c \<le> (90 :: nat) then char_of (of_char c + (32 :: nat)) else c)"

definition ToLower :: "(string \<Rightarrow> string) \<Rightarrow> string \<Rightarrow> string" where
  "ToLower uni s = (if list_all (\<lambda>c. of_char c < (128 :: nat)) s then map lower_char s else uni s)"

definition splitCSV :: "string \<Rightarrow> string list" where
  "splitCSV value =
     (if TrimSpace value = [] then []
      else filter (\<lambda>part. part \<noteq> []) (map TrimSpace (Split value (CHR '',''))))"

section \<open>Backing stores\<close>

definition db :: "string \<rightharpoonup> string" where
  "db = [''Tom'' \<mapsto> ''630'', ''Jack'' \<mapsto> ''589'', ''Sam'' \<mapsto> ''567'']"

text \<open>The outcome of a Redis command: \<open>redis.Nil\<close>, another error, or a result.\<close>

datatype 'a redis_reply = RedisNil | RedisError string | RedisOk 'a

record 'x Redis =
  rd_Ping :: "'x \<Rightarrow> unit redis_reply \<times> 'x"
  rd_Get :: "string \<Rightarrow> 'x \<Rightarrow> string redis_reply \<times> 'x"
  rd_Set :: "string \<Rightarrow> string \<Rightarrow> 'x \<Rightarrow> unit redis_reply \<times> 'x"
  rd_IncrBy :: "string \<Rightarrow> int \<Rightarrow> 'x \<Rightarrow> int redis_reply \<times> 'x"
  rd_Exec :: "(string \<times> string) list \<Rightarrow> 'x \<Rightarrow> unit redis_reply \<times> 'x"

text \<open>The pairs of the pipeline, and the seeding, of which only the effect on Redis remains.\<close>

definition seed_pairs :: "(string \<times> string) list" where
  "seed_pairs = map (\<lambda>i. let v = FormatInt i in (''key'' @ v, v)) [0..100]"

definition seedRedisNumericKeys :: "'x Redis \<Rightarrow> 'x \<Rightarrow> 'x" where
  "seedRedisNumericKeys rdb x = (case rd_Ping rdb x of
     (RedisOk _, x) \<Rightarrow> snd (rd_Exec rdb seed_pairs x)
   | (_, x) \<Rightarrow> x)"

text \<open>\<open>order\<close> is the order in which the range over \<open>db\<close> visits its keys.\<close>

definition defaultWarmupKeys :: "string list \<Rightarrow> string list" where
  "defaultWarmupKeys order = sort order @ map (\<lambda>i. ''key'' @ FormatInt i) [0..100]"

definition syntheticValue :: "string \<Rightarrow> bytes option" where
  "syntheticValue key = (case db key of
     Some v \<Rightarrow> Some v
   | None \<Rightarrow>
       if HasPrefix key ''key'' \<and> length key > length ''key'' then
         let raw = TrimPrefix key ''key''
         in if ParseInt raw \<noteq> None then Some raw else None
       else None)"

definition normalizeBackend :: "(string \<Rightarrow> string) \<Rightarrow> string \<Rightarrow> string" where
  "normalizeBackend uni backend =
     (let backend = ToLower uni (TrimSpace backend) in if backend = [] then ''demo'' else backend)"

text \<open>A client that cannot reach Redis is used all the same; the ping only logs.\<close>

definition newRedisClient :: "'x Redis \<Rightarrow> string \<Rightarrow> 'x \<Rightarrow> 'x" where
  "newRedisClient rdb backend x = (if backend \<noteq> ''synthetic'' then snd (rd_Ping rdb x) else x)"

definition newRedisIncrementer :: "'x Redis \<Rightarrow> string \<Rightarrow> int \<Rightarrow> 'x \<Rightarrow> int result \<times> 'x" where
  "newRedisIncrementer rdb key delta x = (case rd_IncrBy rdb key delta x of
     (RedisOk n, x) \<Rightarrow> (Inr n, x)
   | (RedisError err, x) \<Rightarrow> (Inl (Errorf err), x)
   | (RedisNil, x) \<Rightarrow> (Inl (Errorf ''redis: nil''), x))"

definition getSyntheticValue :: "string \<Rightarrow> bytes result" where
  "getSyntheticValue key = (case syntheticValue key of Some v \<Rightarrow> Inr v | None \<Rightarrow> Inl ErrNotFound)"

definition getDemoValue :: "'x Redis \<Rightarrow> string \<Rightarrow> 'x \<Rightarrow> bytes result \<times> 'x" where
  "getDemoValue rdb key x = (case rd_Get rdb key x of
     (RedisOk v, x) \<Rightarrow> (Inr v, x)
   | (_, x) \<Rightarrow>
       (case db key of
          Some v \<Rightarrow> (Inr v, snd (rd_Set rdb key v x))
        | None \<Rightarrow> (Inl ErrNotFound, x)))"

definition newGroupGetter :: "'x Redis \<Rightarrow> string \<Rightarrow> string \<Rightarrow> 'x \<Rightarrow> bytes result \<times> 'x" where
  "newGroupGetter rdb backend key x =
     (if backend = ''synthetic'' then (getSyntheticValue key, x)
      else if backend \<noteq> ''demo'' then (Inl ErrNotFound, x)
      else getDemoValue rdb key x)"

section \<open>The group\<close>

definition appendStrategyOptions ::
  "(string \<Rightarrow> string) \<Rightarrow> (BloomFilter, 'x) Option option list \<Rightarrow> string \<Rightarrow> uint64 \<Rightarrow> (BloomFilter, 'x) Option option list option" where
  "appendStrategyOptions uni opts strategy shards =
     (let s = ToLower uni strategy in
      if s = ''sharded'' then Some (opts @ [Some (WithShardedCache (ucast shards))])
      else if s = ''unsharded'' then Some opts
      else if s = ''slru'' then Some (opts @ [Some (WithSLRU (f64_round (8 / 10)))])
      else if s = ''sharded-slru'' then Some (opts @ [Some (WithShardedCache (ucast shards)), Some (WithSLRU (f64_round (8 / 10)))])
      else None)"

definition createGroupOptions ::
  "(string \<Rightarrow> string) \<Rightarrow> string \<Rightarrow> uint64 \<Rightarrow> bool \<Rightarrow> int \<Rightarrow> int \<Rightarrow> duration \<Rightarrow> string \<Rightarrow> bool \<Rightarrow> 'x Redis
    \<Rightarrow> (BloomFilter, 'x) Option option list option" where
  "createGroupOptions uni strategy shards enableFilter filterSize filterHashes filterRefresh backend evictionLog rdb =
     (let opts = [];
          opts = (if evictionLog then opts @ [Some (WithOnEvicted True)] else opts);
          opts = (if backend \<noteq> ''synthetic'' then opts @ [Some (WithIncrementer (Some (newRedisIncrementer rdb)))] else opts);
          opts = (if enableFilter
             then let opts = opts @ [Some (WithFilter (Some (bloom_ops, bloom_New filterSize filterHashes)))]
                  in if filterRefresh > 0 then opts @ [Some (WithFilterRefresh filterRefresh)] else opts
             else opts)
      in appendStrategyOptions uni opts strategy shards)"

text \<open>
  The flags, without those of the profiler and the address of Redis, which selects the client. The
  defaults are the values before parsing.
\<close>

record serverFlags =
  fl_strategy :: string
  fl_shards :: uint64
  fl_filter :: bool
  fl_filterSize :: int
  fl_filterHashes :: int
  fl_filterRefresh :: duration
  fl_backend :: string
  fl_cacheBytes :: int
  fl_evictionLog :: bool
  fl_warmupKeys :: string
  fl_selfAddr :: string
  fl_port :: int
  fl_peers :: string
  fl_latencySampleRate :: float64
  fl_api :: bool
  fl_apiAddr :: string

definition default_flags :: serverFlags where
  "default_flags = \<lparr>fl_strategy = ''sharded'', fl_shards = 256, fl_filter = False, fl_filterSize = 1000, fl_filterHashes = 6,
     fl_filterRefresh = 5 * 60 * 1000000000, fl_backend = ''demo'', fl_cacheBytes = 2 * 2 ^ 10, fl_evictionLog = True,
     fl_warmupKeys = [], fl_selfAddr = [], fl_port = 8001, fl_peers = [], fl_latencySampleRate = Fin 1,
     fl_api = False, fl_apiAddr = ''0.0.0.0:9999''\<rparr>"

definition createGroup ::
  "(string \<Rightarrow> string) \<Rightarrow> 'x Redis \<Rightarrow> serverFlags \<Rightarrow> (BloomFilter, 'x) registry \<Rightarrow> 'x world
    \<Rightarrow> ((BloomFilter, 'x) Group \<times> (BloomFilter, 'x) registry \<times> 'x world) option" where
  "createGroup uni rdb fl groups w = do {
     let backend = normalizeBackend uni (fl_backend fl);
     let w = w\<lparr>w_ext := newRedisClient rdb backend (w_ext w)\<rparr>;
     opts \<leftarrow> createGroupOptions uni (fl_strategy fl) (fl_shards fl) (fl_filter fl) (fl_filterSize fl) (fl_filterHashes fl)
       (fl_filterRefresh fl) backend (fl_evictionLog fl) rdb;
     (g, groups) \<leftarrow> NewGroup ''scores'' (fl_cacheBytes fl) (Some (newGroupGetter rdb backend)) opts groups;
     Some (g, groups, w)
   }"

section \<open>Addresses\<close>

definition normalizeHTTPAddr :: "string \<Rightarrow> string" where
  "normalizeHTTPAddr raw =
     (let raw = TrimSpace raw in
      if raw = [] then []
      else if HasPrefix raw ''http://'' \<or> HasPrefix raw ''https://''
      then ''http://'' @ TrimPrefix (TrimPrefix raw ''http://'') ''https://''
      else ''http://'' @ raw)"

definition parsePeerAddrs :: "string \<Rightarrow> string list" where
  "parsePeerAddrs csv =
     (let parts = splitCSV csv in
      if length parts = 0 then [] else filter (\<lambda>a. a \<noteq> []) (map normalizeHTTPAddr parts))"

text \<open>\<open>host\<close> is \<open>url.Parse\<close>: nothing for an error, else the host it finds.\<close>

definition listenAddrFromHTTPAddr :: "(string \<Rightarrow> string option) \<Rightarrow> string \<Rightarrow> string" where
  "listenAddrFromHTTPAddr host httpAddr = (case host httpAddr of
     None \<Rightarrow> httpAddr
   | Some h \<Rightarrow> if h = [] then httpAddr else h)"

definition server_apiAddr :: "serverFlags \<Rightarrow> string" where
  "server_apiAddr fl = ''http://'' @ (if fl_apiAddr fl = [] then ''0.0.0.0:9999'' else fl_apiAddr fl)"

text \<open>The node's own address, and the addresses of all nodes; the demo addresses come in the order of a range over a map.\<close>

definition server_selfAddr :: "serverFlags \<Rightarrow> string" where
  "server_selfAddr fl =
     (if fl_selfAddr fl = [] then ''http://localhost:'' @ FormatInt (fl_port fl) else normalizeHTTPAddr (fl_selfAddr fl))"

definition server_addrs :: "string list \<Rightarrow> serverFlags \<Rightarrow> string list" where
  "server_addrs demo fl =
     (let addrs = parsePeerAddrs (fl_peers fl);
          addrs = (if length addrs = 0 then addrs @ demo else addrs)
      in if server_selfAddr fl \<notin> set addrs then addrs @ [server_selfAddr fl] else addrs)"

definition server_warmupKeys :: "string list \<Rightarrow> serverFlags \<Rightarrow> string list" where
  "server_warmupKeys order fl =
     (let warmupKeys = splitCSV (fl_warmupKeys fl)
      in if fl_filter fl \<and> length warmupKeys = 0 then defaultWarmupKeys order else warmupKeys)"

text \<open>What \<open>startCacheServer\<close> does before it serves the pool.\<close>

definition startCacheServer :: "string \<Rightarrow> string list \<Rightarrow> ('f, 'x) Group \<Rightarrow> ('f, 'x) Group option" where
  "startCacheServer addr addrs gcache =
     (let peers = NewHTTPPool addr;
          peers = Pool_Set addrs peers
      in RegisterPeers (Some peers) gcache)"

text \<open>
  The body of \<open>main\<close> after the flags are parsed, up to the loops of the servers: the sampling rate,
  seeding, the group, its warm-up, and the peers.
\<close>

definition server_start ::
  "(string \<Rightarrow> string) \<Rightarrow> 'x Redis \<Rightarrow> uint64 \<Rightarrow> string list \<Rightarrow> string list \<Rightarrow> serverFlags \<Rightarrow> (BloomFilter, 'x) registry \<Rightarrow> 'x world
    \<Rightarrow> ((BloomFilter, 'x) Group \<times> (BloomFilter, 'x) registry \<times> 'x world) option" where
  "server_start uni rdb unspecified order demo fl groups w = do {
     let w = w_count (SetLatencySampleRate unspecified (fl_latencySampleRate fl)) w;
     let w = (if ToLower uni (TrimSpace (fl_backend fl)) \<noteq> ''synthetic''
              then w\<lparr>w_ext := seedRedisNumericKeys rdb (w_ext w)\<rparr> else w);
     (g, groups, w) \<leftarrow> createGroup uni rdb fl groups w;
     (g, w) \<leftarrow> (if fl_filter fl then Warmup (server_warmupKeys order fl) g w else Some (g, w));
     g \<leftarrow> startCacheServer (server_selfAddr fl) (server_addrs demo fl) g;
     Some (g, groups(''scores'' \<mapsto> g), w)
   }"

section \<open>Lemmas\<close>

lemma db_keys: "dom db = {''Tom'', ''Jack'', ''Sam''}"
  by (auto simp: db_def split: if_splits)

text \<open>The order of the range over \<open>db\<close> does not matter.\<close>

lemma warmup_keys_fixed:
  assumes "distinct order" and "set order = dom db"
  shows "sort order = [''Jack'', ''Sam'', ''Tom'']"
proof (rule sorted_distinct_set_unique)
  show "sorted [''Jack'', ''Sam'', ''Tom'']" by (simp add: list_le_def list_less_def less_char_def)
qed (use assms db_keys in auto)


lemma synthetic_seeded: "in_i64 i \<Longrightarrow> syntheticValue (''key'' @ FormatInt i) = Some (FormatInt i)"
  by (simp add: syntheticValue_def db_def HasPrefix_def TrimPrefix_def ParseInt_FormatInt)

lemma warmup_keys_synthetic:
  assumes "distinct order" and "set order = dom db" and "k \<in> set (defaultWarmupKeys order)"
  shows "\<exists>v. getSyntheticValue k = Inr v"
proof -
  consider "k \<in> dom db" | i where "0 \<le> i" "i \<le> 100" "k = ''key'' @ FormatInt i"
    using assms by (auto simp: defaultWarmupKeys_def)
  then show ?thesis
  proof cases
    case 1
    then show ?thesis by (auto simp: getSyntheticValue_def syntheticValue_def)
  next
    case (2 i)
    then show ?thesis using synthetic_seeded [of i] by (simp add: getSyntheticValue_def in_i64_def)
  qed
qed

lemma gate_filter_inj [simp]:
  "g\<lparr>gr_filter := Some (f\<lparr>fg_filter := a\<rparr>)\<rparr> = g\<lparr>gr_filter := Some (f\<lparr>fg_filter := b\<rparr>)\<rparr> \<longleftrightarrow> a = b"
  by (cases g; cases f) simp

text \<open>A warm-up whose loads all succeed without touching the world opens the gate.\<close>

lemma warmup_load_ok:
  assumes "filter_ok I g" and "gr_filter g = Some f" and "gr_getter g key (w_ext w) = (Inr v, w_ext w)"
  shows "\<exists>fl. warmup_load key (g, w) = Some (None, g\<lparr>gr_filter := Some (f\<lparr>fg_filter := fl\<rparr>)\<rparr>, w)"
  using warmup_load_run [OF assms(1,2), of key w] assms(3)
  by (auto simp: warmup_load_def getLocallyOnlyForWarmUp_def call_getter_def split: Option.bind_splits)

lemma warmup_loop_ok:
  assumes "filter_ok I g" and "gr_filter g = Some f" and "\<forall>k \<in> set keys. \<exists>v. gr_getter g k (w_ext w) = (Inr v, w_ext w)"
  shows "\<exists>fl. warmup_loop warmup_load keys True (g, w) = Some (True, g\<lparr>gr_filter := Some (f\<lparr>fg_filter := fl\<rparr>)\<rparr>, w)"
  using assms
proof (induction keys arbitrary: g f)
  case Nil
  then show ?case by (intro exI [of _ "fg_filter f"]) (cases g, simp)
next
  case (Cons key keys)
  obtain fl where 1: "warmup_load key (g, w) = Some (None, g\<lparr>gr_filter := Some (f\<lparr>fg_filter := fl\<rparr>)\<rparr>, w)"
    using warmup_load_ok [OF Cons.prems(1,2), of key w] Cons.prems(3) by auto
  let ?g = "g\<lparr>gr_filter := Some (f\<lparr>fg_filter := fl\<rparr>)\<rparr>" and ?f = "f\<lparr>fg_filter := fl\<rparr>"
  have "filter_ok I ?g"
    using warmup_load_run [OF Cons.prems(1,2), of key w] 1 Cons.prems(1,2) by (auto simp: filter_ok_def)
  from Cons.IH [OF this, of ?f] Cons.prems(3) 1 show ?case by auto
qed

lemma Warmup_ok:
  assumes "filter_ok I g" and "gr_filter g = Some f" and "\<forall>k \<in> set keys. \<exists>v. gr_getter g k (w_ext w) = (Inr v, w_ext w)"
  shows "\<exists>fl. Warmup keys g w = Some (g\<lparr>gr_filter := Some (warmup_done keys (f\<lparr>fg_filter := fl\<rparr>))\<rparr>, w)
    \<and> I fl \<and> (\<forall>k \<in> set keys. f_Contains (fg_ops f) k fl = Some True)"
proof -
  obtain fl where 1: "warmup_loop warmup_load keys True (g, w) = Some (True, g\<lparr>gr_filter := Some (f\<lparr>fg_filter := fl\<rparr>)\<rparr>, w)"
    using warmup_loop_ok [OF assms] by blast
  then have "I fl \<and> (\<forall>k \<in> set keys. f_Contains (fg_ops f) k fl = Some True)"
    using warmup_loop_run [OF assms(1,2), of keys True w] by auto
  with 1 show ?thesis using assms(2) by (intro exI [of _ fl]) (simp add: Warmup_def)
qed

lemma synthetic_backend: "normalizeBackend uni b = ''synthetic'' \<longleftrightarrow> ToLower uni (TrimSpace b) = ''synthetic''"
  by (auto simp: normalizeBackend_def Let_def)

lemma valid_strategy:
  "(\<exists>opts. createGroupOptions uni strategy shards f fs fh fr backend ev rdb = Some opts)
    \<longleftrightarrow> ToLower uni strategy \<in> {''sharded'', ''unsharded'', ''slru'', ''sharded-slru''}"
  by (auto simp: createGroupOptions_def appendStrategyOptions_def Let_def)

lemma server_options:
  assumes "createGroupOptions uni strategy shards f fs fh fr backend ev rdb = Some opts"
  shows "o_Filter (apply_options opts) = (if f then Some (bloom_ops, bloom_New fs fh) else None)"
    and "o_cache (apply_options opts) = None"
  using assms by (auto simp: createGroupOptions_def appendStrategyOptions_def Let_def apply_options_def zero_Options_def
      WithOnEvicted_def WithIncrementer_def WithFilter_def WithFilterRefresh_def WithShardedCache_def WithSLRU_def split: if_splits)

lemma bloom_contract: "membership_filter bloom_ok (f_Add bloom_ops) (f_Contains bloom_ops)"
  using bloom.membership_filter_axioms by (simp add: bloom_ops_def)

lemma createGroup_run:
  assumes "ToLower uni (fl_strategy fl) \<in> {''sharded'', ''unsharded'', ''slru'', ''sharded-slru''}" and "fl_filter fl"
    and "0 \<le> fl_cacheBytes fl" and "fl_filterSize fl < 2 ^ 32" and "fl_filterHashes fl < 2 ^ 32"
  shows "\<exists>g f. createGroup uni rdb fl groups w = Some (g, groups(''scores'' \<mapsto> g),
      w\<lparr>w_ext := newRedisClient rdb (normalizeBackend uni (fl_backend fl)) (w_ext w)\<rparr>)
    \<and> group_ok bloom_ok g \<and> gr_peers g = None \<and> gr_getter g = newGroupGetter rdb (normalizeBackend uni (fl_backend fl))
    \<and> gr_filter g = Some f \<and> fg_ops f = bloom_ops"
proof -
  let ?b = "normalizeBackend uni (fl_backend fl)"
  obtain opts where o: "createGroupOptions uni (fl_strategy fl) (fl_shards fl) True (fl_filterSize fl) (fl_filterHashes fl)
      (fl_filterRefresh fl) ?b (fl_evictionLog fl) rdb = Some opts"
    using assms(1) valid_strategy by blast
  obtain g groups' where g: "NewGroup ''scores'' (fl_cacheBytes fl) (Some (newGroupGetter rdb ?b)) opts groups = Some (g, groups')"
    using NewGroup_returns [of "''scores''" "fl_cacheBytes fl" "Some (newGroupGetter rdb ?b)" opts groups] by auto
  note run = NewGroup_run [OF g assms(3) server_options(2) [OF o]]
  have flt: "o_Filter (apply_options opts) = Some (bloom_ops, bloom_New (fl_filterSize fl) (fl_filterHashes fl))"
    using server_options(1) [OF o] by simp
  then have "filter_ok bloom_ok g"
    using new_gate_passes(1) [OF run(10)] bloom_contract bloom_New_ok [OF assms(4,5)] by simp
  moreover obtain f where f: "gr_filter g = Some f"
    using run(10) flt by (cases "gr_filter g") (auto simp: newFilterGate_def startRefresh_def Let_def split: if_splits)
  moreover have "fg_ops f = bloom_ops" using new_gate_fields(1) [OF run(10) [unfolded f]] flt by simp
  ultimately show ?thesis
    using o g run(1,2,4,5) assms(2) by (simp add: createGroup_def group_ok_def)
qed

lemma Warmup_opens:
  assumes "group_ok I g" and "gr_filter g = Some f" and "\<forall>k \<in> set keys. \<exists>v. gr_getter g k (w_ext w) = (Inr v, w_ext w)"
  shows "\<exists>g' f'. Warmup keys g w = Some (g', w) \<and> config g' = config g \<and> group_ok I g' \<and> gr_filter g' = Some f'
    \<and> fg_ready f' \<and> fg_warmupKeys f' = keys \<and> (\<forall>k \<in> set keys. filterRejects k g' = Some False)"
proof -
  have f: "filter_ok I g" using assms(1) by (simp add: group_ok_def)
  obtain fl where fl: "Warmup keys g w = Some (g\<lparr>gr_filter := Some (warmup_done keys (f\<lparr>fg_filter := fl\<rparr>))\<rparr>, w)" "I fl"
    "\<forall>k \<in> set keys. f_Contains (fg_ops f) k fl = Some True"
    using Warmup_ok [OF f assms(2,3)] by blast
  show ?thesis
    by (rule exI [of _ "g\<lparr>gr_filter := Some (warmup_done keys (f\<lparr>fg_filter := fl\<rparr>))\<rparr>"], rule exI [of _ "warmup_done keys (f\<lparr>fg_filter := fl\<rparr>)"])
      (use assms f fl in \<open>simp add: group_ok_def filter_ok_def warmup_done_def filterRejects_def gate_rejects_def\<close>)
qed

lemma group_ok_peers [simp]: "group_ok I (g\<lparr>gr_peers := p\<rparr>) = group_ok I g" "filterRejects k (g\<lparr>gr_peers := p\<rparr>) = filterRejects k g"
  by (simp_all add: group_ok_def filter_ok_def caches_ok_def group_caches_def filterRejects_def)

section \<open>Properties\<close>

text \<open>
  C40. A server with the synthetic backend and the filter comes up: for each of the four strategies
  and without a list of warm-up keys, it does not exit or panic, talks to Redis not once, registers
  the group \<open>scores\<close> with well-formed caches and a working filter, loads the 104 default keys
  whatever the order in which the range over \<open>db\<close> visits its keys, opens the gate and rejects
  none of them, and registers the peers of the flags. With any other strategy it exits.
\<close>

theorem synthetic_server_warms_up:
  assumes "normalizeBackend uni (fl_backend fl) = ''synthetic''" and "fl_filter fl" and "splitCSV (fl_warmupKeys fl) = []"
    and "0 \<le> fl_cacheBytes fl" and "fl_filterSize fl < 2 ^ 32" and "fl_filterHashes fl < 2 ^ 32"
    and "distinct order" and "set order = dom db"
  shows "if ToLower uni (fl_strategy fl) \<in> {''sharded'', ''unsharded'', ''slru'', ''sharded-slru''}
    then \<exists>g f w'. server_start uni rdb u order demo fl groups w = Some (g, groups(''scores'' \<mapsto> g), w')
      \<and> w_ext w' = w_ext w \<and> group_ok bloom_ok g \<and> gr_filter g = Some f \<and> fg_ready f
      \<and> fg_warmupKeys f = [''Jack'', ''Sam'', ''Tom''] @ map (\<lambda>i. ''key'' @ FormatInt i) [0..100]
      \<and> (\<forall>k \<in> set (fg_warmupKeys f). filterRejects k g = Some False)
      \<and> gr_peers g = Some (Pool_Set (server_addrs demo fl) (NewHTTPPool (server_selfAddr fl)))
    else server_start uni rdb u order demo fl groups w = None"
proof (cases "ToLower uni (fl_strategy fl) \<in> {''sharded'', ''unsharded'', ''slru'', ''sharded-slru''}")
  case True
  let ?w = "w_count (SetLatencySampleRate u (fl_latencySampleRate fl)) w"
  have rdb: "newRedisClient rdb ''synthetic'' x = x" for x by (simp add: newRedisClient_def)
  obtain g f where g: "createGroup uni rdb fl groups ?w = Some (g, groups(''scores'' \<mapsto> g), ?w)"
    "group_ok bloom_ok g" "gr_peers g = None" "gr_getter g = newGroupGetter rdb ''synthetic''" "gr_filter g = Some f"
    using createGroup_run [OF True assms(2,4-6), of rdb groups ?w] by (auto simp: assms(1) rdb)
  have keys: "server_warmupKeys order fl = [''Jack'', ''Sam'', ''Tom''] @ map (\<lambda>i. ''key'' @ FormatInt i) [0..100]"
    using assms(2,3) warmup_keys_fixed [OF assms(7,8)] by (simp add: server_warmupKeys_def defaultWarmupKeys_def)
  have "\<forall>k \<in> set (server_warmupKeys order fl). \<exists>v. gr_getter g k (w_ext ?w) = (Inr v, w_ext ?w)"
    using warmup_keys_synthetic [OF assms(7,8)] assms(2,3) by (simp add: g(4) newGroupGetter_def server_warmupKeys_def)
  then obtain g' f' where g': "Warmup (server_warmupKeys order fl) g ?w = Some (g', ?w)" "config g' = config g" "group_ok bloom_ok g'"
    "gr_filter g' = Some f'" "fg_ready f'" "fg_warmupKeys f' = server_warmupKeys order fl"
    "\<forall>k \<in> set (server_warmupKeys order fl). filterRejects k g' = Some False"
    using Warmup_opens [OF g(2,5)] by blast
  have "gr_peers g' = None" using config_fields(4) [OF g'(2)] g(3) by simp
  then show ?thesis
    using True g(1) g' assms(1,2) by (simp add: server_start_def synthetic_backend startCacheServer_def RegisterPeers_def keys)
next
  case False
  then have "createGroupOptions uni (fl_strategy fl) (fl_shards fl) f fs fh fr b ev rdb = None" for f fs fh fr b ev
    using valid_strategy [of uni "fl_strategy fl" "fl_shards fl" f fs fh fr b ev rdb] by auto
  then show ?thesis using False by (simp add: server_start_def createGroup_def Let_def)
qed

text \<open>The default flags but for the backend, the filter and the strategy, and a Redis that counts the commands it gets.\<close>

definition demo_flags :: serverFlags where
  "demo_flags = default_flags\<lparr>fl_strategy := ''Sharded-SLRU'', fl_filter := True, fl_backend := '' Synthetic''\<rparr>"

definition counting_redis :: "nat Redis" where
  "counting_redis = \<lparr>rd_Ping = (\<lambda>n. (RedisOk (), Suc n)), rd_Get = (\<lambda>_ n. (RedisNil, Suc n)),
     rd_Set = (\<lambda>_ _ n. (RedisOk (), Suc n)), rd_IncrBy = (\<lambda>_ d n. (RedisOk d, Suc n)),
     rd_Exec = (\<lambda>_ n. (RedisOk (), Suc n))\<rparr>"

theorem synthetic_server_warms_up_witness:
  "\<exists>g w'. server_start id counting_redis 0 [''Tom'', ''Jack'', ''Sam''] [''http://localhost:8001''] demo_flags Map.empty demo_world
     = Some (g, [''scores'' \<mapsto> g], w') \<and> w_ext w' = 0 \<and> filterRejects ''Tom'' g = Some False"
proof -
  have 1: "normalizeBackend id (fl_backend demo_flags) = ''synthetic''" by code_simp
  have 2: "ToLower id (fl_strategy demo_flags) \<in> {''sharded'', ''unsharded'', ''slru'', ''sharded-slru''}" by code_simp
  have 3: "fl_filter demo_flags" "splitCSV (fl_warmupKeys demo_flags) = []" "0 \<le> fl_cacheBytes demo_flags"
    "fl_filterSize demo_flags < 2 ^ 32" "fl_filterHashes demo_flags < 2 ^ 32"
    by (simp_all add: demo_flags_def default_flags_def splitCSV_def)
  have 4: "distinct [''Tom'', ''Jack'', ''Sam'']" "set [''Tom'', ''Jack'', ''Sam''] = dom db" by (auto simp: db_keys)
  show ?thesis
    using synthetic_server_warms_up [OF 1 3 4, of counting_redis 0 "[''http://localhost:8001'']" Map.empty demo_world] 2
    by (auto simp: demo_world_def)
qed

end
