(* ===== verification/Server_API.thy ===== *)
theory Server_API
  imports Server_Config Peer_Server
begin

text \<open>
  The second half of \<^verbatim>\<open>cmd/cache-server/main.go\<close>: the HTTP API in front of a group. A request has
  a method, a path and a raw query, which \<open>url.Values\<close> decodes; a response has a status code, a
  content type and a body. A JSON body is the value that is handed to the encoder, which fails on
  numbers that JSON does not have and then writes nothing.
\<close>

section \<open>Queries\<close>

definition hex_val :: "char \<Rightarrow> nat option" where
  "hex_val c = (let n = of_char c :: nat in
     if 48 \<le> n \<and> n \<le> 57 then Some (n - 48)
     else if 97 \<le> n \<and> n \<le> 102 then Some (n - 87)
     else if 65 \<le> n \<and> n \<le> 70 then Some (n - 55) else None)"

text \<open>\<open>url.QueryUnescape\<close>; \<open>None\<close> is an error.\<close>

fun QueryUnescape :: "string \<Rightarrow> string option" where
  "QueryUnescape [] = Some []"
| "QueryUnescape (c # cs) =
     (if c = CHR ''%'' then
        (case cs of
           a # b # rest \<Rightarrow>
             (case (hex_val a, hex_val b) of
                (Some x, Some y) \<Rightarrow> map_option ((#) (char_of (16 * x + y))) (QueryUnescape rest)
              | _ \<Rightarrow> None)
         | _ \<Rightarrow> None)
      else map_option ((#) (if c = CHR ''+'' then CHR '' '' else c)) (QueryUnescape cs))"

text \<open>\<open>strings.Cut\<close> at a separator of one byte.\<close>

definition Cut :: "string \<Rightarrow> char \<Rightarrow> string \<times> string" where
  "Cut s sep = (takeWhile (\<lambda>c. c \<noteq> sep) s, drop 1 (dropWhile (\<lambda>c. c \<noteq> sep) s))"

text \<open>\<open>url.ParseQuery\<close> without its error, which \<open>URL.Query\<close> drops: a pair that cannot be decoded is skipped.\<close>

definition query_pair :: "string \<Rightarrow> (string \<times> string) option" where
  "query_pair part =
     (if CHR '';'' \<in> set part \<or> part = [] then None
      else case Cut part (CHR ''='') of (key, value) \<Rightarrow>
        (case (QueryUnescape key, QueryUnescape value) of
           (Some k, Some v) \<Rightarrow> Some (k, v)
         | _ \<Rightarrow> None))"

definition Query :: "string \<Rightarrow> (string \<times> string) list" where
  "Query raw = List.map_filter query_pair (Split raw (CHR ''&''))"

definition Query_Get :: "string \<Rightarrow> string \<Rightarrow> string" where
  "Query_Get raw key = (case map_of (Query raw) key of None \<Rightarrow> [] | Some v \<Rightarrow> v)"

section \<open>Responses\<close>

datatype json = JString string | JInt int | JFloat float64 | JObject "(string \<times> json) list"

text \<open>The error of the encoder, for the first value it cannot write.\<close>

fun json_error :: "json \<Rightarrow> string option" and json_fields_error :: "(string \<times> json) list \<Rightarrow> string option" where
  "json_error (JFloat NaN) = Some ''json: unsupported value: NaN''"
| "json_error (JFloat (Inf neg)) = Some (if neg then ''json: unsupported value: -Inf'' else ''json: unsupported value: +Inf'')"
| "json_error (JObject fs) = json_fields_error fs"
| "json_error _ = None"
| "json_fields_error [] = None"
| "json_fields_error ((name, value) # fs) = (case json_error value of Some err \<Rightarrow> Some err | None \<Rightarrow> json_fields_error fs)"

datatype api_body = Text bytes | Json json

record apiResponse =
  as_code :: int
  as_type :: string
  as_body :: api_body

record apiRequest =
  ar_method :: string
  ar_path :: string
  ar_query :: string

definition api_Error :: "string \<Rightarrow> int \<Rightarrow> apiResponse" where
  "api_Error msg code = (case http_Error msg code of (code, body) \<Rightarrow>
     \<lparr>as_code = code, as_type = ''text/plain; charset=utf-8'', as_body = Text body\<rparr>)"

text \<open>\<open>json.NewEncoder(w).Encode(v)\<close> with the error handling both handlers have.\<close>

definition write_json :: "json \<Rightarrow> apiResponse" where
  "write_json v = (case json_error v of
     None \<Rightarrow> \<lparr>as_code = StatusOK, as_type = ''application/json'', as_body = Json v\<rparr>
   | Some err \<Rightarrow> api_Error err StatusInternalServerError)"

section \<open>The handlers\<close>

definition api_increment ::
  "'x Transport \<Rightarrow> go_error option \<Rightarrow> go_error option \<Rightarrow> apiRequest \<Rightarrow> ('f, 'x) Group \<Rightarrow> 'x world
    \<Rightarrow> (apiResponse \<times> ('f, 'x) Group \<times> 'x world) option" where
  "api_increment t ctxErr ctxErr' r g w =
     (if ar_method r \<noteq> ''POST'' then Some (api_Error ''method not allowed'' StatusMethodNotAllowed, g, w)
      else
        let key = Query_Get (ar_query r) ''key'' in
        if key = [] then Some (api_Error ''key is required'' StatusBadRequest, g, w)
        else
          let raw = Query_Get (ar_query r) ''delta'' in
          case (if raw \<noteq> [] then ParseInt raw else Some 1) of
            None \<Rightarrow> Some (api_Error ''delta must be an integer'' StatusBadRequest, g, w)
          | Some delta \<Rightarrow> do {
              (res, g, w) \<leftarrow> group_Increment t ctxErr ctxErr' key delta g w;
              case res of
                Inl err \<Rightarrow>
                  if errors_Is err ErrNonNumericValue then Some (api_Error (Error err) StatusBadRequest, g, w)
                  else Some (api_Error (Error err) StatusInternalServerError, g, w_count IncAPIErrors w)
              | Inr nxt \<Rightarrow> Some (write_json (JObject [(''key'', JString key), (''value'', JInt nxt)]), g, w)
            })"

definition api_get ::
  "'x Transport \<Rightarrow> go_error option \<Rightarrow> ('f, 'x) schedule \<Rightarrow> apiRequest \<Rightarrow> ('f, 'x) Group \<Rightarrow> 'x world
    \<Rightarrow> (apiResponse \<times> ('f, 'x) Group \<times> 'x world) option" where
  "api_get t ctxErr sched r g w = do {
     let key = Query_Get (ar_query r) ''key'';
     (res, g, w) \<leftarrow> group_Get t ctxErr sched key g w;
     case res of
       Inl err \<Rightarrow>
         if errors_Is err ErrNotFound \<or> errors_Is err ErrFilterNotFound
         then Some (api_Error (Error err) StatusNotFound, g, w)
         else Some (api_Error (Error err) StatusInternalServerError, g, w_count IncAPIErrors w)
     | Inr view \<Rightarrow>
         Some (\<lparr>as_code = StatusOK, as_type = ''application/octet-stream'', as_body = Text (ByteView_ByteSlice view)\<rparr>, g, w)
   }"

text \<open>The two clock readings are those of the deferred latency record.\<close>

definition apiHandler ::
  "'x Transport \<Rightarrow> go_error option \<Rightarrow> go_error option \<Rightarrow> ('f, 'x) schedule \<Rightarrow> apiRequest \<Rightarrow> ('f, 'x) Group \<Rightarrow> 'x world
    \<Rightarrow> (apiResponse \<times> ('f, 'x) Group \<times> 'x world) option" where
  "apiHandler t ctxErr ctxErr' sched r g w =
     (let (start, w) = w_now w;
          w = w_count IncAPIRequests w
      in do {
        (resp, g, w) \<leftarrow>
          (if ar_path r = ''/api/increment'' then api_increment t ctxErr ctxErr' r g w else api_get t ctxErr sched r g w);
        let (fin, w) = w_now w;
        Some (resp, g, w_count (RecordAPILatency (fin - start)) w)
      })"

text \<open>The numbers of \<open>/debug/stats\<close>; the fields are in the order of the encoder, which sorts them.\<close>

definition percent :: "uint64 \<Rightarrow> uint64 \<Rightarrow> float64" where
  "percent part whole = (if whole > 0 then f64_mul (f64_div (f64_of_u64 part) (f64_of_u64 whole)) (Fin 100) else Fin 0)"

definition average_ms :: "uint64 \<Rightarrow> uint64 \<Rightarrow> float64" where
  "average_ms micros n = f64_div (f64_div (f64_of_u64 micros) (f64_of_u64 (max n 1))) (Fin 1000)"

definition stats_totals :: "MetricsSnapshot \<Rightarrow> (string \<times> json) list" where
  "stats_totals s =
     [(''api_errors'', JInt (uint (APIErrors s))), (''api_requests'', JInt (uint (APIRequests s))),
      (''cache_hits'', JInt (uint (CacheHits s))), (''cache_misses'', JInt (uint (CacheMisses s))),
      (''filter_misses'', JInt (uint (FilterMisses s))), (''group_gets'', JInt (uint (GroupGets s))),
      (''local_loads'', JInt (uint (LocalLoads s))), (''peer_http_requests'', JInt (uint (PeerHTTPRequests s))),
      (''peer_loads'', JInt (uint (PeerLoads s)))]"

definition stats_rates :: "MetricsSnapshot \<Rightarrow> (string \<times> json) list" where
  "stats_rates s =
     [(''api_avg_ms'', JFloat (average_ms (APILatencyTotalMicros s) (APILatencyCount s))),
      (''api_p95_ms'', JFloat (micros_ms (APILastP95Micros s))), (''api_p99_ms'', JFloat (micros_ms (APILastP99Micros s))),
      (''cache_get_avg_ms'', JFloat (average_ms (CacheGetTotalMicros s) (CacheGetLatencyCount s))),
      (''cache_get_p95_ms'', JFloat (micros_ms (CacheGetLastP95Micros s))),
      (''cache_get_p99_ms'', JFloat (micros_ms (CacheGetLastP99Micros s))),
      (''error_rate_percent'', JFloat (percent (APIErrors s) (APIRequests s))),
      (''group_get_avg_ms'', JFloat (average_ms (GroupGetTotalMicros s) (GroupGetLatencyCount s))),
      (''group_get_p95_ms'', JFloat (micros_ms (GroupGetLastP95Micros s))),
      (''group_get_p99_ms'', JFloat (micros_ms (GroupGetLastP99Micros s))),
      (''hit_rate_percent'', JFloat (percent (CacheHits s) (GroupGets s)))]"

text \<open>\<open>format\<close> is the text of a time in RFC 3339.\<close>

definition stats_handler :: "(time \<Rightarrow> string) \<Rightarrow> 'x world \<Rightarrow> apiResponse \<times> 'x world" where
  "stats_handler format w =
     (let snapshot = Metrics_Snapshot (w_stats w);
          (now, w) = w_now w
      in (write_json (JObject [(''rates'', JObject (stats_rates snapshot)), (''timestamp'', JString (format now)),
            (''totals'', JObject (stats_totals snapshot))]), w))"

text \<open>
  The routes that \<open>startAPIServer\<close> registers. \<open>other\<close> is what else the default mux answers: the
  profiler, redirects to clean paths, and 404.
\<close>

definition api_mux ::
  "(apiRequest \<Rightarrow> apiResponse) \<Rightarrow> (time \<Rightarrow> string) \<Rightarrow> 'x Transport \<Rightarrow> go_error option \<Rightarrow> go_error option \<Rightarrow> ('f, 'x) schedule
    \<Rightarrow> apiRequest \<Rightarrow> ('f, 'x) Group \<Rightarrow> 'x world \<Rightarrow> (apiResponse \<times> ('f, 'x) Group \<times> 'x world) option" where
  "api_mux other format t ctxErr ctxErr' sched r g w =
     (if ar_path r = ''/ping'' then Some (\<lparr>as_code = StatusOK, as_type = ''text/plain; charset=utf-8'', as_body = Text ''ok''\<rparr>, g, w)
      else if ar_path r = ''/api'' \<or> ar_path r = ''/api/increment'' then apiHandler t ctxErr ctxErr' sched r g w
      else if ar_path r = ''/debug/stats'' then (case stats_handler format w of (resp, w) \<Rightarrow> Some (resp, g, w))
      else Some (other r, g, w))"

section \<open>What a request leaves in the counters\<close>

definition api_counts :: "'x world \<Rightarrow> uint64 \<times> uint64" where
  "api_counts w = (APIRequests (w_stats w), APIErrors (w_stats w))"

lemma api_counts_update [simp]:
  "api_counts (w\<lparr>w_ticks := n\<rparr>) = api_counts w" "api_counts (w\<lparr>w_draws := n\<rparr>) = api_counts w" "api_counts (w\<lparr>w_ext := x\<rparr>) = api_counts w"
  by (simp_all add: api_counts_def)

lemma api_counts_latency [simp]:
  "api_counts (w\<lparr>w_stats := RecordCacheGetLatency d (w_stats w)\<rparr>) = api_counts w"
  "api_counts (w_count (RecordGroupGetLatency d) w) = api_counts w" "api_counts (w_count (RecordAPILatency d) w) = api_counts w"
  by (simp_all add: api_counts_def RecordCacheGetLatency_def RecordGroupGetLatency_def RecordAPILatency_def Let_def split: prod.splits)

lemma api_counts_count [simp]:
  "api_counts (w_count IncGroupGets w) = api_counts w" "api_counts (w_count IncCacheHits w) = api_counts w"
  "api_counts (w_count IncCacheMisses w) = api_counts w" "api_counts (w_count IncPeerLoads w) = api_counts w"
  "api_counts (w_count IncLocalLoads w) = api_counts w" "api_counts (w_count IncFilterMisses w) = api_counts w"
  "api_counts (w_count IncAPIRequests w) = (fst (api_counts w) + 1, snd (api_counts w))"
  "api_counts (w_count IncAPIErrors w) = (fst (api_counts w), snd (api_counts w) + 1)"
  by (simp_all add: api_counts_def IncGroupGets_def IncCacheHits_def IncCacheMisses_def IncPeerLoads_def IncLocalLoads_def
      IncFilterMisses_def IncAPIRequests_def IncAPIErrors_def)

text \<open>A call that leaves the counters of the API at \<open>c\<close>, if it returns.\<close>

definition quiet :: "uint64 \<times> uint64 \<Rightarrow> ('a \<Rightarrow> 'x world) \<Rightarrow> 'a option \<Rightarrow> bool" where
  "quiet c pr r \<longleftrightarrow> (\<forall>y. r = Some y \<longrightarrow> api_counts (pr y) = c)"

abbreviation quiet2 :: "uint64 \<times> uint64 \<Rightarrow> ('b \<times> 'x world) option \<Rightarrow> bool" where
  "quiet2 c \<equiv> quiet c snd"

abbreviation quiet3 :: "uint64 \<times> uint64 \<Rightarrow> ('a \<times> 'b \<times> 'x world) option \<Rightarrow> bool" where
  "quiet3 c \<equiv> quiet c (\<lambda>y. snd (snd y))"

named_theorems quiet_steps

lemma quiet_Some [simp]: "quiet c pr (Some y) \<longleftrightarrow> api_counts (pr y) = c" "quiet c pr None"
  by (simp_all add: quiet_def)

lemma quiet_bind: "quiet c pr r \<Longrightarrow> (\<And>y. api_counts (pr y) = c \<Longrightarrow> quiet c pr' (k y)) \<Longrightarrow> quiet c pr' (r \<bind> k)"
  by (cases r) simp_all

lemma quiet_bind2: "quiet2 c r \<Longrightarrow> (\<And>b w. api_counts w = c \<Longrightarrow> quiet c pr (k b w)) \<Longrightarrow> quiet c pr (r \<bind> (\<lambda>(b, w). k b w))"
  by (rule quiet_bind) (auto split: prod.splits)

lemma quiet_bind3:
  "quiet3 c r \<Longrightarrow> (\<And>a b w. api_counts w = c \<Longrightarrow> quiet c pr (k a b w)) \<Longrightarrow> quiet c pr (r \<bind> (\<lambda>(a, b, w). k a b w))"
  by (rule quiet_bind) (auto split: prod.splits)

lemma quiet_bind_any: "(\<And>y. quiet c pr (k y)) \<Longrightarrow> quiet c pr (r \<bind> k)"
  by (cases r) simp_all

lemma quiet_bind_plain: fixes a :: "bool option" and b :: "('f, 'x) Group option" and h :: "httpGetter option"
  shows "(\<And>y. quiet c pr (k y)) \<Longrightarrow> quiet c pr (a \<bind> k)" "(\<And>y. quiet c pr (l y)) \<Longrightarrow> quiet c pr (b \<bind> l)"
    "(\<And>y. quiet c pr (m y)) \<Longrightarrow> quiet c pr (h \<bind> m)"
  by (rule quiet_bind_any; assumption)+

lemmas quiet_rules = quiet_bind2 quiet_bind3 quiet_bind_plain

lemma use_get_quiet [quiet_steps]: "api_counts w = c \<Longrightarrow> quiet3 c (use_get key cache w)"
  by (cases "Cache_lookup (get_time w) key cache")
    (auto simp: use_get_def w_now_eq get_time_def Cache_get_lookup api_counts_def RecordCacheGetLatency_def Let_def split: prod.splits)

lemma use_quiet [quiet_steps]:
  assumes "api_counts w = c"
  shows "quiet2 c (use_addWithTTL key v ttl cache w)" "quiet2 c (use_add key v cache w)"
    "quiet3 c (use_increment key delta ttl cache w)" "quiet2 c (nextTTL g w)"
  using assms by (auto simp: use_addWithTTL_def use_add_def use_increment_def nextTTL_def rand_Int63n_def w_now_eq Let_def
      intro!: quiet_bind_any)

lemma writes_quiet [quiet_steps]:
  assumes "api_counts w = c"
  shows "quiet2 c (store_active key v ttl g w)" "quiet2 c (recordStale key v ttl g w)" "quiet2 c (cacheNegative key g w)"
  using assms by (auto simp: store_active_def recordStale_def cacheNegative_def Let_def intro!: quiet_bind2 quiet_steps split: option.splits)

lemma remember_quiet [quiet_steps]: "api_counts w = c \<Longrightarrow> quiet2 c (remember key v ttl g w)"
  by (auto simp: remember_def intro!: quiet_rules quiet_steps)

lemma getStale_quiet [quiet_steps]: "api_counts w = c \<Longrightarrow> quiet3 c (getStale key g w)"
  by (auto simp: getStale_def Let_def intro!: quiet_bind3 quiet_steps split: option.splits)

lemma call_getter_quiet: "call_getter key g w = (r, w') \<Longrightarrow> api_counts w' = api_counts w"
  by (auto simp: call_getter_def split: prod.splits)

lemma getLocally_quiet [quiet_steps]: "api_counts w = c \<Longrightarrow> quiet3 c (getLocally key g w)"
  by (auto simp: getLocally_def Let_def call_getter_quiet intro!: quiet_rules quiet_steps split: prod.splits sum.splits)

lemma getFromPeer_quiet [quiet_steps]: "api_counts w = c \<Longrightarrow> quiet3 c (getFromPeer t peer key g w)"
  by (auto simp: getFromPeer_def Let_def intro!: quiet_rules quiet_steps split: prod.splits option.splits)

lemma loadFromPeer_quiet [quiet_steps]: "api_counts w = c \<Longrightarrow> quiet3 c (loadFromPeer t key g w)"
  by (auto simp: loadFromPeer_def intro!: quiet_bind2 quiet_bind3 quiet_steps split: option.splits sum.splits)

lemma load_fn_quiet [quiet_steps]: "api_counts w = c \<Longrightarrow> quiet3 c (load_fn t key g w)"
  unfolding load_fn_def by (rule quiet_bind [OF loadFromPeer_quiet]) (auto intro!: quiet_steps split: prod.splits)

lemma active_get_quiet [quiet_steps]:
  "api_counts w = c \<Longrightarrow> quiet3 c (case m of None \<Rightarrow> Some (None, g, w)
     | Some active \<Rightarrow> do { (r, active, w) \<leftarrow> use_get key active w; Some (r, g\<lparr>gr_mainCache := Some active\<rparr>, w) })"
  by (auto intro!: quiet_bind3 quiet_steps split: option.splits)

lemma degrade_quiet [quiet_steps]:
  assumes "api_counts w = c"
  shows "quiet3 c (degradeAfterWaitTimeout key g w)"
proof -
  have "quiet3 c (degradeFromCaches key g w)"
    unfolding degradeFromCaches_def
    by (rule quiet_bind3 [OF active_get_quiet [OF assms]]) (auto intro!: quiet_bind3 quiet_steps split: option.splits)
  then show ?thesis unfolding degradeAfterWaitTimeout_def by (rule quiet_bind) (auto split: prod.splits)
qed

text \<open>
  A read starts with the counters at \<open>c\<close>. If it waited for the load of another goroutine, it has
  gone on with the counters of the world it woke up in.
\<close>

definition resumes_from :: "uint64 \<times> uint64 \<Rightarrow> ('f, 'x) schedule \<Rightarrow> uint64 \<times> uint64 \<Rightarrow> bool" where
  "resumes_from c sched c' \<longleftrightarrow> c' = c \<or> (\<exists>wk g w. sched = Wait wk g w \<and> c' = api_counts w)"

lemma resumes_same [simp]: "resumes_from c sched c"
  by (simp add: resumes_from_def)

lemma group_load_quiet: "\<exists>c'. resumes_from (api_counts w) sched c' \<and> quiet3 c' (group_load t e sched key g w)"
proof (cases e)
  case None
  show ?thesis
  proof (cases sched)
    case Lead
    then show ?thesis using None by (intro exI [of _ "api_counts w"]) (auto simp: group_load_def loader_Do_def waitForLoad_def intro: quiet_steps)
  next
    case (Wait wk g2 w2)
    then show ?thesis using None by (intro exI [of _ "api_counts w2"], cases wk)
        (auto simp: resumes_from_def group_load_def loader_Do_def waitForLoad_def intro: quiet_steps)
  qed
next
  case (Some err)
  then show ?thesis by (intro exI [of _ "api_counts w"]) (simp add: group_load_def)
qed

lemma quiet_if: "(b \<Longrightarrow> quiet c pr x) \<Longrightarrow> (\<not> b \<Longrightarrow> quiet c pr y) \<Longrightarrow> quiet c pr (if b then x else y)"
  by simp

lemma group_lookup_quiet: "\<exists>c'. resumes_from (api_counts w) sched c' \<and> quiet3 c' (group_lookup t e sched key g w)"
proof (cases "key = []")
  case True
  then show ?thesis by (intro exI [of _ "api_counts w"]) (simp add: group_lookup_def)
next
  case False
  let ?look = "case gr_mainCache g of None \<Rightarrow> Some (None, g, w_count IncGroupGets w)
    | Some active \<Rightarrow> do { (r, active, w) \<leftarrow> use_get key active (w_count IncGroupGets w); Some (r, g\<lparr>gr_mainCache := Some active\<rparr>, w) }"
  have look: "quiet3 (api_counts w) ?look" by (rule active_get_quiet) simp
  show ?thesis
  proof (cases ?look)
    case None
    then have "group_lookup t e sched key g w = None" using False by (simp add: group_lookup_def Let_def)
    then show ?thesis by (intro exI [of _ "api_counts w"]) simp
  next
    case (Some y)
    obtain hit g1 w1 where y: "y = (hit, g1, w1)" by (cases y) auto
    then have w1: "api_counts w1 = api_counts w" using look Some by simp
    show ?thesis
    proof (cases hit)
      case None
      then have "group_lookup t e sched key g w = group_load t e sched key g1 (w_count IncCacheMisses w1)"
        using False Some y by (simp add: group_lookup_def Let_def)
      then show ?thesis using group_load_quiet [of "w_count IncCacheMisses w1" sched t e key g1] w1 by simp
    next
      case (Some v)
      then have "quiet3 (api_counts w) (group_lookup t e sched key g w)"
        using False \<open>?look = Some y\<close> y w1 by (simp add: group_lookup_def Let_def)
      then show ?thesis by (intro exI [of _ "api_counts w"]) simp
    qed
  qed
qed

lemma group_Get_quiet: "\<exists>c'. resumes_from (api_counts w) sched c' \<and> quiet3 c' (group_Get t e sched key g w)"
proof -
  obtain c' where c': "resumes_from (api_counts w) sched c'"
    "quiet3 c' (group_lookup t e sched key g (w\<lparr>w_ticks := Suc (w_ticks w)\<rparr>))"
    using group_lookup_quiet [of "w\<lparr>w_ticks := Suc (w_ticks w)\<rparr>" sched t e key g] by auto
  have "quiet3 c' (group_Get t e sched key g w)"
    unfolding group_Get_def w_now_eq Let_def prod.case
    by (rule quiet_bind3 [OF c'(2)]) (simp add: w_now_eq)
  then show ?thesis using c'(1) by blast
qed

lemma group_Increment_quiet: "api_counts w = c \<Longrightarrow> quiet3 c (group_Increment t e e' key delta g w)"
proof -
  assume c: "api_counts w = c"
  have "quiet3 c (incrementLocally e' key delta g w)"
    using c by (auto simp: incrementLocally_def Let_def intro!: quiet_rules quiet_steps
        split: option.splits sum.splits prod.splits)
  moreover have "quiet3 c (incrementFromPeer t peer key delta g w)" for peer
    using c by (auto simp: incrementFromPeer_def Let_def intro!: quiet_rules split: option.splits prod.splits)
  ultimately show ?thesis using c by (auto simp: group_Increment_def split: option.splits)
qed

text \<open>The response to a request that the handler was done with in world \<open>w\<close>, and what it has counted since \<open>c\<close>.\<close>

definition counted :: "uint64 \<times> uint64 \<Rightarrow> (apiResponse \<times> ('f, 'x) Group \<times> 'x world) option \<Rightarrow> bool" where
  "counted c r \<longleftrightarrow> (\<forall>resp g w. r = Some (resp, g, w) \<longrightarrow> as_code resp \<in> {200, 400, 404, 405, 500}
     \<and> api_counts w = (fst c, snd c + (if as_code resp = 500 then 1 else 0)))"

lemma api_Error_code [simp]: "as_code (api_Error msg code) = code"
  by (simp add: api_Error_def http_Error_def)

lemma counted_Some [simp]:
  "counted c (Some (resp, g, w)) \<longleftrightarrow> as_code resp \<in> {200, 400, 404, 405, 500}
     \<and> api_counts w = (fst c, snd c + (if as_code resp = 500 then 1 else 0))" "counted c None"
  by (simp_all add: counted_def)

lemma counted_bind:
  "quiet3 c r \<Longrightarrow> (\<And>a b w. api_counts w = c \<Longrightarrow> counted c (k a b w)) \<Longrightarrow> counted c (r \<bind> (\<lambda>(a, b, w). k a b w))"
  by (cases r) auto

lemma api_get_counted: "\<exists>c'. resumes_from (api_counts w) sched c' \<and> counted c' (api_get t e sched r g w)"
proof -
  obtain c' where c': "resumes_from (api_counts w) sched c'" "quiet3 c' (group_Get t e sched (Query_Get (ar_query r) ''key'') g w)"
    using group_Get_quiet by blast
  have "counted c' (api_get t e sched r g w)"
    unfolding api_get_def Let_def by (rule counted_bind [OF c'(2)]) (auto simp: StatusOK_def split: sum.splits)
  then show ?thesis using c'(1) by blast
qed

lemma write_json_increment:
  "write_json (JObject [(''key'', JString key), (''value'', JInt n)]) =
     \<lparr>as_code = StatusOK, as_type = ''application/json'', as_body = Json (JObject [(''key'', JString key), (''value'', JInt n)])\<rparr>"
  by (simp add: write_json_def)

lemma api_increment_counted: "counted (api_counts w) (api_increment t e e' r g w)"
proof -
  have "counted (api_counts w) (do {
      (res, g, w) \<leftarrow> group_Increment t e e' key delta g w;
      case res of
        Inl err \<Rightarrow> if errors_Is err ErrNonNumericValue then Some (api_Error (Error err) StatusBadRequest, g, w)
          else Some (api_Error (Error err) StatusInternalServerError, g, w_count IncAPIErrors w)
      | Inr nxt \<Rightarrow> Some (write_json (JObject [(''key'', JString key), (''value'', JInt nxt)]), g, w) })" for key delta
    by (rule counted_bind [OF group_Increment_quiet [OF refl]]) (auto simp: StatusOK_def write_json_increment split: sum.splits)
  then show ?thesis by (auto simp: api_increment_def Let_def split: option.splits)
qed

section \<open>The numbers of the statistics\<close>

lemma u64_float:
  "\<exists>r. f64_of_u64 n = Fin r \<and> \<bar>r\<bar> \<le> 2 ^ 70" "n \<noteq> 0 \<Longrightarrow> \<exists>r. f64_of_u64 n = Fin r \<and> 1 / 2 \<le> r"
proof -
  have "uint n < 2 ^ 64" using uint_lt2p [of n] by simp
  then have n: "uint n \<le> 2 ^ 64" by simp
  then have "of_int (uint n) \<le> (of_int (2 ^ 64) :: rat)" by (simp only: of_int_le_iff)
  then have le: "\<bar>of_int (uint n)\<bar> \<le> (2 ^ 64 :: rat)"
    by (simp only: abs_of_nonneg of_int_0_le_iff uint_ge_0 of_int_power of_int_numeral)
  then obtain r where "f64_round (of_int (uint n)) = Fin r" "\<bar>r\<bar> \<le> 2 * 2 ^ 64 + 1"
    using f64_round_finite [of "of_int (uint n)"] by force
  then show "\<exists>r. f64_of_u64 n = Fin r \<and> \<bar>r\<bar> \<le> 2 ^ 70" by (auto simp: f64_of_u64_def f64_of_int_def)
  assume "n \<noteq> 0"
  then have "1 \<le> uint n" using uint_0_iff [of n] uint_ge_0 [of n] by linarith
  moreover have "uint n \<le> 2 ^ 1000" using n by simp
  ultimately show "\<exists>r. f64_of_u64 n = Fin r \<and> 1 / 2 \<le> r" unfolding f64_of_u64_def by (rule f64_of_int_pos)
qed

lemma f64_div_finite:
  assumes "\<bar>a\<bar> \<le> 2 ^ 80" and "1 / 2 \<le> b"
  shows "\<exists>r. f64_div (Fin a) (Fin b) = Fin r \<and> \<bar>r\<bar> \<le> 4 * \<bar>a\<bar> + 1"
proof -
  have "\<bar>a / b\<bar> \<le> \<bar>a\<bar> / (1 / 2)" using assms(2) by (simp only: abs_divide) (intro divide_left_mono; simp)
  then have le: "\<bar>a / b\<bar> \<le> 2 * \<bar>a\<bar>" by simp
  then have "\<bar>a / b\<bar> \<le> 2 ^ 1000" using assms(1) by simp
  then obtain r where "f64_round (a / b) = Fin r" "\<bar>r\<bar> \<le> 2 * \<bar>a / b\<bar> + 1" using f64_round_finite by blast
  then show ?thesis using le assms(2) by (auto simp: f64_div_def)
qed

lemma ratio_finite: "n \<noteq> 0 \<Longrightarrow> \<exists>r. f64_div (f64_of_u64 m) (f64_of_u64 n) = Fin r \<and> \<bar>r\<bar> \<le> 2 ^ 73"
proof -
  assume "n \<noteq> 0"
  then obtain a b where ab: "f64_of_u64 m = Fin a" "\<bar>a\<bar> \<le> 2 ^ 70" "f64_of_u64 n = Fin b" "1 / 2 \<le> b"
    using u64_float(1) [of m] u64_float(2) by blast
  then obtain r where "f64_div (Fin a) (Fin b) = Fin r" "\<bar>r\<bar> \<le> 4 * \<bar>a\<bar> + 1" using f64_div_finite [of a b] by force
  then show ?thesis using ab by auto
qed

lemma max_one_nonzero: "max n 1 \<noteq> (0 :: uint64)"
  by (metis max.cobounded2 word_le_0_iff zero_neq_one)

lemma rates_finite:
  "\<exists>q. percent m n = Fin q" "\<exists>q. average_ms m n = Fin q" "\<exists>q. micros_ms m = Fin q"
proof -
  show "\<exists>q. percent m n = Fin q"
  proof (cases "n = 0")
    case False
    then obtain r where r: "f64_div (f64_of_u64 m) (f64_of_u64 n) = Fin r" "\<bar>r\<bar> \<le> 2 ^ 73" using ratio_finite by blast
    then have "\<bar>r * 100\<bar> \<le> 2 ^ 1000" by (simp add: abs_mult)
    then show ?thesis using r(1) f64_round_finite [of "r * 100"] False by (auto simp: percent_def f64_mul_def word_neq_0_conv)
  qed (simp add: percent_def)
  obtain r where r: "f64_div (f64_of_u64 m) (f64_of_u64 (max n 1)) = Fin r" "\<bar>r\<bar> \<le> 2 ^ 73"
    using ratio_finite [OF max_one_nonzero] by blast
  then show "\<exists>q. average_ms m n = Fin q" using f64_div_finite [of r 1000] by (auto simp: average_ms_def)
  obtain a where "f64_of_u64 m = Fin a" "\<bar>a\<bar> \<le> 2 ^ 70" using u64_float(1) by blast
  then show "\<exists>q. micros_ms m = Fin q" using f64_div_finite [of a 1000] by (auto simp: micros_ms_def)
qed

lemma stats_rates_finite: "\<exists>rates. stats_rates s = map (\<lambda>(name, q). (name, JFloat (Fin q))) rates"
proof -
  have *: "\<exists>xs. f # fs = map (\<lambda>(name, q). (name, JFloat (Fin q))) xs"
    if "\<exists>q. x = Fin q" and "f = (name, JFloat x)" and "\<exists>xs. fs = map (\<lambda>(name, q). (name, JFloat (Fin q))) xs" for f x name fs
    using that by (metis (no_types, lifting) case_prod_conv list.simps(9))
  show ?thesis unfolding stats_rates_def by (rule * [OF _ refl], rule rates_finite)+ simp
qed

text \<open>The divisor 1 that replaces a count of 0 gives the 0 that the log line prints.\<close>

lemma average_ms_logged:
  assumes "n \<noteq> 0 \<or> micros = 0"
  shows "average_ms micros n = avg_ms micros n"
proof (cases "n = 0")
  case True
  have "average_ms 0 0 = Fin 0" by code_simp
  then show ?thesis using True assms by (simp add: avg_ms_def)
next
  case False
  then have "1 \<le> n" using inc_le [of 0 n] by (simp add: word_neq_0_conv)
  then have "max n 1 = n" by simp
  then show ?thesis using False by (simp add: average_ms_def avg_ms_def word_neq_0_conv)
qed

fun json_number :: "json \<Rightarrow> float64" where
  "json_number (JFloat x) = x"
| "json_number _ = Fin 0"

section \<open>Properties\<close>

text \<open>
  C21. Every API request is counted once, and as an error exactly when it is answered with status
  500: a missing key, a bad request and a value that is not a number are not errors. This holds
  whether the request leads its load, joins another one, gives up on it or is cancelled; in a world
  that other goroutines have changed while it waited, only what they have counted comes on top. No
  other status codes than 200, 400, 404, 405 and 500 are sent.
\<close>

theorem api_requests_and_errors_counted:
  assumes "apiHandler t e e' sched r g w = Some (resp, g', w')"
  shows "(\<exists>requests errors. APIRequests (w_stats w') = APIRequests (w_stats w) + 1 + requests
      \<and> APIErrors (w_stats w') = APIErrors (w_stats w) + errors + (if as_code resp = StatusInternalServerError then 1 else 0)
      \<and> (requests = 0 \<and> errors = 0
         \<or> (\<exists>wk g2 w2. sched = Wait wk g2 w2 \<and> APIRequests (w_stats w2) = APIRequests (w_stats w) + 1 + requests
              \<and> APIErrors (w_stats w2) = APIErrors (w_stats w) + errors)))
    \<and> as_code resp \<in> {StatusOK, StatusBadRequest, StatusNotFound, StatusMethodNotAllowed, StatusInternalServerError}"
proof -
  let ?w = "w_count IncAPIRequests (w\<lparr>w_ticks := Suc (w_ticks w)\<rparr>)"
  let ?r = "if ar_path r = ''/api/increment'' then api_increment t e e' r g ?w else api_get t e sched r g ?w"
  obtain w1 where w1: "?r = Some (resp, g', w1)" "api_counts w' = api_counts w1"
    using assms by (auto simp: apiHandler_def w_now_eq split: Option.bind_splits if_splits)
  have "\<exists>c. resumes_from (api_counts ?w) sched c \<and> counted c ?r"
  proof (cases "ar_path r = ''/api/increment''")
    case True
    show ?thesis unfolding if_P [OF True]
      by (intro exI [of _ "api_counts ?w"] conjI resumes_same api_increment_counted)
  next
    case False
    show ?thesis unfolding if_not_P [OF False] by (rule api_get_counted)
  qed
  then obtain c where c: "resumes_from (api_counts ?w) sched c" "counted c ?r" by blast
  with w1 have counts: "api_counts w' = (fst c, snd c + (if as_code resp = 500 then 1 else 0))"
    and codes: "as_code resp \<in> {200, 400, 404, 405, 500}" by (auto simp: counted_def)
  let ?req = "fst c - (APIRequests (w_stats w) + 1)" and ?err = "snd c - APIErrors (w_stats w)"
  have "APIRequests (w_stats w') = APIRequests (w_stats w) + 1 + ?req"
    "APIErrors (w_stats w') = APIErrors (w_stats w) + ?err + (if as_code resp = StatusInternalServerError then 1 else 0)"
    using counts by (simp_all add: api_counts_def)
  moreover have "?req = 0 \<and> ?err = 0 \<or> (\<exists>wk g2 w2. sched = Wait wk g2 w2 \<and> APIRequests (w_stats w2) = APIRequests (w_stats w) + 1 + ?req
      \<and> APIErrors (w_stats w2) = APIErrors (w_stats w) + ?err)"
    using c(1) unfolding resumes_from_def
  proof (elim disjE exE conjE)
    assume "c = api_counts ?w"
    then show ?thesis by (simp add: api_counts_def IncAPIRequests_def)
  next
    fix wk g2 w2 assume "sched = Wait wk g2 w2" "c = api_counts w2"
    then show ?thesis by (intro disjI2 exI [of _ wk] exI [of _ g2] exI [of _ w2]) (simp add: api_counts_def)
  qed
  moreover have "as_code resp \<in> {StatusOK, StatusBadRequest, StatusNotFound, StatusMethodNotAllowed, StatusInternalServerError}"
    using codes by (simp add: StatusOK_def)
  ultimately show ?thesis by blast
qed

text \<open>A request without a key, which is answered with status 500.\<close>

theorem api_requests_and_errors_counted_witness:
  "\<exists>resp g' w'. apiHandler no_transport None None Lead \<lparr>ar_method = ''GET'', ar_path = ''/api'', ar_query = ''k=Tom''\<rparr> demo_group demo_world
      = Some (resp, g', w') \<and> as_code resp = 500
    \<and> APIRequests (w_stats w') = APIRequests (w_stats demo_world) + 1 \<and> APIErrors (w_stats w') = APIErrors (w_stats demo_world) + 1"
proof -
  let ?r = "\<lparr>ar_method = ''GET'', ar_path = ''/api'', ar_query = ''k=Tom''\<rparr>"
  have "Query_Get ''k=Tom'' ''key'' = []" by code_simp
  then obtain resp g' w' where run: "apiHandler no_transport None None Lead ?r demo_group demo_world = Some (resp, g', w')" "as_code resp = 500"
    by (simp add: apiHandler_def api_get_def group_Get_def group_lookup_def w_now_eq)
  then show ?thesis using api_requests_and_errors_counted [OF run(1)] by auto
qed

text \<open>
  C16. The API reads back its own increments: a POST that the backing store has applied is answered
  with the key and its number as JSON, and until the TTL has passed every GET of that key is
  answered with the decimal text of the number, without asking the backing store.
\<close>

theorem api_increment_read_back:
  assumes "ar_path r = ''/api/increment''" and "ar_method r = ''POST''" and "Query_Get (ar_query r) ''key'' = key" and "key \<noteq> []"
    and "(if Query_Get (ar_query r) ''delta'' = [] then Some 1 else ParseInt (Query_Get (ar_query r) ''delta'')) = Some delta"
    and "group_ok I g" and "gr_mainCache g \<noteq> None" and "gr_incrementer g = Some inc" and "serves_locally g key" and "ttl_config g"
    and "inc key delta (w_ext w) = (Inr n, x)" and "group_fits g key (bytes_view (FormatInt n))"
  shows "\<exists>g' w' ttl. apiHandler t None None s r g w = Some (\<lparr>as_code = StatusOK, as_type = ''application/json'',
        as_body = Json (JObject [(''key'', JString key), (''value'', JInt n)])\<rparr>, g', w') \<and> w_ext w' = x \<and> ttl_allowed g ttl
    \<and> (\<forall>t' e e' s' r' w2. ar_path r' = ''/api'' \<and> Query_Get (ar_query r') ''key'' = key
        \<and> \<not> expired (w_clock w2 (w_ticks w2 + 3)) (expiry_of (w_clock w (w_ticks w + 1)) ttl) \<longrightarrow>
      (\<exists>g2 w3. apiHandler t' e e' s' r' g' w2 = Some (\<lparr>as_code = StatusOK, as_type = ''application/octet-stream'',
         as_body = Text (FormatInt n)\<rparr>, g2, w3) \<and> w_ext w3 = w_ext w2))"
proof -
  let ?v = "bytes_view (FormatInt n)" and ?w = "w_count IncAPIRequests (w\<lparr>w_ticks := Suc (w_ticks w)\<rparr>)"
  have "inc key delta (w_ext ?w) = (Inr n, x)" using assms(11) by simp
  then obtain g' w1 ttl where g': "incrementLocally None key delta g ?w = Some (Inr n, g', w1)" "w_ext w1 = x" "ttl_allowed g ttl"
    "kept I g key ?v ttl (add_time ?w) (get_time ?w) g'"
    using durable_increment_run [OF assms(6,4,7,8) _ assms(10,12)] by blast
  let ?w' = "w_count (RecordAPILatency (w_clock w1 (w_ticks w1) - w_clock w (w_ticks w))) (w1\<lparr>w_ticks := Suc (w_ticks w1)\<rparr>)"
  have post: "apiHandler t None None s r g w = Some (\<lparr>as_code = StatusOK, as_type = ''application/json'',
      as_body = Json (JObject [(''key'', JString key), (''value'', JInt n)])\<rparr>, g', ?w')"
    using assms(1-5) g'(1) group_Increment_local [OF assms(9), of t None delta]
    by (simp add: apiHandler_def api_increment_def w_now_eq write_json_increment split: if_splits)
  have "\<exists>g2 w3. apiHandler t' e e' s' r' g' w2 = Some (\<lparr>as_code = StatusOK, as_type = ''application/octet-stream'',
         as_body = Text (FormatInt n)\<rparr>, g2, w3) \<and> w_ext w3 = w_ext w2"
    if r': "ar_path r' = ''/api''" "Query_Get (ar_query r') ''key'' = key"
      and live: "\<not> expired (w_clock w2 (w_ticks w2 + 3)) (expiry_of (w_clock w (w_ticks w + 1)) ttl)" for t' e e' s' r' w2
  proof -
    let ?w2 = "w_count IncAPIRequests (w2\<lparr>w_ticks := Suc (w_ticks w2)\<rparr>)"
    have "live (w_clock ?w2 (w_ticks ?w2 + 2)) (active_view g' key) = Some ?v"
      using g'(4) live by (simp add: kept_def add_time_def numeral_3_eq_3 del: expired_expiry_of)
    then obtain g2 w3 where "group_Get t' e s' key g' ?w2 = Some (Inr ?v, g2, w3)" "w_ext w3 = w_ext w2"
      using group_Get_hit [of g' key ?w2 ?v t' e s'] g'(4) assms(4) by (auto simp: kept_def group_ok_def)
    then show ?thesis using r' by (simp add: apiHandler_def api_get_def w_now_eq)
  qed
  then show ?thesis using post g'(2,3) by (intro exI [of _ g'] exI [of _ ?w'] exI [of _ ttl]) simp
qed

theorem api_increment_read_back_witness:
  "\<exists>g' w' g2 w3. apiHandler no_transport None None Lead
       \<lparr>ar_method = ''POST'', ar_path = ''/api/increment'', ar_query = ''key=n&delta=%2B5''\<rparr> counting_group demo_world =
     Some (\<lparr>as_code = 200, as_type = ''application/json'', as_body = Json (JObject [(''key'', JString ''n''), (''value'', JInt 5)])\<rparr>, g', w')
   \<and> apiHandler no_transport None None Lead \<lparr>ar_method = ''GET'', ar_path = ''/api'', ar_query = ''key=n''\<rparr> g' (demo_world\<lparr>w_ticks := 60\<rparr>) =
     Some (\<lparr>as_code = 200, as_type = ''application/octet-stream'', as_body = Text ''5''\<rparr>, g2, w3) \<and> w_ext w3 = 0"
proof -
  let ?r = "\<lparr>ar_method = ''POST'', ar_path = ''/api/increment'', ar_query = ''key=n&delta=%2B5''\<rparr>"
  let ?g = "\<lparr>ar_method = ''GET'', ar_path = ''/api'', ar_query = ''key=n''\<rparr>"
  have q: "Query_Get ''key=n&delta=%2B5'' ''key'' = ''n''" "Query_Get ''key=n'' ''key'' = ''n''" by code_simp+
  have d: "Query_Get ''key=n&delta=%2B5'' ''delta'' = ''+5''" "ParseInt ''+5'' = Some 5" by code_simp+
  obtain inc where inc: "gr_incrementer counting_group = Some inc" "inc ''n'' 5 (w_ext demo_world) = (Inr 5, 5)"
    using counting_ok(7) by blast
  have p: "ar_path ?r = ''/api/increment''" "ar_method ?r = ''POST''" "Query_Get (ar_query ?r) ''key'' = ''n''" "''n'' \<noteq> []"
    "(if Query_Get (ar_query ?r) ''delta'' = [] then Some 1 else ParseInt (Query_Get (ar_query ?r) ''delta'')) = Some 5"
    using q d by simp_all
  obtain g' w' ttl where g': "apiHandler no_transport None None Lead ?r counting_group demo_world =
      Some (\<lparr>as_code = StatusOK, as_type = ''application/json'', as_body = Json (JObject [(''key'', JString ''n''), (''value'', JInt 5)])\<rparr>, g', w')"
    "ttl_allowed counting_group ttl"
    "\<forall>t' e e' s' r' w2. ar_path r' = ''/api'' \<and> Query_Get (ar_query r') ''key'' = ''n''
        \<and> \<not> expired (w_clock w2 (w_ticks w2 + 3)) (expiry_of (w_clock demo_world (w_ticks demo_world + 1)) ttl) \<longrightarrow>
      (\<exists>g2 w3. apiHandler t' e e' s' r' g' w2 = Some (\<lparr>as_code = StatusOK, as_type = ''application/octet-stream'',
         as_body = Text (FormatInt 5)\<rparr>, g2, w3) \<and> w_ext w3 = w_ext w2)"
    using api_increment_read_back [OF p counting_ok(1,2) inc(1) counting_ok(3,4) inc(2) counting_ok(5), of no_transport Lead] by blast
  have "90 \<le> ttl" using g'(2) by (simp add: ttl_allowed_def counting_group_def demo_group_def)
  then show ?thesis
    using g'(1) g'(3) [rule_format, of ?g "demo_world\<lparr>w_ticks := 60\<rparr>" no_transport None None Lead] q(2)
    by (simp add: demo_world_def counting_ok(6) StatusOK_def)
qed

text \<open>
  C39. The statistics can always be sent: every rate and average of \<open>/debug/stats\<close> is a finite
  number, whatever the counters hold, so that the encoder does not fail, and no counter is changed by
  asking. Under their names stand the numbers that the periodic log line prints for the same
  snapshot: the percentiles and the hit rate always, an average unless time is recorded without a
  sample (which only a counter that has wrapped around can show); and the share of errors among the
  API requests in percent, 0 without requests.
\<close>

theorem stats_always_served:
  assumes "s = Metrics_Snapshot (w_stats w)" and "l = logger_report interval prev s"
  shows "\<exists>rates api_avg group_avg cache_avg.
    stats_handler format w = (\<lparr>as_code = StatusOK, as_type = ''application/json'', as_body = Json (JObject
      [(''rates'', JObject (map (\<lambda>(name, q). (name, JFloat (Fin q))) rates)), (''timestamp'', JString (format (w_clock w (w_ticks w)))),
       (''totals'', JObject (stats_totals s))])\<rparr>, w\<lparr>w_ticks := Suc (w_ticks w)\<rparr>)
    \<and> map (\<lambda>(name, q). (name, Fin q)) rates =
        [(''api_avg_ms'', api_avg), (''api_p95_ms'', r_apiP95Ms l), (''api_p99_ms'', r_apiP99Ms l),
         (''cache_get_avg_ms'', cache_avg), (''cache_get_p95_ms'', r_cacheP95Ms l), (''cache_get_p99_ms'', r_cacheP99Ms l),
         (''error_rate_percent'', if APIRequests s = 0 then Fin 0
            else f64_mul (f64_div (f64_of_u64 (APIErrors s)) (f64_of_u64 (APIRequests s))) (Fin 100)),
         (''group_get_avg_ms'', group_avg), (''group_get_p95_ms'', r_groupP95Ms l), (''group_get_p99_ms'', r_groupP99Ms l),
         (''hit_rate_percent'', r_hitRate l)]
    \<and> (APILatencyCount s \<noteq> 0 \<or> APILatencyTotalMicros s = 0 \<longrightarrow> api_avg = r_apiAvgMs l)
    \<and> (GroupGetLatencyCount s \<noteq> 0 \<or> GroupGetTotalMicros s = 0 \<longrightarrow> group_avg = r_groupAvgMs l)
    \<and> (CacheGetLatencyCount s \<noteq> 0 \<or> CacheGetTotalMicros s = 0 \<longrightarrow> cache_avg = r_cacheAvgMs l)"
proof -
  obtain rates where rates: "stats_rates s = map (\<lambda>(name, q). (name, JFloat (Fin q))) rates" using stats_rates_finite by blast
  have "json_fields_error (map (\<lambda>(name, q). (name, JFloat (Fin q))) xs) = None" for xs by (induction xs) auto
  then have "stats_handler format w = (\<lparr>as_code = StatusOK, as_type = ''application/json'', as_body = Json (JObject
      [(''rates'', JObject (map (\<lambda>(name, q). (name, JFloat (Fin q))) rates)), (''timestamp'', JString (format (w_clock w (w_ticks w)))),
       (''totals'', JObject (stats_totals s))])\<rparr>, w\<lparr>w_ticks := Suc (w_ticks w)\<rparr>)"
    by (simp add: stats_handler_def w_now_eq write_json_def rates assms(1) [symmetric], simp add: stats_totals_def rates)
  moreover have "map (\<lambda>(name, q). (name, Fin q)) rates = map (\<lambda>(name, v). (name, json_number v)) (stats_rates s)"
    by (simp add: rates o_def case_prod_beta)
  ultimately show ?thesis
    by (intro exI [of _ rates] exI [of _ "average_ms (APILatencyTotalMicros s) (APILatencyCount s)"]
        exI [of _ "average_ms (GroupGetTotalMicros s) (GroupGetLatencyCount s)"]
        exI [of _ "average_ms (CacheGetTotalMicros s) (CacheGetLatencyCount s)"] conjI impI average_ms_logged)
      (simp_all add: stats_rates_def percent_def assms(2) logger_report_def Let_def word_neq_0_conv average_ms_logged)
qed

text \<open>One API request that has taken 3 ms.\<close>

theorem stats_always_served_witness:
  "\<exists>rest. stats_handler (\<lambda>_. ''now'') (demo_world\<lparr>w_stats := RecordAPILatency 3000000 (IncAPIRequests newMetrics)\<rparr>) =
    (\<lparr>as_code = StatusOK, as_type = ''application/json'', as_body = Json (JObject
      [(''rates'', JObject ((''api_avg_ms'', JFloat (Fin 3)) # rest)), (''timestamp'', JString ''now''),
       (''totals'', JObject (stats_totals (Metrics_Snapshot (RecordAPILatency 3000000 (IncAPIRequests newMetrics)))))])\<rparr>,
     demo_world\<lparr>w_stats := RecordAPILatency 3000000 (IncAPIRequests newMetrics), w_ticks := 1\<rparr>)"
proof -
  let ?m = "RecordAPILatency 3000000 (IncAPIRequests newMetrics)"
  let ?w = "demo_world\<lparr>w_stats := ?m\<rparr>"
  let ?s = "Metrics_Snapshot ?m"
  have s: "?s = Metrics_Snapshot (w_stats ?w)" by simp
  have n: "APILatencyTotalMicros ?s = 3000" "APILatencyCount ?s = 1" by code_simp+
  have f: "f64_of_int 3000 = Fin 3000" "f64_of_int 3 = Fin 3" "f64_of_int 1 = Fin 1" by (simp_all add: f64_of_int_exact)
  then have three: "avg_ms 3000 1 = Fin 3" by (simp add: avg_ms_def f64_of_u64_def f64_div_def) (simp add: f64_of_int_def)
  have avg: "r_apiAvgMs (logger_report 1 ?s ?s) = Fin 3" by (simp only: logger_report_def Let_def statsReport.select_convs n three)
  obtain rates api_avg where r: "stats_handler (\<lambda>_. ''now'') ?w = (\<lparr>as_code = StatusOK, as_type = ''application/json'', as_body = Json (JObject
      [(''rates'', JObject (map (\<lambda>(name, q). (name, JFloat (Fin q))) rates)), (''timestamp'', JString ''now''),
       (''totals'', JObject (stats_totals ?s))])\<rparr>, ?w\<lparr>w_ticks := Suc (w_ticks ?w)\<rparr>)"
    "\<exists>vs. map (\<lambda>(name, q). (name, Fin q)) rates = (''api_avg_ms'', api_avg) # vs" "api_avg = Fin 3"
    using stats_always_served [OF s refl, of "\<lambda>_. ''now''" 1 ?s] n(2) avg by fastforce
  then obtain rest where "rates = (''api_avg_ms'', 3) # rest" by auto
  then show ?thesis using r(1) by (simp add: demo_world_def)
qed

end
