(* ===== verification/Durable_Increments.thy ===== *)
theory Durable_Increments
  imports Group_Writes
begin

text \<open>
  Goroutines that increment counters and load values behind a group, step by step. \<open>incrementLocally\<close>
  with a durable incrementer holds the mutex of the key's stripe from before the call of the
  incrementer to its return; a load (\<open>loadFromPeer\<close>, then \<open>getLocally\<close>) writes what it has read
  without that mutex. A step is one access to shared state: a mutex, the backing store, a peer, a
  cache or the filter. The goroutines of a system interleave freely, with each other and with the
  lookups, invalidations, purges, warm-ups and filter refreshes of other goroutines.

  The systems have an active cache and a durable incrementer; the steps of a group without an active
  cache, where a load stores nothing and an increment is refused, are in \<open>Group_Cache\<close>. The requests of
  an invalidation's broadcast go to other nodes and are not steps.
\<close>

section \<open>Model\<close>

datatype origin = FromIncrement int | FromLoad

text \<open>
  Where a goroutine stands: before the mutex; with the mutex and before the incrementer; in a load,
  before the peer, the filter, the getter or the write of a negative entry; before each of the three
  writes of \<open>remember\<close>; before the deferred unlock; or done.
\<close>

datatype goroutine =
  AtLock string int
| Locked string int
| AtLoad string
| AtFilter string
| AtGetter string
| AtNegative string
| Writing origin string ByteView
| WroteActive origin string ByteView duration
| WroteStale origin string
| Unlocking string
| Returned

record ('f, 'x) system =
  sys_group :: "('f, 'x) Group"
  sys_world :: "'x world"
  sys_locked :: "nat set"
  sys_go :: "goroutine list"

text \<open>The steps of a goroutine between its lock and its unlock, and those of a load.\<close>

inductive go_step ::
  "'x Transport \<Rightarrow> goroutine \<Rightarrow> ('f, 'x) Group \<Rightarrow> 'x world \<Rightarrow> goroutine \<Rightarrow> ('f, 'x) Group \<Rightarrow> 'x world \<Rightarrow> bool" for t where
  step_apply: "gr_incrementer g = Some inc \<Longrightarrow> inc key delta (w_ext w) = (Inr n, x) \<Longrightarrow>
    go_step t (Locked key delta) g w (Writing (FromIncrement n) key (stampActiveValue (FormatInt n))) g (w\<lparr>w_ext := x\<rparr>)"
| step_apply_fails: "gr_incrementer g = Some inc \<Longrightarrow> inc key delta (w_ext w) = (Inl err, x) \<Longrightarrow>
    go_step t (Locked key delta) g w (Unlocking key) g (w\<lparr>w_ext := x\<rparr>)"
| step_own: "serves_locally g key \<Longrightarrow> go_step t (AtLoad key) g w (AtFilter key) g w"
| step_peer: "peer_answers t g key (w_ext w) None response x \<Longrightarrow>
    go_step t (AtLoad key) g w (Writing FromLoad key (stampActiveValue (cloneBytes (rs_Value response)))) g
      ((w_count IncPeerLoads w)\<lparr>w_ext := x\<rparr>)"
| step_peer_fails: "peer_answers t g key (w_ext w) (Some err) response x \<Longrightarrow>
    go_step t (AtLoad key) g w (if errors_Is err ErrNotFound then AtNegative key else AtFilter key) g
      ((w_count IncPeerLoads w)\<lparr>w_ext := x\<rparr>)"
| step_rejected: "filterRejects key g = Some True \<Longrightarrow> go_step t (AtFilter key) g w Returned g (w_count IncFilterMisses w)"
| step_passed: "filterRejects key g = Some False \<Longrightarrow> go_step t (AtFilter key) g w (AtGetter key) g w"
| step_load: "call_getter key g w = (Inr b, w') \<Longrightarrow>
    go_step t (AtGetter key) g w (Writing FromLoad key (stampActiveValue (cloneBytes b))) g (w_count IncLocalLoads w')"
| step_load_fails: "call_getter key g w = (Inl err, w') \<Longrightarrow>
    go_step t (AtGetter key) g w (if errors_Is err ErrNotFound then AtNegative key else Returned) g w'"
| step_negative: "cacheNegative key g w = Some (g', w') \<Longrightarrow> go_step t (AtNegative key) g w Returned g' w'"
| step_active: "nextTTL g w = Some (ttl, w1) \<Longrightarrow> store_active key v ttl g w1 = Some (g', w') \<Longrightarrow>
    go_step t (Writing org key v) g w (WroteActive org key v ttl) g' w'"
| step_stale: "recordStale key v ttl g w = Some (g', w') \<Longrightarrow>
    go_step t (WroteActive org key v ttl) g w (WroteStale org key) g' w'"
| step_filter: "filter_add key g = Some g' \<Longrightarrow>
    go_step t (WroteStale org key) g w (case org of FromLoad \<Rightarrow> Returned | FromIncrement n \<Rightarrow> Unlocking key) g' w"

text \<open>
  What other goroutines do to the group meanwhile: lookups in the two caches, the removals of an
  invalidation, the janitor's purges, and the warm-up and the reset of the filter.
\<close>

inductive env_step :: "('f, 'x) Group \<Rightarrow> 'x world \<Rightarrow> ('f, 'x) Group \<Rightarrow> 'x world \<Rightarrow> bool" where
  env_lookup: "gr_mainCache g = Some c \<Longrightarrow> use_get key c w = Some (r, c', w') \<Longrightarrow> env_step g w (g\<lparr>gr_mainCache := Some c'\<rparr>) w'"
| env_lookup_stale: "getStale key g w = Some (r, g', w') \<Longrightarrow> env_step g w g' w'"
| env_remove: "gr_mainCache g = Some c \<Longrightarrow> Cache_remove key c = Some c' \<Longrightarrow> env_step g w (g\<lparr>gr_mainCache := Some c'\<rparr>) w"
| env_remove_stale: "gr_staleCache g = Some c \<Longrightarrow> Cache_remove key c = Some c' \<Longrightarrow> env_step g w (g\<lparr>gr_staleCache := Some c'\<rparr>) w"
| env_purge: "gr_mainCache g = Some c \<Longrightarrow> env_step g w (g\<lparr>gr_mainCache := Some (Cache_clearupExpired clk c)\<rparr>) w"
| env_purge_stale: "gr_staleCache g = Some c \<Longrightarrow> env_step g w (g\<lparr>gr_staleCache := Some (Cache_clearupExpired clk c)\<rparr>) w"
| env_warmup: "getLocallyOnlyForWarmUp key g w = Some (r, g', w') \<Longrightarrow> env_step g w g' w'"
| env_reset: "gr_filter g = Some f \<Longrightarrow> env_step g w (g\<lparr>gr_filter := Some (gate_reset f)\<rparr>) w"

definition go_to :: "nat \<Rightarrow> goroutine \<Rightarrow> ('f, 'x) system \<Rightarrow> ('f, 'x) system" where
  "go_to i p s = s\<lparr>sys_go := (sys_go s)[i := p]\<rparr>"

definition sys_at :: "('f, 'x) system \<Rightarrow> nat \<Rightarrow> goroutine \<Rightarrow> bool" where
  "sys_at s i p \<longleftrightarrow> i < length (sys_go s) \<and> sys_go s ! i = p"

text \<open>The mutex of a key, if the group has any.\<close>

definition mutex :: "('f, 'x) system \<Rightarrow> string \<Rightarrow> nat set" where
  "mutex s key = set_option (stripe_of (gr_incrementLocks (sys_group s)) key)"

inductive sys_step :: "'x Transport \<Rightarrow> ('f, 'x) system \<Rightarrow> ('f, 'x) system \<Rightarrow> bool" for t where
  step_lock: "sys_at s i (AtLock key delta) \<Longrightarrow> mutex s key \<inter> sys_locked s = {} \<Longrightarrow>
    sys_step t s (go_to i (Locked key delta) (s\<lparr>sys_locked := sys_locked s \<union> mutex s key\<rparr>))"
| step_unlock: "sys_at s i (Unlocking key) \<Longrightarrow>
    sys_step t s (go_to i Returned (s\<lparr>sys_locked := sys_locked s - mutex s key\<rparr>))"
| step_go: "sys_at s i p \<Longrightarrow> go_step t p (sys_group s) (sys_world s) p' g w \<Longrightarrow>
    sys_step t s (go_to i p' (s\<lparr>sys_group := g, sys_world := w\<rparr>))"
| step_env: "env_step (sys_group s) (sys_world s) g w \<Longrightarrow> sys_step t s (s\<lparr>sys_group := g, sys_world := w\<rparr>)"

inductive sys_reachable :: "'x Transport \<Rightarrow> ('f, 'x) system \<Rightarrow> ('f, 'x) system \<Rightarrow> bool" for t s0 where
  reach_init: "sys_reachable t s0 s0"
| reach_step: "sys_reachable t s0 s \<Longrightarrow> sys_step t s s' \<Longrightarrow> sys_reachable t s0 s'"

inductive_cases go_stepE: "go_step t p g w p' g' w'"
inductive_cases env_stepE: "env_step g w g' w'"

text \<open>
  What the theorems ask of the backing store: it keeps a number per key, which a successful increment
  of the key sets to the number it returns; failed increments, the getter and the requests of loads
  to peers change no number.
\<close>

definition durable_counter ::
  "'x Transport \<Rightarrow> (string \<Rightarrow> int \<Rightarrow> 'x \<Rightarrow> int result \<times> 'x) \<Rightarrow> (string \<Rightarrow> 'x \<Rightarrow> bytes result \<times> 'x) \<Rightarrow> ('x \<Rightarrow> string \<Rightarrow> int) \<Rightarrow> bool" where
  "durable_counter t inc get number \<longleftrightarrow>
     (\<forall>key delta x n x'. inc key delta x = (Inr n, x') \<longrightarrow> number x' = (number x)(key := n) \<and> in_i64 n)
     \<and> (\<forall>key delta x err x'. inc key delta x = (Inl err, x') \<longrightarrow> number x' = number x)
     \<and> (\<forall>key x r x'. get key x = (r, x') \<longrightarrow> number x' = number x)
     \<and> (\<forall>h request response x r x'. getter_Get t h request response x = (r, x') \<longrightarrow> number x' = number x)"

section \<open>What every step keeps\<close>

text \<open>Whatever a goroutine is going to write fits into the caches.\<close>

definition fits_negative :: "('f, 'x) Group \<Rightarrow> string \<Rightarrow> bool" where
  "fits_negative g key \<longleftrightarrow> (gr_negativeCacheEnabled g \<and> 0 < gr_negativeTTL g \<longrightarrow> group_fits g key negative_view)"

definition fits_getter :: "('f, 'x) Group \<Rightarrow> string \<Rightarrow> bool" where
  "fits_getter g key \<longleftrightarrow> fits_negative g key \<and> (\<forall>x b x'. gr_getter g key x = (Inr b, x') \<longrightarrow> group_fits g key (bytes_view b))"

definition fits_writes :: "'x Transport \<Rightarrow> ('f, 'x) Group \<Rightarrow> goroutine \<Rightarrow> bool" where
  "fits_writes t g p \<longleftrightarrow> (case p of
     AtLock key delta \<Rightarrow> \<forall>n. in_i64 n \<longrightarrow> group_fits g key (bytes_view (FormatInt n))
   | Locked key delta \<Rightarrow> \<forall>n. in_i64 n \<longrightarrow> group_fits g key (bytes_view (FormatInt n))
   | AtLoad key \<Rightarrow> fits_getter g key
       \<and> (\<forall>x response x'. peer_answers t g key x None response x' \<longrightarrow> group_fits g key (bytes_view (rs_Value response)))
   | AtFilter key \<Rightarrow> fits_getter g key
   | AtGetter key \<Rightarrow> fits_getter g key
   | AtNegative key \<Rightarrow> fits_negative g key
   | Writing org key v \<Rightarrow> group_fits g key v \<and> \<not> isNotFound v
   | WroteActive org key v ttl \<Rightarrow> group_fits g key v \<and> \<not> isNotFound v
   | _ \<Rightarrow> True)"

definition sys_ok ::
  "'x Transport \<Rightarrow> (string \<Rightarrow> int \<Rightarrow> 'x \<Rightarrow> int result \<times> 'x) \<Rightarrow> (string \<Rightarrow> 'x \<Rightarrow> bytes result \<times> 'x) \<Rightarrow> ('f, 'x) system \<Rightarrow> bool" where
  "sys_ok t inc get s \<longleftrightarrow> caches_ok (sys_group s) \<and> gr_mainCache (sys_group s) \<noteq> None
     \<and> gr_incrementer (sys_group s) = Some inc \<and> gr_getter (sys_group s) = get
     \<and> (\<exists>m. gr_incrementLocks (sys_group s) = Some m \<and> 0 < m) \<and> (\<forall>p \<in> set (sys_go s). fits_writes t (sys_group s) p)"

lemma config_locks: "config g' = config g \<Longrightarrow> gr_incrementLocks g' = gr_incrementLocks g"
  by (cases g; cases g'; simp add: config_def)

lemma store_active_views:
  assumes "gr_mainCache g \<noteq> None" and "caches_ok g" and "group_fits g key v" and "store_active key v ttl g w = Some (g', w')"
  shows "caches_ok g'" "group_fits g' = group_fits g" "config g' = config g" "gr_mainCache g' \<noteq> None" "w_ext w' = w_ext w"
    and "\<exists>e. active_view g' \<subseteq>\<^sub>m (active_view g)(key \<mapsto> (v, e))"
proof -
  obtain c where c: "gr_mainCache g = Some c" using assms(1) by blast
  obtain g1 where g1: "store_active key v ttl g w = Some (g1, w\<lparr>w_ticks := Suc (w_ticks w)\<rparr>)" "caches_ok g1"
    "group_fits g1 = group_fits g" "config g1 = config g" "gr_mainCache g1 \<noteq> None"
    using store_active_run [OF c assms(2,3), of ttl w] by metis
  then show "caches_ok g'" "group_fits g' = group_fits g" "config g' = config g" "gr_mainCache g' \<noteq> None" "w_ext w' = w_ext w"
    using assms(4) by auto
  have ok: "Cache_ok c" "Cache_fits c key v"
    using assms(2,3) c by (simp_all add: caches_ok_def group_fits_def group_caches_def)
  obtain c' where c': "use_addWithTTL key v (max 0 ttl) c w = Some (c', w\<lparr>w_ticks := Suc (w_ticks w)\<rparr>)"
    "Cache_look c' \<subseteq>\<^sub>m (Cache_look c)(key \<mapsto> (v, expiry_of (add_time w) (max 0 ttl)))"
    using use_add_run [OF ok, of "max 0 ttl" w] by metis
  have "active_view g' = Cache_look c'" "active_view g = Cache_look c"
    using assms(4) c c'(1) by (auto simp: store_active_def use_add_TTL active_view_def max_def fun_eq_iff split: if_splits)
  then show "\<exists>e. active_view g' \<subseteq>\<^sub>m (active_view g)(key \<mapsto> (v, e))" using c'(2) by auto
qed

lemma recordStale_views:
  assumes "caches_ok g" and "group_fits g key v" and "\<not> isNotFound v" and "recordStale key v ttl g w = Some (g', w')"
  shows "caches_ok g'" "group_fits g' = group_fits g" "config g' = config g" "gr_mainCache g' = gr_mainCache g" "w_ext w' = w_ext w"
proof -
  obtain g1 n where "recordStale key v ttl g w = Some (g1, w\<lparr>w_ticks := w_ticks w + n\<rparr>)" "caches_ok g1" "group_fits g1 = group_fits g"
    "config g1 = config g" "gr_mainCache g1 = gr_mainCache g"
    using recordStale_run [OF assms(1-3), of ttl w] by metis
  then show "caches_ok g'" "group_fits g' = group_fits g" "config g' = config g" "gr_mainCache g' = gr_mainCache g" "w_ext w' = w_ext w"
    using assms(4) by auto
qed

lemma filter_add_frame: "filter_add key g = Some g' \<Longrightarrow> \<exists>f. g' = g\<lparr>gr_filter := f\<rparr>"
  by (auto simp: filter_add_def)

lemma use_get_views:
  assumes "Cache_ok c" and "use_get key c w = Some (r, c', w')"
  shows "Cache_ok c'" "Cache_fits c' = Cache_fits c" "Cache_look c' \<subseteq>\<^sub>m Cache_look c" "w_ext w' = w_ext w"
proof -
  obtain c1 d where c1: "use_get key c w = Some (live (get_time w) (Cache_look c key), c1,
      w\<lparr>w_ticks := w_ticks w + 3, w_stats := RecordCacheGetLatency d (w_stats w)\<rparr>)"
    "Cache_ok c1" "\<And>k. Cache_fits c1 k = Cache_fits c k"
    "Cache_look c1 = (if live (get_time w) (Cache_look c key) = None then (Cache_look c)(key := None) else Cache_look c)"
    using use_get_run [OF assms(1), of key w] by metis
  then show "Cache_ok c'" "Cache_fits c' = Cache_fits c" "Cache_look c' \<subseteq>\<^sub>m Cache_look c" "w_ext w' = w_ext w"
    using assms(2) by (auto simp: fun_eq_iff map_le_def split: if_splits)
qed

lemma nextTTL_frame: "nextTTL g w = Some (ttl, w') \<Longrightarrow> w_ext w' = w_ext w"
  by (auto simp: nextTTL_def rand_Int63n_def Let_def split: if_splits)

lemma cacheNegative_views:
  assumes "gr_mainCache g \<noteq> None" and "caches_ok g" and "fits_negative g key" and "cacheNegative key g w = Some (g', w')"
  shows "caches_ok g'" "group_fits g' = group_fits g" "config g' = config g" "gr_mainCache g' \<noteq> None" "w_ext w' = w_ext w"
    and "\<exists>v e. active_view g' \<subseteq>\<^sub>m (active_view g)(key \<mapsto> (v, e))"
proof -
  have "caches_ok g' \<and> group_fits g' = group_fits g \<and> config g' = config g \<and> gr_mainCache g' \<noteq> None \<and> w_ext w' = w_ext w
    \<and> (\<exists>v e. active_view g' \<subseteq>\<^sub>m (active_view g)(key \<mapsto> (v, e)))"
  proof (cases "gr_negativeCacheEnabled g \<and> 0 < gr_negativeTTL g")
    case True
    then have "group_fits g key negative_view" "store_active key negative_view (gr_negativeTTL g) g w = Some (g', w')"
      using assms(3,4) by (simp_all add: fits_negative_def cacheNegative_store)
    from store_active_views [OF assms(1,2) this] show ?thesis by blast
  next
    case False
    then have same: "g' = g" "w' = w" using assms(4) by (auto simp: cacheNegative_def)
    have "active_view g \<subseteq>\<^sub>m (active_view g)(key \<mapsto> (v, e))" if "active_view g key = Some (v, e)" for v e
      using that by (auto simp: map_le_def)
    moreover have "active_view g \<subseteq>\<^sub>m (active_view g)(key \<mapsto> p)" if "active_view g key = None" for p
      using that by (auto simp: map_le_def)
    ultimately have "\<exists>v e. active_view g \<subseteq>\<^sub>m (active_view g)(key \<mapsto> (v, e))" by (cases "active_view g key") auto
    then show ?thesis using assms(1,2) same by simp
  qed
  then show "caches_ok g'" "group_fits g' = group_fits g" "config g' = config g" "gr_mainCache g' \<noteq> None" "w_ext w' = w_ext w"
    and "\<exists>v e. active_view g' \<subseteq>\<^sub>m (active_view g)(key \<mapsto> (v, e))" by blast+
qed

text \<open>What a step does to a group, to what it serves and to the numbers.\<close>

definition group_kept :: "('f, 'x) Group \<Rightarrow> ('f, 'x) Group \<Rightarrow> bool" where
  "group_kept g g' \<longleftrightarrow> caches_ok g' \<and> gr_mainCache g' \<noteq> None \<and> config g' = config g \<and> group_fits g' = group_fits g"

lemma fits_writes_cong: "config g' = config g \<Longrightarrow> group_fits g' = group_fits g \<Longrightarrow> fits_writes t g' = fits_writes t g"
proof
  fix p
  assume "config g' = config g" and "group_fits g' = group_fits g"
  then show "fits_writes t g' p = fits_writes t g p" using config_fields [of g' g]
    by (cases p) (simp_all add: fits_writes_def fits_getter_def fits_negative_def peer_answers_def)
qed

lemma go_step_kept:
  assumes "go_step t p g w p' g' w'" and "caches_ok g" and "gr_mainCache g \<noteq> None" and "fits_writes t g p"
  shows "group_kept g g'"
  using assms(1)
proof cases
  case (step_negative key)
  then show ?thesis using cacheNegative_views [OF assms(3,2) _ step_negative(3)] assms(4)
    by (simp add: group_kept_def fits_writes_def)
next
  case (step_active ttl w1 key v org)
  then show ?thesis using store_active_views [OF assms(3,2) _ step_active(4)] assms(4)
    by (simp add: group_kept_def fits_writes_def)
next
  case (step_stale key v ttl org)
  then show ?thesis using recordStale_views [OF assms(2) _ _ step_stale(3)] assms(3,4)
    by (simp add: group_kept_def fits_writes_def)
next
  case (step_filter key org)
  then show ?thesis using filter_add_frame [OF step_filter(4)] assms(2,3) by (auto simp: group_kept_def)
qed (use assms(2,3) in \<open>simp_all add: group_kept_def\<close>)

lemma go_step_fits:
  assumes "go_step t p g w p' g' w'" and "fits_writes t g p" and "gr_incrementer g = Some inc" and "gr_getter g = get"
    and "durable_counter t inc get number"
  shows "fits_writes t g p'"
  using assms(1)
proof cases
  case (step_apply inc' key delta n x)
  then have "in_i64 n" using assms(3,5) by (auto simp: durable_counter_def)
  then show ?thesis using step_apply assms(2) by (simp add: fits_writes_def stampActiveValue_def)
next
  case (step_load key b w2)
  then have "\<exists>x'. gr_getter g key (w_ext w) = (Inr b, x')" by (auto simp: call_getter_def split: prod.splits)
  then show ?thesis using step_load assms(2) by (auto simp: fits_writes_def fits_getter_def stampActiveValue_def)
next
  case (step_peer key response x)
  then show ?thesis using assms(2) by (auto simp: fits_writes_def stampActiveValue_def)
qed (use assms(2) in \<open>auto simp: fits_writes_def fits_getter_def split: origin.splits\<close>)

lemma env_step_kept:
  assumes "env_step g w g' w'" and "caches_ok g" and "gr_mainCache g \<noteq> None" and "durable_counter t inc (gr_getter g) number"
  shows "group_kept g g' \<and> active_view g' \<subseteq>\<^sub>m active_view g \<and> number (w_ext w') = number (w_ext w)"
proof -
  have main: "Cache_ok c" "active_view g = Cache_look c" if "gr_mainCache g = Some c" for c
    using assms(2) that by (simp_all add: caches_ok_def group_caches_def active_view_def fun_eq_iff)
  have stale: "Cache_ok c" if "gr_staleCache g = Some c" for c
    using assms(2) that by (simp add: caches_ok_def group_caches_def)
  have put: "group_kept g (g\<lparr>gr_mainCache := Some c'\<rparr>) \<and> active_view (g\<lparr>gr_mainCache := Some c'\<rparr>) \<subseteq>\<^sub>m active_view g"
    if "gr_mainCache g = Some c" "Cache_ok c'" "Cache_fits c' = Cache_fits c" "Cache_look c' \<subseteq>\<^sub>m Cache_look c" for c c'
  proof -
    have "group_fits (g\<lparr>gr_mainCache := Some c'\<rparr>) = group_fits g"
      using that(1,3) by (auto simp: group_fits_def group_caches_def fun_eq_iff)
    moreover have "caches_ok (g\<lparr>gr_mainCache := Some c'\<rparr>)" using that(2) assms(2) by (auto simp: caches_ok_def group_caches_def)
    ultimately show ?thesis using that(4) main(2) [OF that(1)] by (simp add: group_kept_def)
  qed
  have put_stale: "group_kept g (g\<lparr>gr_staleCache := Some c'\<rparr>)"
    if "gr_staleCache g = Some c" "Cache_ok c'" "Cache_fits c' = Cache_fits c" for c c'
    using that assms(2,3) by (auto simp: group_kept_def caches_ok_def group_caches_def group_fits_def fun_eq_iff)
  have removed: "Cache_ok c' \<and> Cache_fits c' = Cache_fits c \<and> Cache_look c' \<subseteq>\<^sub>m Cache_look c"
    if "Cache_ok c" "Cache_remove key c = Some c'" for key c c'
    using caches.remove_ok [OF that(1), of key] caches.remove_fits [OF that] that(2) by (auto simp: map_le_def fun_eq_iff)
  have purged: "Cache_ok c' \<and> Cache_fits c' = Cache_fits c \<and> Cache_look c' \<subseteq>\<^sub>m Cache_look c"
    if "Cache_ok c" "c' = Cache_clearupExpired clk c" for clk c c'
    using caches.purge_ok caches.purge_look caches.purge_fits that by (auto simp: fun_eq_iff)
  have same: "group_kept g g" using assms(2,3) by (simp add: group_kept_def)
  show ?thesis using assms(1)
  proof cases
    case (env_lookup c key r c')
    then show ?thesis using put [OF env_lookup(2)] use_get_views [OF main(1) env_lookup(3)] by simp
  next
    case (env_lookup_stale key r)
    show ?thesis
    proof (cases "gr_staleCache g = None \<or> gr_staleTTL g \<le> 0")
      case True
      then show ?thesis using env_lookup_stale same by (auto simp: getStale_def split: option.splits if_splits Option.bind_splits)
    next
      case False
      then obtain c c' w1 where c: "gr_staleCache g = Some c" "use_get key c w = Some (r, c', w1)" "g' = g\<lparr>gr_staleCache := Some c'\<rparr>"
        "w_ext w' = w_ext w1"
        using env_lookup_stale by (auto simp: getStale_def Let_def split: option.splits if_splits Option.bind_splits)
      then show ?thesis using put_stale [OF c(1)] use_get_views [OF stale c(2)] by simp
    qed
  next
    case (env_remove c key c')
    then show ?thesis using put [OF env_remove(3)] removed main by blast
  next
    case (env_remove_stale c key c')
    then show ?thesis using put_stale [OF env_remove_stale(3)] removed [OF stale] by auto
  next
    case (env_purge c clk)
    then show ?thesis using put [OF env_purge(3)] purged main by blast
  next
    case (env_purge_stale c clk)
    then show ?thesis using put_stale [OF env_purge_stale(3)] purged [OF stale] by auto
  next
    case (env_warmup key r)
    then have "number (w_ext w') = number (w_ext w)" and g': "g' = g\<lparr>gr_filter := gr_filter g'\<rparr>"
      using assms(4) by (auto simp: getLocallyOnlyForWarmUp_def call_getter_def durable_counter_def filter_add_def
          split: prod.splits sum.splits Option.bind_splits)
    moreover have "group_kept g g'" "active_view g' = active_view g"
      by (subst g', use assms(2,3) in \<open>simp add: group_kept_def\<close>)+
    ultimately show ?thesis by simp
  next
    case (env_reset f)
    then show ?thesis using assms(2,3) by (simp add: group_kept_def)
  qed
qed

lemma sys_atD: "sys_at s i p \<Longrightarrow> p \<in> set (sys_go s)"
  by (auto simp: sys_at_def)

lemma go_to_simps [simp]:
  "sys_group (go_to i p s) = sys_group s" "sys_world (go_to i p s) = sys_world s" "sys_locked (go_to i p s) = sys_locked s"
  "length (sys_go (go_to i p s)) = length (sys_go s)" "mutex (go_to i p s) = mutex s"
  by (simp_all add: go_to_def mutex_def fun_eq_iff)

lemma sys_at_go_to: "sys_at (go_to i p s) j q \<longleftrightarrow> j < length (sys_go s) \<and> (if j = i then q = p else sys_at s j q)"
  by (auto simp: sys_at_def go_to_def nth_list_update)

lemma go_to_set: "q \<in> set (sys_go (go_to i p s)) \<Longrightarrow> q = p \<or> q \<in> set (sys_go s)"
  using set_update_subset_insert [of "sys_go s" i p] by (auto simp: go_to_def)

lemma sys_okD:
  assumes "sys_ok t inc get s"
  shows "caches_ok (sys_group s)" "gr_mainCache (sys_group s) \<noteq> None" "gr_incrementer (sys_group s) = Some inc"
    "gr_getter (sys_group s) = get" "sys_at s i p \<Longrightarrow> fits_writes t (sys_group s) p"
  using assms sys_atD by (auto simp: sys_ok_def)

lemma sys_ok_kept:
  assumes "sys_ok t inc get s" and "group_kept (sys_group s) (sys_group s')"
    and "\<And>p. p \<in> set (sys_go s') \<Longrightarrow> p \<in> set (sys_go s) \<or> fits_writes t (sys_group s) p"
  shows "sys_ok t inc get s'"
proof -
  have g: "caches_ok (sys_group s')" "gr_mainCache (sys_group s') \<noteq> None" "config (sys_group s') = config (sys_group s)"
    "group_fits (sys_group s') = group_fits (sys_group s)" using assms(2) by (simp_all add: group_kept_def)
  show ?thesis using g(1,2) assms(1,3) fits_writes_cong [OF g(3,4), of t]
    by (auto simp: sys_ok_def config_fields(2,3) [OF g(3)] config_locks [OF g(3)])
qed

lemma sys_step_ok:
  assumes "sys_step t s s'" and "sys_ok t inc get s" and "durable_counter t inc get number"
  shows "sys_ok t inc get s' \<and> group_kept (sys_group s) (sys_group s')"
proof -
  note ok = sys_okD [OF assms(2)]
  have same: "group_kept (sys_group s) (sys_group s)" using ok by (simp add: group_kept_def)
  show ?thesis using assms(1)
  proof cases
    case (step_lock i key delta)
    then have "fits_writes t (sys_group s) (Locked key delta)" using ok(5) by (fastforce simp: fits_writes_def)
    then show ?thesis using step_lock same by (auto intro!: sys_ok_kept [OF assms(2)] dest!: go_to_set)
  next
    case (step_unlock i key)
    then show ?thesis using same by (auto simp: fits_writes_def intro!: sys_ok_kept [OF assms(2)] dest!: go_to_set)
  next
    case (step_go i p p' g w)
    have "group_kept (sys_group s) g" using go_step_kept [OF step_go(3) ok(1,2) ok(5) [OF step_go(2)]] .
    moreover have "fits_writes t (sys_group s) p'" using go_step_fits [OF step_go(3) ok(5) [OF step_go(2)] ok(3,4) assms(3)] .
    ultimately show ?thesis using step_go(1) by (auto intro!: sys_ok_kept [OF assms(2)] dest!: go_to_set)
  next
    case (step_env g w)
    then have "group_kept (sys_group s) g" using env_step_kept [OF step_env(2) ok(1,2)] ok(4) assms(3) by blast
    then show ?thesis using step_env(1) by (auto intro!: sys_ok_kept [OF assms(2)])
  qed
qed

section \<open>Mutual exclusion\<close>

text \<open>The key whose mutex a goroutine holds, and the key it is loading without one.\<close>

fun holds :: "goroutine \<Rightarrow> string option" where
  "holds (Locked key delta) = Some key"
| "holds (Writing (FromIncrement n) key v) = Some key"
| "holds (WroteActive (FromIncrement n) key v ttl) = Some key"
| "holds (WroteStale (FromIncrement n) key) = Some key"
| "holds (Unlocking key) = Some key"
| "holds _ = None"

fun loading :: "goroutine \<Rightarrow> string option" where
  "loading (AtLoad key) = Some key"
| "loading (AtFilter key) = Some key"
| "loading (AtGetter key) = Some key"
| "loading (AtNegative key) = Some key"
| "loading (Writing FromLoad key v) = Some key"
| "loading _ = None"

definition mutex_ok :: "('f, 'x) system \<Rightarrow> bool" where
  "mutex_ok s \<longleftrightarrow>
     (\<forall>i p k. sys_at s i p \<longrightarrow> holds p = Some k \<longrightarrow> mutex s k \<subseteq> sys_locked s)
     \<and> (\<forall>i j p q k k'. sys_at s i p \<longrightarrow> sys_at s j q \<longrightarrow> holds p = Some k \<longrightarrow> holds q = Some k' \<longrightarrow>
          mutex s k \<inter> mutex s k' \<noteq> {} \<longrightarrow> i = j)"

lemma mutex_okD:
  assumes "mutex_ok s"
  shows "sys_at s i p \<Longrightarrow> holds p = Some k \<Longrightarrow> mutex s k \<subseteq> sys_locked s"
    and "sys_at s i p \<Longrightarrow> sys_at s j q \<Longrightarrow> holds p = Some k \<Longrightarrow> holds q = Some k' \<Longrightarrow> mutex s k \<inter> mutex s k' \<noteq> {} \<Longrightarrow> i = j"
  using assms unfolding mutex_ok_def by blast+

text \<open>A goroutine that keeps what it holds keeps mutual exclusion.\<close>

lemma mutex_ok_move:
  assumes "mutex_ok s" and "sys_at s i p" and "holds p' = holds p" and "mutex s' = mutex s"
    and "sys_locked s' = sys_locked s" and "sys_go s' = (sys_go s)[i := p']"
  shows "mutex_ok s'"
proof -
  have "\<exists>q'. sys_at s j q' \<and> holds q' = holds q" if "sys_at s' j q" for j q
    using that assms(2,3,6) by (cases "j = i") (auto simp: sys_at_def)
  then show ?thesis using assms(1,4,5) unfolding mutex_ok_def by metis
qed

lemma mutex_world [simp]:
  "mutex (s\<lparr>sys_world := w\<rparr>) = mutex s" "mutex (s\<lparr>sys_locked := l\<rparr>) = mutex s" "sys_at (s\<lparr>sys_world := w\<rparr>) = sys_at s"
  "sys_at (s\<lparr>sys_locked := l\<rparr>) = sys_at s" "sys_at (s\<lparr>sys_group := g\<rparr>) = sys_at s"
  "sys_at (s\<lparr>sys_group := g, sys_world := w\<rparr>) = sys_at s"
  by (simp_all add: mutex_def sys_at_def fun_eq_iff)

lemma go_step_holds: "go_step t p g w p' g' w' \<Longrightarrow> holds p' = holds p"
proof (induction rule: go_step.induct)
  case (step_active g w ttl w1 key v g' w' org)
  then show ?case by (cases org) simp_all
next
  case (step_stale key v ttl g w g' w' org)
  then show ?case by (cases org) simp_all
next
  case (step_filter key g g' org w)
  then show ?case by (cases org) simp_all
qed auto

lemma kept_mutex:
  assumes "group_kept (sys_group s) (sys_group s')"
  shows "mutex s' = mutex s"
proof -
  have c: "config (sys_group s') = config (sys_group s)" using assms by (simp add: group_kept_def)
  show ?thesis by (rule ext) (simp add: mutex_def config_locks [OF c])
qed

lemma sys_step_mutex:
  assumes "sys_step t s s'" and "mutex_ok s" and "group_kept (sys_group s) (sys_group s')"
  shows "mutex_ok s'"
proof -
  note m = kept_mutex [OF assms(3)]
  show ?thesis using assms(1)
  proof cases
    case (step_lock i key delta)
    then have "mutex s k \<inter> mutex s key = {}" if "sys_at s j p" "holds p = Some k" for j p k
      using mutex_okD(1) [OF assms(2) that] by blast
    then show ?thesis using step_lock assms(2) m unfolding mutex_ok_def by (auto simp: sys_at_go_to split: if_splits) blast+
  next
    case (step_unlock i key)
    have "mutex s k \<inter> mutex s key = {}" if "sys_at s j p" "holds p = Some k" "j \<noteq> i" for j p k
      using mutex_okD(2) [OF assms(2) that(1) step_unlock(2) that(2)] that(3) by auto
    then show ?thesis using step_unlock assms(2) m unfolding mutex_ok_def by (auto simp: sys_at_go_to split: if_splits) blast+
  next
    case (step_go i p p' g w)
    then show ?thesis by (intro mutex_ok_move [OF assms(2) step_go(2) go_step_holds [OF step_go(3)] m]) (simp_all add: go_to_def)
  next
    case (step_env g w)
    then show ?thesis using assms(2) m by (simp add: mutex_ok_def)
  qed
qed

section \<open>The cached counter\<close>

definition current :: "('x \<Rightarrow> string \<Rightarrow> int) \<Rightarrow> ('f, 'x) system \<Rightarrow> string \<Rightarrow> ByteView" where
  "current number s key = bytes_view (FormatInt (number (w_ext (sys_world s)) key))"

text \<open>An increment of the key has been applied and is not yet written to the cache.\<close>

definition in_flight :: "('f, 'x) system \<Rightarrow> string \<Rightarrow> bool" where
  "in_flight s key \<longleftrightarrow> (\<exists>i n v. sys_at s i (Writing (FromIncrement n) key v))"

definition no_loads :: "('f, 'x) system \<Rightarrow> string \<Rightarrow> bool" where
  "no_loads s key \<longleftrightarrow> (\<forall>i p. sys_at s i p \<longrightarrow> loading p \<noteq> Some key)"

definition cache_current :: "('x \<Rightarrow> string \<Rightarrow> int) \<Rightarrow> ('f, 'x) system \<Rightarrow> string \<Rightarrow> bool" where
  "cache_current number s key \<longleftrightarrow> (\<forall>v e. active_view (sys_group s) key = Some (v, e) \<longrightarrow> v = current number s key)"

definition counter_fresh :: "('x \<Rightarrow> string \<Rightarrow> int) \<Rightarrow> string \<Rightarrow> ('f, 'x) system \<Rightarrow> bool" where
  "counter_fresh number key s \<longleftrightarrow> no_loads s key \<and> (in_flight s key \<or> cache_current number s key)
     \<and> (\<forall>i n v. sys_at s i (Writing (FromIncrement n) key v) \<longrightarrow> v = current number s key)"

lemma counter_freshD:
  assumes "counter_fresh number key s"
  shows "no_loads s key" "\<not> in_flight s key \<Longrightarrow> cache_current number s key"
    "sys_at s i (Writing (FromIncrement n) key v) \<Longrightarrow> v = current number s key"
  using assms unfolding counter_fresh_def by blast+

text \<open>A step that changes neither the number nor who is about to write it.\<close>

lemma counter_fresh_move:
  assumes "counter_fresh number key s" and "current number s' key = current number s key"
    and "active_view (sys_group s') key \<in> {None, active_view (sys_group s) key}"
    and "\<And>i n v. sys_at s' i (Writing (FromIncrement n) key v) \<longleftrightarrow> sys_at s i (Writing (FromIncrement n) key v)"
    and "no_loads s' key"
  shows "counter_fresh number key s'"
proof -
  have "cache_current number s key \<Longrightarrow> cache_current number s' key"
    using assms(2,3) by (auto simp: cache_current_def)
  then show ?thesis using assms(1,2,4,5) unfolding counter_fresh_def in_flight_def by metis
qed

lemma no_loads_go:
  assumes "no_loads s key" and "sys_go s' = (sys_go s)[i := p']" and "loading p' \<noteq> Some key"
  shows "no_loads s' key"
proof -
  have "loading p \<noteq> Some key" if "sys_at s' j p" for j p
    using that assms by (cases "j = i") (auto simp: no_loads_def sys_at_def)
  then show ?thesis by (simp add: no_loads_def)
qed

lemma counter_fresh_go:
  assumes "counter_fresh number key s" and "current number s' key = current number s key"
    and "active_view (sys_group s') key \<in> {None, active_view (sys_group s) key}"
    and "sys_at s i p" and "\<And>n v. p \<noteq> Writing (FromIncrement n) key v" and "\<And>n v. p' \<noteq> Writing (FromIncrement n) key v"
    and "loading p' \<noteq> Some key" and "sys_go s' = (sys_go s)[i := p']"
  shows "counter_fresh number key s'"
proof (rule counter_fresh_move [OF assms(1-3)])
  show "sys_at s' j (Writing (FromIncrement n) key v) \<longleftrightarrow> sys_at s j (Writing (FromIncrement n) key v)" for j n v
    using assms(4-6,8) by (cases "j = i") (auto simp: sys_at_def)
qed (rule no_loads_go [OF counter_freshD(1) [OF assms(1)] assms(8,7)])

text \<open>With the mutex, no two goroutines are past the lock of the same key.\<close>

lemma holder_alone:
  assumes "mutex_ok s" and "sys_ok t inc get s" and "sys_at s i p" and "holds p = Some key" and "sys_at s j q" and "holds q = Some key"
  shows "i = j"
proof -
  have "mutex s key \<noteq> {}" using assms(2) by (auto simp: mutex_def stripe_of_def sys_ok_def)
  then show ?thesis using mutex_okD(2) [OF assms(1,3,5,4,6)] by auto
qed

lemma fresh_after_apply:
  assumes "counter_fresh number key s" and "mutex_ok s" and "sys_ok t inc get s" and "sys_at s i (Locked key delta)"
    and "number (w_ext w) key = n"
  shows "counter_fresh number key (go_to i (Writing (FromIncrement n) key (bytes_view (FormatInt n))) (s\<lparr>sys_group := g, sys_world := w\<rparr>))"
proof -
  let ?p = "Writing (FromIncrement n) key (bytes_view (FormatInt n))"
  let ?s = "go_to i ?p (s\<lparr>sys_group := g, sys_world := w\<rparr>)"
  have alone: "j = i" if "sys_at s j (Writing (FromIncrement m) key v)" for j m v
    using holder_alone [OF assms(2,3,4) _ that] by simp
  have i: "i < length (sys_go s)" using assms(4) by (simp add: sys_at_def)
  then have "in_flight ?s key" by (auto simp: in_flight_def sys_at_go_to)
  moreover have "no_loads ?s key" by (rule no_loads_go [OF counter_freshD(1) [OF assms(1)], of _ i ?p]) (simp_all add: go_to_def)
  moreover have "v = current number ?s key" if "sys_at ?s j (Writing (FromIncrement m) key v)" for j m v
    using that alone assms(5) by (auto simp: sys_at_go_to current_def split: if_splits)
  ultimately show ?thesis by (simp add: counter_fresh_def)
qed

lemma fresh_after_write:
  assumes "counter_fresh number key s" and "sys_at s i (Writing org key v)"
    and "number (w_ext w) = number (w_ext (sys_world s))" and "active_view g key \<in> {None, Some (v, e)}"
  shows "counter_fresh number key (go_to i (WroteActive org key v ttl) (s\<lparr>sys_group := g, sys_world := w\<rparr>))"
proof -
  let ?s = "go_to i (WroteActive org key v ttl) (s\<lparr>sys_group := g, sys_world := w\<rparr>)"
  have same: "current number ?s key = current number s key" by (simp add: current_def assms(3))
  obtain n where "org = FromIncrement n"
    using assms(2) counter_freshD(1) [OF assms(1)] by (cases org) (fastforce simp: no_loads_def)+
  then have "v = current number s key" using counter_freshD(3) [OF assms(1)] assms(2) by blast
  then have "cache_current number ?s key" using assms(4) same by (auto simp: cache_current_def)
  moreover have "no_loads ?s key"
    by (rule no_loads_go [OF counter_freshD(1) [OF assms(1)], of _ i "WroteActive org key v ttl"]) (simp_all add: go_to_def)
  moreover have "v' = current number ?s key" if "sys_at ?s j (Writing (FromIncrement m) key v')" for j m v'
    using that same counter_freshD(3) [OF assms(1)] by (auto simp: sys_at_go_to split: if_splits)
  ultimately show ?thesis by (simp add: counter_fresh_def)
qed

text \<open>What the step of a goroutine does to the numbers and to the active cache.\<close>

lemma active_view_cong: "gr_mainCache g' = gr_mainCache g \<Longrightarrow> active_view g' = active_view g"
  by (simp add: active_view_def fun_eq_iff)

lemma go_step_effect:
  assumes "go_step t p g w p' g' w'" and "caches_ok g" and "gr_mainCache g \<noteq> None" and "fits_writes t g p"
    and "gr_incrementer g = Some inc" and "durable_counter t inc (gr_getter g) number"
  shows "(\<exists>key delta n. p = Locked key delta \<and> p' = Writing (FromIncrement n) key (bytes_view (FormatInt n))
        \<and> number (w_ext w') = (number (w_ext w))(key := n) \<and> active_view g' = active_view g)
    \<or> (\<exists>org key v ttl e. p = Writing org key v \<and> p' = WroteActive org key v ttl
        \<and> number (w_ext w') = number (w_ext w) \<and> active_view g' \<subseteq>\<^sub>m (active_view g)(key \<mapsto> (v, e)))
    \<or> (\<exists>key v e. p = AtNegative key \<and> p' = Returned
        \<and> number (w_ext w') = number (w_ext w) \<and> active_view g' \<subseteq>\<^sub>m (active_view g)(key \<mapsto> (v, e)))
    \<or> ((\<forall>n key v. p \<noteq> Writing (FromIncrement n) key v \<and> p' \<noteq> Writing (FromIncrement n) key v) \<and> loading p' \<in> {None, loading p}
        \<and> number (w_ext w') = number (w_ext w) \<and> active_view g' = active_view g)"
  using assms(1)
proof cases
  case (step_apply inc' key delta n x)
  then show ?thesis using assms(5,6) by (auto simp: durable_counter_def stampActiveValue_def)
next
  case (step_apply_fails inc' key delta err x)
  then have "number x = number (w_ext w)" using assms(5,6) by (auto simp: durable_counter_def)
  then show ?thesis using step_apply_fails by simp
next
  case (step_peer key response x)
  then have "number x = number (w_ext w)" using assms(6) by (auto simp: durable_counter_def peer_answers_def)
  then show ?thesis using step_peer by simp
next
  case (step_peer_fails key err response x)
  then have "number x = number (w_ext w)" using assms(6) by (auto simp: durable_counter_def peer_answers_def)
  then show ?thesis using step_peer_fails by simp
next
  case (step_load key b w2)
  then have "number (w_ext w2) = number (w_ext w)" using assms(6) by (auto simp: durable_counter_def call_getter_def split: prod.splits)
  then show ?thesis using step_load by simp
next
  case (step_load_fails key err)
  then have "number (w_ext w') = number (w_ext w)" using assms(6) by (auto simp: durable_counter_def call_getter_def split: prod.splits)
  then show ?thesis using step_load_fails by simp
next
  case (step_negative key)
  then have "fits_negative g key" using assms(4) by (simp add: fits_writes_def)
  note views = cacheNegative_views [OF assms(3,2) this step_negative(3)]
  show ?thesis using step_negative(1,2) views(5,6) by simp
next
  case (step_active ttl w1 key v org)
  then have "group_fits g key v" using assms(4) by (simp add: fits_writes_def)
  note views = store_active_views [OF assms(3,2) this step_active(4)]
  have "w_ext w' = w_ext w" using views(5) nextTTL_frame [OF step_active(3)] by simp
  then show ?thesis using step_active(1,2) views(6) by simp
next
  case (step_stale key v ttl org)
  then have "group_fits g key v" "\<not> isNotFound v" using assms(4) by (simp_all add: fits_writes_def)
  note views = recordStale_views [OF assms(2) this step_stale(3)]
  show ?thesis using step_stale(1,2) views(5) active_view_cong [OF views(4)] by simp
next
  case (step_filter key org)
  then obtain f where "g' = g\<lparr>gr_filter := f\<rparr>" using filter_add_frame by blast
  then show ?thesis using step_filter(1,2,3) by (cases org) simp_all
qed simp_all

lemma go_step_fresh:
  assumes "go_step t p (sys_group s) (sys_world s) p' g w" and "sys_at s i p" and "sys_ok t inc get s" and "mutex_ok s"
    and "durable_counter t inc get number" and "counter_fresh number key s"
  shows "counter_fresh number key (go_to i p' (s\<lparr>sys_group := g, sys_world := w\<rparr>))"
proof -
  note ok = sys_okD [OF assms(3)]
  have dc: "durable_counter t inc (gr_getter (sys_group s)) number" using assms(5) ok(4) by simp
  have nl: "loading p \<noteq> Some key" using counter_freshD(1) [OF assms(6)] assms(2) by (simp add: no_loads_def)
  from go_step_effect [OF assms(1) ok(1,2) ok(5) [OF assms(2)] ok(3) dc]
  show ?thesis
  proof (elim disjE exE conjE, goal_cases)
    case (1 k delta n)
    show ?thesis
    proof (cases "k = key")
      case True
      then show ?thesis using fresh_after_apply [OF assms(6,4,3), of i delta w n g] assms(2) 1(1-3) by simp
    next
      case False
      then show ?thesis using 1 by (intro counter_fresh_go [OF assms(6) _ _ assms(2)]) (auto simp: go_to_def current_def)
    qed
  next
    case (2 org k v ttl e)
    show ?thesis
    proof (cases "k = key")
      case True
      then show ?thesis
        using fresh_after_write [OF assms(6), of i org v w g e ttl] assms(2) 2(1-3) map_le_cases [OF 2(4), of key] by auto
    next
      case False
      then show ?thesis using 2(1-3) map_le_cases [OF 2(4), of key]
        by (intro counter_fresh_go [OF assms(6) _ _ assms(2)]) (auto simp: go_to_def current_def)
    qed
  next
    case (3 k v e)
    then have "k \<noteq> key" using nl by auto
    then show ?thesis using 3(1-3) map_le_cases [OF 3(4), of key]
      by (intro counter_fresh_go [OF assms(6) _ _ assms(2)]) (auto simp: go_to_def current_def)
  next
    case 4
    then show ?thesis using nl
      by (intro counter_fresh_go [OF assms(6) _ _ assms(2)]) (auto simp: go_to_def current_def)
  qed
qed

lemma sys_step_fresh:
  assumes "sys_step t s s'" and "sys_ok t inc get s" and "mutex_ok s" and "durable_counter t inc get number"
    and "counter_fresh number key s"
  shows "counter_fresh number key s'"
  using assms(1)
proof cases
  case (step_lock i key' delta)
  then show ?thesis by (intro counter_fresh_go [OF assms(5) _ _ step_lock(2)]) (auto simp: go_to_def current_def)
next
  case (step_unlock i key')
  then show ?thesis by (intro counter_fresh_go [OF assms(5) _ _ step_unlock(2)]) (auto simp: go_to_def current_def)
next
  case (step_go i p p' g w)
  then show ?thesis using go_step_fresh [OF step_go(3,2) assms(2-5)] by simp
next
  case (step_env g w)
  have "active_view g \<subseteq>\<^sub>m active_view (sys_group s)" "number (w_ext w) = number (w_ext (sys_world s))"
    using env_step_kept [OF step_env(2) sys_okD(1,2) [OF assms(2)], of t inc number] sys_okD(4) [OF assms(2)] assms(4) by simp_all
  then show ?thesis using step_env(1) map_le_cases [of "active_view g" "active_view (sys_group s)" key] counter_freshD(1) [OF assms(5)]
    by (intro counter_fresh_move [OF assms(5)]) (auto simp: current_def no_loads_def)
qed

lemma sys_reachable_inv:
  assumes "sys_reachable t s0 s" and "durable_counter t inc get number"
    and "sys_ok t inc get s0" and "mutex_ok s0" and "counter_fresh number key s0"
  shows "sys_ok t inc get s \<and> mutex_ok s \<and> counter_fresh number key s"
  using assms
proof (induction rule: sys_reachable.induct)
  case (reach_step s s')
  then show ?case using sys_step_ok sys_step_mutex sys_step_fresh by metis
qed simp

section \<open>The steps of one goroutine are its method\<close>

lemma sys_reachable_trans: "sys_reachable t s1 s2 \<Longrightarrow> sys_reachable t s0 s1 \<Longrightarrow> sys_reachable t s0 s2"
  by (induction rule: sys_reachable.induct) (auto intro: sys_reachable.intros)

lemma sys_reachable_Cons: "sys_step t s0 s1 \<Longrightarrow> sys_reachable t s1 s2 \<Longrightarrow> sys_reachable t s0 s2"
  using sys_reachable_trans [of t s1 s2 s0] reach_step [OF reach_init] by blast

lemma go_to_again [simp]:
  "go_to i q ((go_to i p s)\<lparr>sys_group := g\<rparr>) = go_to i q (s\<lparr>sys_group := g\<rparr>)"
  "go_to i q ((go_to i p s)\<lparr>sys_world := w\<rparr>) = go_to i q (s\<lparr>sys_world := w\<rparr>)"
  "go_to i q ((go_to i p s)\<lparr>sys_group := g, sys_world := w\<rparr>) = go_to i q (s\<lparr>sys_group := g, sys_world := w\<rparr>)"
  "go_to i q ((go_to i p s)\<lparr>sys_locked := l\<rparr>) = go_to i q (s\<lparr>sys_locked := l\<rparr>)"
  by (simp_all add: go_to_def)

lemma sys_update_order [simp]:
  "s\<lparr>sys_world := w, sys_group := g\<rparr> = s\<lparr>sys_group := g, sys_world := w\<rparr>"
  "s\<lparr>sys_locked := l, sys_group := g\<rparr> = s\<lparr>sys_group := g, sys_locked := l\<rparr>"
  "s\<lparr>sys_locked := l, sys_world := w\<rparr> = s\<lparr>sys_world := w, sys_locked := l\<rparr>"
  by simp_all

lemma remember_config: "remember key v ttl g w = Some (g', w') \<Longrightarrow> config g' = config g"
  by (auto simp: remember_def store_active_def recordStale_def filter_add_def Let_def
      split: Option.bind_splits option.splits if_splits)

lemma incrementLocally_main:
  "incrementLocally e key delta g w = Some (Inr n, g', w') \<Longrightarrow> gr_mainCache g \<noteq> None \<Longrightarrow> gr_mainCache g' \<noteq> None"
  by (auto simp: incrementLocally_def remember_def store_active_def recordStale_def filter_add_def Let_def
      split: Option.bind_splits option.splits if_splits prod.splits sum.splits)

lemma sys_at_self: "i < length (sys_go s) \<Longrightarrow> sys_at (go_to i p s) i p"
  by (simp add: sys_at_def go_to_def)

lemma write_steps:
  assumes "sys_at s i (Writing org key v)" and "nextTTL (sys_group s) (sys_world s) = Some (ttl, w1)"
    and "remember key v ttl (sys_group s) w1 = Some (g', w')"
  shows "sys_reachable t s (go_to i (case org of FromLoad \<Rightarrow> Returned | FromIncrement n \<Rightarrow> Unlocking key) (s\<lparr>sys_group := g', sys_world := w'\<rparr>))"
proof -
  have i: "i < length (sys_go s)" using assms(1) by (simp add: sys_at_def)
  obtain g1 w2 g2 where r: "store_active key v ttl (sys_group s) w1 = Some (g1, w2)" "recordStale key v ttl g1 w2 = Some (g2, w')"
    "filter_add key g2 = Some g'"
    using assms(3) by (auto simp: remember_def split: Option.bind_splits)
  let ?s1 = "go_to i (WroteActive org key v ttl) (s\<lparr>sys_group := g1, sys_world := w2\<rparr>)"
  let ?s2 = "go_to i (WroteStale org key) (s\<lparr>sys_group := g2, sys_world := w'\<rparr>)"
  have 1: "sys_step t s ?s1" by (rule step_go [OF assms(1) step_active [OF assms(2) r(1)]])
  have 2: "sys_step t ?s1 ?s2"
    using step_go [of ?s1 i "WroteActive org key v ttl" t "WroteStale org key" g2 w'] step_stale [OF r(2)] i
    by (simp add: go_to_def sys_at_def)
  have 3: "sys_step t ?s2 (go_to i (case org of FromLoad \<Rightarrow> Returned | FromIncrement n \<Rightarrow> Unlocking key) (s\<lparr>sys_group := g', sys_world := w'\<rparr>))"
    using step_go [of ?s2 i "WroteStale org key" t _ g' w'] step_filter [OF r(3)] i by (simp add: go_to_def sys_at_def)
  show ?thesis by (rule sys_reachable_Cons [OF 1 sys_reachable_Cons [OF 2 reach_step [OF reach_init 3]]])
qed

lemma increment_steps:
  assumes "sys_at s i (AtLock key delta)" and "mutex s key \<inter> sys_locked s = {}" and "gr_incrementer (sys_group s) = Some inc"
    and "inc key delta (w_ext (sys_world s)) = (Inr n, x)" and "gr_mainCache (sys_group s) \<noteq> None" and "key \<noteq> []"
    and "incrementLocally None key delta (sys_group s) (sys_world s) = Some (Inr n, g', w')"
  shows "sys_reachable t s (go_to i Returned (s\<lparr>sys_group := g', sys_world := w'\<rparr>))"
proof -
  have i: "i < length (sys_go s)" using assms(1) by (simp add: sys_at_def)
  let ?w = "(sys_world s)\<lparr>w_ext := x\<rparr>" and ?v = "stampActiveValue (FormatInt n)" and ?L = "sys_locked s \<union> mutex s key"
  obtain ttl w1 where r: "nextTTL (sys_group s) ?w = Some (ttl, w1)" "remember key ?v ttl (sys_group s) w1 = Some (g', w')"
    using assms(3-7) by (auto simp: incrementLocally_def Let_def split: Option.bind_splits)
  let ?s1 = "go_to i (Locked key delta) (s\<lparr>sys_locked := ?L\<rparr>)"
  let ?s2 = "go_to i (Writing (FromIncrement n) key ?v) (s\<lparr>sys_locked := ?L, sys_world := ?w\<rparr>)"
  let ?s3 = "go_to i (Unlocking key) (s\<lparr>sys_locked := ?L, sys_group := g', sys_world := w'\<rparr>)"
  have 1: "sys_step t s ?s1" by (rule step_lock [OF assms(1,2)])
  have 2: "sys_step t ?s1 ?s2"
    using step_go [of ?s1 i "Locked key delta" t _ "sys_group s" ?w] step_apply [OF assms(3,4)] i by (simp add: go_to_def sys_at_def)
  have 3: "sys_reachable t ?s2 ?s3"
    using write_steps [of ?s2 i "FromIncrement n" key ?v ttl w1 g' w' t] r i by (simp add: go_to_def sys_at_def)
  have locks: "gr_incrementLocks g' = gr_incrementLocks (sys_group s)"
    using remember_config [OF r(2)] config_locks by blast
  have 4: "sys_step t ?s3 (go_to i Returned (s\<lparr>sys_group := g', sys_world := w'\<rparr>))"
    using step_unlock [of ?s3 i key t] i assms(2) locks
    by (simp add: go_to_def sys_at_def mutex_def Un_Diff Diff_triv Int_commute)
  show ?thesis by (rule sys_reachable_Cons [OF 1 sys_reachable_Cons [OF 2 reach_step [OF 3 4]]])
qed

section \<open>Properties\<close>

text \<open>
  C5. Concurrent durable increments leave the newest number in the cache: however goroutines that
  increment any counters or load other keys interleave, with each other and with lookups,
  invalidations, purges, warm-ups and filter refreshes, no two of them are past the lock of the same
  key, and unless an increment of the key is between the backing store and the cache, the cache
  holds for the key nothing or the number the backing store holds. A load of the key itself would
  break it, as C37 shows.
\<close>

theorem durable_increments_keep_cache_current:
  assumes "durable_counter t inc get number" and "sys_ok t inc get s0" and "sys_locked s0 = {}"
    and "list_all (\<lambda>p. holds p = None \<and> loading p \<noteq> Some key) (sys_go s0)"
    and "cache_current number s0 key" and "sys_reachable t s0 s"
  shows "(\<forall>i j p q. sys_at s i p \<and> sys_at s j q \<and> holds p = Some key \<and> holds q = Some key \<longrightarrow> i = j)
    \<and> (in_flight s key \<or> (\<forall>v e. active_view (sys_group s) key = Some (v, e) \<longrightarrow>
         v = bytes_view (FormatInt (number (w_ext (sys_world s)) key))))"
proof -
  have start: "holds p = None \<and> loading p \<noteq> Some key" if "sys_at s0 i p" for i p
    using assms(4) sys_atD [OF that] by (simp add: list_all_iff)
  have "mutex_ok s0" using start unfolding mutex_ok_def by fastforce
  moreover have "counter_fresh number key s0" using start assms(5) unfolding counter_fresh_def no_loads_def by fastforce
  ultimately have inv: "sys_ok t inc get s" "mutex_ok s" "counter_fresh number key s"
    using sys_reachable_inv [OF assms(6,1,2)] by blast+
  show ?thesis
    using holder_alone [OF inv(2,1)] counter_freshD(2) [OF inv(3)] by (auto simp: cache_current_def current_def)
qed

text \<open>A group in front of a store of counters, and two goroutines that increment the same one.\<close>

definition counter_inc :: "string \<Rightarrow> int \<Rightarrow> (string \<Rightarrow> int) \<Rightarrow> int result \<times> (string \<Rightarrow> int)" where
  "counter_inc key delta m = (let n = i64 (m key + delta) in (Inr n, m(key := n)))"

definition counter_get :: "string \<Rightarrow> (string \<Rightarrow> int) \<Rightarrow> bytes result \<times> (string \<Rightarrow> int)" where
  "counter_get key m = (Inr (FormatInt (i64 (m key))), m)"

definition counter_group :: "(BloomFilter, string \<Rightarrow> int) Group" where
  "counter_group = \<lparr>gr_name = ''counters'', gr_getter = counter_get, gr_incrementer = Some counter_inc, gr_incrementLocks = Some 256,
     gr_mainCache = Some example_cache, gr_peers = None, gr_singleflightWaitTTL = 30, gr_filter = None,
     gr_filterRefresh = 0, gr_janitor = None, gr_cacheTTL = 100, gr_cacheTTLJitter = 10,
     gr_staleCache = None, gr_staleTTL = 0, gr_negativeCacheEnabled = False, gr_negativeTTL = 0\<rparr>"

definition counter_world :: "(string \<Rightarrow> int) world" where
  "counter_world = \<lparr>w_clock = int, w_ticks = 0, w_rand = (\<lambda>_. 7), w_draws = 0, w_stats = newMetrics, w_ext = (\<lambda>_. 0)\<rparr>"

definition counter_system :: "goroutine list \<Rightarrow> (BloomFilter, string \<Rightarrow> int) system" where
  "counter_system ps = \<lparr>sys_group = counter_group, sys_world = counter_world, sys_locked = {}, sys_go = ps\<rparr>"

lemma counter_ok:
  "group_ok I counter_group" "active_view counter_group k = None" "gr_mainCache counter_group \<noteq> None" "ttl_config counter_group"
  "gr_incrementer counter_group = Some counter_inc" "durable_counter (answering r) counter_inc counter_get (\<lambda>m. m)"
  "in_i64 n \<Longrightarrow> group_fits counter_group ''n'' (bytes_view (FormatInt n))"
proof -
  show "group_fits counter_group ''n'' (bytes_view (FormatInt n))" if "in_i64 n"
    using FormatInt_length [OF that] by (auto simp: counter_group_def group_fits_def group_caches_def item_cost_def ByteView_Len_def
        intro!: example_cache_props)
  show "durable_counter (answering r) counter_inc counter_get (\<lambda>m. m)"
    by (auto simp: durable_counter_def counter_inc_def counter_get_def getter_Get_def doProtoRequest_def answering_def Let_def
        split: if_splits)
qed (auto simp: counter_group_def group_ok_def caches_ok_def group_caches_def filter_ok_def active_view_def
      example_cache_props ttl_config_def)

lemma counter_system_ok:
  assumes "ps = [AtLock ''n'' 2, AtLock ''n'' 3, AtFilter ''m'']"
  shows "sys_ok t counter_inc counter_get (counter_system ps)"
proof -
  have "group_fits counter_group ''m'' (bytes_view b)" if "counter_get ''m'' x = (Inr b, x')" for x b x'
    using that FormatInt_length [of "i64 (x ''m'')"] 
    by (auto simp: counter_get_def counter_group_def group_fits_def group_caches_def item_cost_def ByteView_Len_def
        intro!: example_cache_props)
  moreover have "gr_getter counter_group = counter_get" "\<not> gr_negativeCacheEnabled counter_group" by (simp_all add: counter_group_def)
  ultimately have "fits_getter counter_group ''m''" by (auto simp: fits_getter_def fits_negative_def)
  then show ?thesis
    using counter_ok(1,3,5,7) assms by (simp add: sys_ok_def counter_system_def group_ok_def fits_writes_def) (simp add: counter_group_def)
qed

text \<open>Two goroutines increment a counter and one loads another key; the first increment has returned.\<close>

theorem durable_increments_keep_cache_current_witness:
  "\<exists>s e. sys_reachable (answering empty_response) (counter_system [AtLock ''n'' 2, AtLock ''n'' 3, AtFilter ''m'']) s
     \<and> active_view (sys_group s) ''n'' = Some (bytes_view (FormatInt 2), e)"
proof -
  let ?s0 = "counter_system [AtLock ''n'' 2, AtLock ''n'' 3, AtFilter ''m'']" and ?t = "answering empty_response"
  have inc: "counter_inc ''n'' 2 (w_ext counter_world) = (Inr 2, (\<lambda>_. 0)(''n'' := 2))"
    by (simp add: counter_inc_def counter_world_def i64_id in_i64_def)
  have fits: "group_fits counter_group ''n'' (bytes_view (FormatInt 2))" by (rule counter_ok(7)) (simp add: in_i64_def)
  obtain g' w' e where r: "incrementLocally None ''n'' 2 counter_group counter_world = Some (Inr 2, g', w')"
    "w_ext w' = (\<lambda>_. 0)(''n'' := 2)" "active_view g' ''n'' = Some (bytes_view (FormatInt 2), e)"
    using durable_increment_run [OF counter_ok(1) [where I = "\<lambda>_. True"] _ counter_ok(3,5) inc counter_ok(4) fits] unfolding kept_def by blast
  let ?s1 = "go_to 0 Returned (?s0\<lparr>sys_group := g', sys_world := w'\<rparr>)"
  have reach: "sys_reachable ?t ?s0 ?s1"
    using increment_steps [of ?s0 0 "''n''" 2 counter_inc 2 "(\<lambda>_. 0)(''n'' := 2)" g' w' ?t] inc counter_ok(3,5) r(1)
    by (simp add: sys_at_def counter_system_def)
  have start: "sys_locked ?s0 = {}" "cache_current (\<lambda>m. m) ?s0 ''n''"
    "list_all (\<lambda>p. holds p = None \<and> loading p \<noteq> Some ''n'') (sys_go ?s0)"
    by (simp_all add: counter_system_def cache_current_def counter_ok(2))
  have "in_flight ?s1 ''n'' \<or> (\<forall>v e. active_view (sys_group ?s1) ''n'' = Some (v, e) \<longrightarrow>
      v = bytes_view (FormatInt (w_ext (sys_world ?s1) ''n'')))"
    using durable_increments_keep_cache_current [OF counter_ok(6) counter_system_ok [OF refl] start(1,3,2) reach] by blast
  then show ?thesis using reach r(3) by auto
qed

text \<open>
  C37. A load does not take the lock of the increments, and this loses an update: a goroutine that
  has read a value from the getter before another one increments the key, and writes it to the
  cache after the increment has returned, replaces the new number with the old value. The old value
  is kept for a full TTL from its write, and every \<open>Get\<close> until then returns it, although the backing
  store had the new number before that write.
\<close>

theorem load_hides_increment:
  assumes "group_ok I g" and "gr_mainCache g \<noteq> None" and "key \<noteq> []" and "gr_incrementer g = Some inc" and "ttl_config g"
    and "gr_getter g key (w_ext w) = (Inr b, x1)" and "inc key delta x1 = (Inr n, x2)"
    and "group_fits g key (bytes_view b)" and "group_fits g key (bytes_view (FormatInt n))"
  shows "\<exists>s1 s2 ttl.
    sys_reachable t \<lparr>sys_group = g, sys_world = w, sys_locked = {}, sys_go = [AtGetter key, AtLock key delta]\<rparr> s1
    \<and> sys_go s1 = [Writing FromLoad key (bytes_view b), Returned] \<and> w_ext (sys_world s1) = x2
    \<and> (\<exists>e. active_view (sys_group s1) key = Some (bytes_view (FormatInt n), e))
    \<and> sys_reachable t s1 s2 \<and> sys_go s2 = [Returned, Returned] \<and> w_ext (sys_world s2) = x2 \<and> ttl_allowed g ttl
    \<and> active_view (sys_group s2) key = Some (bytes_view b, expiry_of (add_time (sys_world s1)) ttl)
    \<and> (\<forall>w' e sched. \<not> expired (w_clock w' (w_ticks w' + 2)) (expiry_of (add_time (sys_world s1)) ttl) \<longrightarrow>
        (\<exists>g' w''. group_Get t e sched key (sys_group s2) w' = Some (Inr (bytes_view b), g', w'')))"
proof -
  let ?s0 = "\<lparr>sys_group = g, sys_world = w, sys_locked = {}, sys_go = [AtGetter key, AtLock key delta]\<rparr>"
  let ?w1 = "w_count IncLocalLoads (w\<lparr>w_ext := x1\<rparr>)"
  let ?s1 = "\<lparr>sys_group = g, sys_world = ?w1, sys_locked = {}, sys_go = [Writing FromLoad key (bytes_view b), AtLock key delta]\<rparr>"
  have 1: "sys_step t ?s0 ?s1"
    using step_go [of ?s0 0 "AtGetter key" t _ g ?w1] step_load [of key g w b "w\<lparr>w_ext := x1\<rparr>" t] assms(6)
    by (simp add: sys_at_def go_to_def call_getter_def stampActiveValue_def)
  have inc: "inc key delta (w_ext ?w1) = (Inr n, x2)" using assms(7) by simp
  obtain g' w' e where r: "incrementLocally None key delta g ?w1 = Some (Inr n, g', w')" "w_ext w' = x2"
    "group_ok I g'" "config g' = config g" "group_fits g' = group_fits g" "active_view g' key = Some (bytes_view (FormatInt n), e)"
    using durable_increment_run [OF assms(1,3,2,4) inc assms(5,9)] unfolding kept_def by blast
  let ?s2 = "\<lparr>sys_group = g', sys_world = w', sys_locked = {}, sys_go = [Writing FromLoad key (bytes_view b), Returned]\<rparr>"
  have 2: "sys_reachable t ?s1 ?s2"
    using increment_steps [of ?s1 1 key delta inc n x2 g' w' t] r(1) assms(2-4,7) by (simp add: sys_at_def go_to_def)
  have cfg: "ttl_config g'" using assms(5) config_fields(6,7) [OF r(4)] by (simp add: ttl_config_def)
  obtain ttl m where ttl: "nextTTL g' w' = Some (ttl, w'\<lparr>w_draws := m\<rparr>)" "ttl_allowed g' ttl" by (rule nextTTL_run [OF cfg, of w'])
  have main: "gr_mainCache g' \<noteq> None" using r(1) assms(2) incrementLocally_main by blast
  obtain g3 j where g3: "remember key (bytes_view b) ttl g' (w'\<lparr>w_draws := m\<rparr>) = Some (g3, w'\<lparr>w_draws := m\<rparr>\<lparr>w_ticks := w_ticks (w'\<lparr>w_draws := m\<rparr>) + j\<rparr>)"
    "active_view g3 key = Some (bytes_view b, expiry_of (add_time w') ttl)" "group_ok I g3"
    using remember_kept [OF main r(3), of key "bytes_view b" ttl "w'\<lparr>w_draws := m\<rparr>"] assms(8) r(5) by (auto simp: kept_def add_time_def)
  let ?s3 = "\<lparr>sys_group = g3, sys_world = w'\<lparr>w_draws := m\<rparr>\<lparr>w_ticks := w_ticks (w'\<lparr>w_draws := m\<rparr>) + j\<rparr>, sys_locked = {}, sys_go = [Returned, Returned]\<rparr>"
  have 3: "sys_reachable t ?s2 ?s3"
    using write_steps [of ?s2 0 FromLoad key "bytes_view b" ttl "w'\<lparr>w_draws := m\<rparr>" g3 _ t] ttl(1) g3(1) by (simp add: sys_at_def go_to_def)
  have allowed: "ttl_allowed g ttl" using ttl(2) by (simp add: ttl_allowed_def config_fields(6,7) [OF r(4)] split: if_splits)
  have hit: "\<exists>g' w''. group_Get t e sched key g3 w3 = Some (Inr (bytes_view b), g', w'')"
    if "\<not> expired (w_clock w3 (w_ticks w3 + 2)) (expiry_of (add_time w') ttl)" for w3 e sched
    using group_Get_hit [of g3 key w3 "bytes_view b" t e sched] g3(2,3) assms(3) that by (auto simp: group_ok_def)
  show ?thesis using sys_reachable_Cons [OF 1 2] 3 r(2,6) allowed g3(2) hit
    by (intro exI [of _ ?s2] exI [of _ ?s3] exI [of _ ttl] conjI) simp_all
qed

text \<open>An increment to 5 has returned; a \<open>Get\<close> at the time of the old value's write returns 0.\<close>

theorem load_hides_increment_witness:
  "\<exists>s1 s2 g w. sys_reachable (answering empty_response) (counter_system [AtGetter ''n'', AtLock ''n'' 5]) s1
     \<and> sys_reachable (answering empty_response) s1 s2 \<and> sys_go s2 = [Returned, Returned] \<and> w_ext (sys_world s2) ''n'' = 5
     \<and> group_Get (answering empty_response) None Lead ''n'' (sys_group s2)
         (counter_world\<lparr>w_clock := (\<lambda>_. add_time (sys_world s1) + 90)\<rparr>) = Some (Inr (bytes_view (FormatInt 0)), g, w)"
proof -
  let ?t = "answering empty_response" 
  have get: "gr_getter counter_group ''n'' (w_ext counter_world) = (Inr (FormatInt 0), \<lambda>_. 0)"
    by (simp add: counter_group_def counter_get_def counter_world_def)
  have inc: "counter_inc ''n'' 5 (\<lambda>_. 0) = (Inr 5, (\<lambda>_. 0)(''n'' := 5))" by (simp add: counter_inc_def i64_id in_i64_def)
  have fits: "group_fits counter_group ''n'' (bytes_view (FormatInt 0))" "group_fits counter_group ''n'' (bytes_view (FormatInt 5))"
    by (rule counter_ok(7), simp add: in_i64_def)+
  obtain s1 s2 ttl where s: "sys_reachable ?t (counter_system [AtGetter ''n'', AtLock ''n'' 5]) s1" "sys_reachable ?t s1 s2"
    "sys_go s2 = [Returned, Returned]" "w_ext (sys_world s2) = (\<lambda>_. 0)(''n'' := 5)" "ttl_allowed counter_group ttl"
    "\<forall>w' e sched. \<not> expired (w_clock w' (w_ticks w' + 2)) (expiry_of (add_time (sys_world s1)) ttl) \<longrightarrow>
      (\<exists>g w. group_Get ?t e sched ''n'' (sys_group s2) w' = Some (Inr (bytes_view (FormatInt 0)), g, w))"
    unfolding counter_system_def
    using load_hides_increment [OF counter_ok(1) [where I = "\<lambda>_. True"] counter_ok(3) list.distinct(2) counter_ok(5,4) get inc fits, where t = ?t]
    by blast
  have "90 \<le> ttl" using s(5) by (simp add: ttl_allowed_def counter_group_def)
  then have "\<not> expired (add_time (sys_world s1) + 90) (expiry_of (add_time (sys_world s1)) ttl)" by (simp add: expiry_of_def)
  then obtain g w where "group_Get ?t None Lead ''n'' (sys_group s2)
      (counter_world\<lparr>w_clock := (\<lambda>_. add_time (sys_world s1) + 90)\<rparr>) = Some (Inr (bytes_view (FormatInt 0)), g, w)"
    using s(6) by fastforce
  moreover have "w_ext (sys_world s2) ''n'' = 5" using s(4) by simp
  ultimately show ?thesis using s(1-3) by blast
qed

end
