(* ===== verification/Spec2Isabelle.thy ===== *)
theory Spec2Isabelle
  imports Single_Flight Cache_Capacity Group_Writes Peer_Server Server_API Durable_Increments
begin

text \<open>
  Verification of cachecore, a distributed read-through cache in Go.

  \<^bold>\<open>The program.\<close> A \<^emph>\<open>group\<close> is a named cache in front of a getter (a backing store). \<open>Get\<close> looks into the
  group's main cache; a miss is loaded once for all concurrent callers (singleflight), from the node
  that owns the key (consistent hashing over the peers, protobuf over HTTP) or, on the owner and when
  the owner fails, from the getter behind a Bloom filter; the value is kept in the main cache, in an
  optional cache of stale values and in the filter. Callers that wait too long are answered from the
  caches. \<open>Increment\<close> goes to the owner, which counts in its cache or in a durable store;
  \<open>Invalidate\<close> removes a key on every node. A cache is an LRU or segmented LRU store with a byte
  budget and per-entry expiry, alone or as one of many shards. A server binary puts an HTTP API, a
  Redis or synthetic backend and statistics around one group.

  \<^bold>\<open>The theories\<close>, in the order of their imports, with the files they model under \<^verbatim>\<open>src/\<close>.

  \<^item> \<open>Prelude\<close>: 64-bit wrap-around, durations, expiry times, \<open>container/list\<close>, sums and prefixes of lists.
  \<^item> \<open>Byte_View\<close>: \<^verbatim>\<open>byteview.go\<close>. \<open>Go_Float\<close>, \<open>Go_Strings\<close>, \<open>Go_Error\<close>, \<open>Go_Hash\<close>: what the program uses of
    \<open>float64\<close>, \<^verbatim>\<open>strconv\<close> and \<^verbatim>\<open>strings\<close>, error values and \<open>errors.Is\<close>, FNV, CRC32 and binary search.
  \<^item> \<open>Store_Interface\<close>: the contract of a store as the locales \<open>local_store\<close> and \<open>bounded_store\<close>, which
    \<open>Lru\<close> (\<^verbatim>\<open>internal/lru/lru.go\<close>) and \<open>Slru\<close> (\<^verbatim>\<open>internal/lru/slru.go\<close>) interpret. Each store has
    an abstract eviction policy on its list of entries, and refinement theorems for its operations.
  \<^item> \<open>Stats\<close>: \<^verbatim>\<open>stats.go\<close>, counters, latency windows, percentiles, sampling and the log line.
  \<^item> \<open>Local_Cache\<close> (\<^verbatim>\<open>cache.go\<close>) and \<open>Sharded_Cache\<close> (\<^verbatim>\<open>sharded.go\<close>, \<^verbatim>\<open>increment_locks.go\<close>): the locale
    \<open>group_cache\<close> and its interpretations for the local, the sharded and the configured cache;
    \<open>Cache_Capacity\<close>: the byte budget of whatever the options configure.
  \<^item> \<open>Consistent_Hash\<close> (\<^verbatim>\<open>internal/consistenthash\<close>) and \<open>Bloom_Filter\<close> (\<^verbatim>\<open>bloomfilter\<close>, the set filter of
    \<^verbatim>\<open>main_test_helpers.go\<close>), with the locales \<open>membership_filter\<close> and \<open>resettable_filter\<close>.
  \<^item> \<open>Single_Flight\<close> (\<^verbatim>\<open>internal/singleflight\<close>): any number of callers, interleaved at every access to
    shared state, as a step relation with an invariant on its reachable states.
  \<^item> \<open>Peer_Pool\<close> and \<open>Peer_Server\<close>: the client and the server side of \<^verbatim>\<open>http.go\<close>.
  \<^item> \<open>Filter_Gate\<close> (\<^verbatim>\<open>groupcache_filter.go\<close>), \<open>Group_Cache\<close> (\<^verbatim>\<open>groupcache.go\<close>), \<open>Group_Maintenance\<close>
    (\<^verbatim>\<open>groupcache_maintenance.go\<close>), \<open>Group_Config\<close> (\<^verbatim>\<open>groupcache_config.go\<close>). \<open>Group_Laws\<close> describes
    every step of a group's methods by an abstract view: the pair each of the two caches holds for a
    key. \<open>Group_Reads\<close>, \<open>Group_Peers\<close> and \<open>Group_Writes\<close> have the theorems about whole methods.
  \<^item> \<open>Durable_Increments\<close>: the goroutines of \<open>Increment\<close> and of loads, interleaved at every access to a
    mutex, the backing store, a peer, a cache or the filter, and with the lookups, invalidations, purges,
    warm-ups and filter resets of other goroutines; the steps are the definitions of \<open>Group_Cache\<close>.
  \<^item> \<open>Server_Config\<close> and \<open>Server_API\<close>: \<^verbatim>\<open>cmd/cache-server/main.go\<close>.

  \<^bold>\<open>How code becomes definitions.\<close> A struct is a record, an enumeration or a tagged union a datatype; a
  method takes the receiver and returns it updated. \<open>int64\<close> values are integers that are wrapped by
  \<open>i64\<close> where the code computes, \<open>uint32\<close> and \<open>uint64\<close> are words, strings are byte lists. An error is a
  value \<open>Inl\<close>; a panic, a fatal exit or a call that never returns is \<open>None\<close>. Time is a clock that is
  read at the places where the code calls \<open>time.Now\<close>; the world record holds it with the random
  numbers, the counters and the outside, whose type is a parameter.

  \<^bold>\<open>What is proved.\<close> Evictions follow the LRU and the segmented policy, in every reachable state the
  index, the list and the byte counts of a store agree and the budget holds. A value is read back
  from every kind of cache until it expires or is evicted, and increments add up. The ring gives the
  owner that a reference definition gives, and moves only the keys it has to. The filter has no false
  negatives, also across resets and failed warm-ups. One load runs per key, every caller gets its
  result, and the leader finishes. A group reads through, keeps, degrades, remembers missing keys,
  serves stale values, falls back from failing peers and invalidates everywhere; remote calls are
  faithful to the owner. Concurrent durable increments keep the cache at the newest number, whereas a
  concurrent load can put an older one there for a full TTL. The server starts, warms its filter and
  counts its requests; its statistics are always finite numbers, the same as those of the log line.

  \<^bold>\<open>Loops and fuel.\<close> Loops over data are structural recursion. The eviction loop of the LRU store is a
  \<open>partial_function\<close>, since with a negative limit it does not end; for all other stores it is
  proved to return. The eviction loop of the segmented store carries as fuel the number of entries,
  of which each round removes one, and is proved never to run out; its demotion loop, which takes one
  entry out of the protected segment per round, has a measure, and so has the trimming of
  strings, which consumes at least one byte per round.

  \<^bold>\<open>Parameters.\<close> Code outside the repository is an argument: the protobuf functions and the network
  (\<open>Transport\<close>, \<open>Codec\<close>), Redis (\<open>Redis\<close>), the getter, the incrementer and the filter that a user of
  the package supplies, the iteration order of maps, the Unicode tables behind \<open>strings.ToLower\<close>, the
  host that \<open>url.Parse\<close> finds, and the text of a time. What a theorem needs of them is a hypothesis,
  and its witness instantiates them.

  \<^bold>\<open>Not modelled.\<close> The generated code of \<^verbatim>\<open>pb.pb.go\<close> beyond its two message types; the settings of the HTTP
  client and the sockets; flag parsing and profiling; log output; the adapters \<open>GetterFunc\<close> and
  \<open>IncrementerFunc\<close>, which are plain functions here. Methods of a group other than those of
  \<open>Durable_Increments\<close> and the loader are sequential: their interleaving is the \<open>schedule\<close> of a load, in
  which a waiting caller finds an arbitrary group and world. The critical sections of the caches and
  the counters are atomic, as their mutexes make them.
\<close>

end
